(* ===== verification/Prelude.thy ===== *)
theory Prelude
  imports Main "HOL-Library.Word" "HOL-Library.AList"
begin

unbundle bit_operations_syntax

text \<open>
  The shared vocabulary of the development. Python exceptions are the values of
  \<open>py_error\<close> and a computation that may raise returns \<open>'a res\<close>, with \<open>Inl\<close> for
  the exception. A byte is an 8-bit word, a byte string a list of them. Reading from an
  \<open>io.BytesIO\<close> is a \<open>'a reader\<close>: it takes the bytes that are left and returns
  the value read together with the bytes that remain. Python integers are \<open>int\<close>; the shifts
  and masks of the source are \<open>push_bit\<close>, \<open>drop_bit\<close>, \<open>AND\<close>, \<open>OR\<close> and
  \<open>XOR\<close> on \<open>int\<close>, which agree with Python's two's complement reading of negative
  integers.
\<close>

section \<open>Errors as values\<close>

datatype py_error =
    StructError
  | ValueError
  | IndexError
  | KeyError
  | TypeError
  | AttributeError
  | AssertionError
  | StopIteration
  | RuntimeError
  | NotImplementedError
  | UnicodeDecodeError
  | UnicodeEncodeError
  | UnsupportedOperation
  | ProtocolError
  | NotSupportedError
  | InternalError
  | DriverException
  | NoMurmur3
  | OSError
  | OutOfModel

type_synonym 'a res = "py_error + 'a"

named_theorems res_simps \<open>equations of the error monad\<close>
named_theorems wire_simps \<open>what each reader returns on what the matching writer wrote\<close>

definition res_bind :: "'a res \<Rightarrow> ('a \<Rightarrow> 'b res) \<Rightarrow> 'b res" where
  "res_bind m k = (case m of Inl e \<Rightarrow> Inl e | Inr x \<Rightarrow> k x)"

lemma res_bind_simps [simp, res_simps]:
  "res_bind (Inl e) k = Inl e"
  "res_bind (Inr x) k = k x"
  by (simp_all add: res_bind_def)

lemma res_bind_Inr [simp]: "res_bind m Inr = m"
  by (cases m) simp_all

lemma res_bind_cong [fundef_cong]:
  "m = m' \<Longrightarrow> (\<And>x. m' = Inr x \<Longrightarrow> k x = k' x) \<Longrightarrow> res_bind m k = res_bind m' k'"
  by (cases m') (auto simp: res_bind_def)

lemma res_bind_Inr_iff:
  "res_bind m k = Inr y \<longleftrightarrow> (\<exists>x. m = Inr x \<and> k x = Inr y)"
  by (cases m) auto

lemma res_bind_Inl_iff:
  "res_bind m k = Inl e \<longleftrightarrow> m = Inl e \<or> (\<exists>x. m = Inr x \<and> k x = Inl e)"
  by (cases m) auto

lemma res_bindE:
  assumes "res_bind m k = Inr y"
  obtains x where "m = Inr x" and "k x = Inr y"
  using assms by (auto simp: res_bind_Inr_iff)

text \<open>A Python loop or comprehension that may raise in its body: the first error ends it.\<close>

fun res_map :: "('a \<Rightarrow> 'b res) \<Rightarrow> 'a list \<Rightarrow> 'b list res" where
  "res_map f [] = Inr []"
| "res_map f (x # xs) = res_bind (f x) (\<lambda>y. res_bind (res_map f xs) (\<lambda>ys. Inr (y # ys)))"

lemma res_map_Inr_length: "res_map f xs = Inr ys \<Longrightarrow> length ys = length xs"
  by (induction xs arbitrary: ys) (auto elim!: res_bindE)

section \<open>Bytes\<close>

type_synonym byte = "8 word"
type_synonym bytes = "8 word list"

lemma uint_byte_bounds [simp]: "0 \<le> uint (b :: byte)" "uint b < 256"
  using uint_lt2p [of b] by simp_all

lemma word_of_int_uint_byte [simp]: "(word_of_int (uint b) :: byte) = b"
  by (fact word_of_int_uint)

lemma uint_word_of_int_byte: "uint (word_of_int n :: byte) = n mod 256"
  by (simp add: uint_word_of_int)

text \<open>Big-endian, as \<open>struct\<close> writes and reads with the prefix \<open>>\<close>.\<close>

fun be_bytes :: "nat \<Rightarrow> int \<Rightarrow> bytes" where
  "be_bytes 0 n = []"
| "be_bytes (Suc k) n = be_bytes k (n div 256) @ [word_of_int n]"

definition be_uint :: "bytes \<Rightarrow> int" where
  "be_uint bs = foldl (\<lambda>a b. a * 256 + uint b) 0 bs"

definition be_sint :: "bytes \<Rightarrow> int" where
  "be_sint bs =
     (let u = be_uint bs in if 2 * u < 256 ^ length bs then u else u - 256 ^ length bs)"

lemma length_be_bytes [simp]: "length (be_bytes k n) = k"
  by (induction k arbitrary: n) auto

lemma be_uint_Nil [simp]: "be_uint [] = 0"
  by (simp add: be_uint_def)

lemma be_uint_snoc [simp]: "be_uint (bs @ [b]) = be_uint bs * 256 + uint b"
  by (simp add: be_uint_def)

lemma be_uint_single [simp]: "be_uint [b] = uint b"
  by (simp add: be_uint_def)

lemma be_uint_append: "be_uint (bs @ cs) = be_uint bs * 256 ^ length cs + be_uint cs"
proof (induction cs rule: rev_induct)
  case Nil
  then show ?case by simp
next
  case (snoc c cs)
  have "be_uint (bs @ cs @ [c]) = be_uint ((bs @ cs) @ [c])" by simp
  also have "\<dots> = be_uint (bs @ cs) * 256 + uint c" by (rule be_uint_snoc)
  finally show ?case using snoc by (simp add: algebra_simps)
qed

lemma be_uint_Cons: "be_uint (b # bs) = uint b * 256 ^ length bs + be_uint bs"
  using be_uint_append [of "[b]" bs] by simp

lemma be_uint_nonneg [simp]: "0 \<le> be_uint bs"
  by (induction bs rule: rev_induct) auto

lemma be_uint_less: "be_uint bs < 256 ^ length bs"
proof (induction bs rule: rev_induct)
  case Nil
  then show ?case by simp
next
  case (snoc b bs)
  have "uint b < 256" by simp
  then show ?case using snoc by (simp del: uint_byte_bounds)
qed

lemma be_uint_be_bytes: "be_uint (be_bytes k n) = n mod 256 ^ k"
proof (induction k arbitrary: n)
  case 0
  then show ?case by simp
next
  case (Suc k)
  have "be_uint (be_bytes (Suc k) n) = (n div 256 mod 256 ^ k) * 256 + n mod 256"
    by (simp add: Suc uint_word_of_int_byte)
  also have "\<dots> = n mod 256 ^ Suc k"
    using mod_mult2_eq' [of n 256 "256 ^ k"] by (simp add: zmod_zmult2_eq algebra_simps)
  finally show ?case .
qed

lemma be_bytes_be_uint: "be_bytes (length bs) (be_uint bs) = bs"
proof (induction bs rule: rev_induct)
  case Nil
  then show ?case by simp
next
  case (snoc b bs)
  have d: "(be_uint bs * 256 + uint b) div 256 = be_uint bs"
    using uint_byte_bounds [of b] by (simp del: uint_byte_bounds)
  have "(word_of_int (be_uint bs * 256 + uint b) :: byte) = word_of_int (uint b)"
    by (simp only: word_uint_eq_iff uint_word_of_int) simp
  then show ?case by (simp add: d snoc)
qed

lemma be_bytes_mod: "be_bytes k (n mod 256 ^ k) = be_bytes k n"
  using be_bytes_be_uint [of "be_bytes k n"] by (simp add: be_uint_be_bytes)

lemma be_bytes_uint_inv:
  "0 \<le> n \<Longrightarrow> n < 256 ^ k \<Longrightarrow> be_uint (be_bytes k n) = n"
  by (simp add: be_uint_be_bytes)

lemma be_bytes_sint_inv:
  assumes "- (256 ^ k) \<le> 2 * n" and "2 * n < 256 ^ k"
  shows "be_sint (be_bytes k n) = n"
proof (cases "0 \<le> n")
  case True
  with assms have "n mod 256 ^ k = n" by simp
  with assms True show ?thesis by (simp add: be_sint_def be_uint_be_bytes)
next
  case False
  have "(n + 256 ^ k) mod 256 ^ k = n + 256 ^ k"
    using assms False by (intro mod_pos_pos_trivial) auto
  then have "n mod 256 ^ k = n + 256 ^ k" by simp
  with assms False show ?thesis by (simp add: be_sint_def be_uint_be_bytes)
qed

lemma be_sint_range:
  assumes "bs \<noteq> []"
  shows "- (256 ^ length bs) \<le> 2 * be_sint bs" and "2 * be_sint bs < 256 ^ length bs"
  using be_uint_less [of bs] be_uint_nonneg [of bs]
  by (auto simp: be_sint_def Let_def simp del: be_uint_nonneg)

section \<open>Bits of integers\<close>

lemma even_div_128: "0 \<le> x \<Longrightarrow> x < 256 \<Longrightarrow> even (x div 128) \<longleftrightarrow> x < (128::int)"
  by presburger

lemma two_power_8_mult: "(2::int) ^ (8 * n) = 256 ^ n"
  by (simp add: power_mult)

lemma and_128_byte: "uint (b :: byte) AND 128 = 0 \<longleftrightarrow> uint b < 128"
proof -
  have "uint b AND 2 ^ 7 = 0 \<longleftrightarrow> \<not> bit (uint b) 7"
    by (rule and_exp_eq_0_iff_not_bit)
  also have "\<dots> \<longleftrightarrow> even (uint b div 2 ^ 7)"
    by (simp add: bit_iff_odd)
  also have "\<dots> \<longleftrightarrow> uint b < 128"
    by (simp add: even_div_128)
  finally show ?thesis by simp
qed

lemma and_255_mod: "(n :: int) AND 255 = n mod 256"
  using take_bit_eq_mask [of 8 n] by (simp add: take_bit_eq_mod mask_eq_exp_minus_1)

lemma xor_minus_one: "(x :: int) XOR - 1 = - x - 1"
  by (simp add: not_int_def [symmetric])

lemma xor_eq_0_imp_eq: "(a :: int) XOR b = 0 \<Longrightarrow> b = a"
  by (metis bit.xor_left_self xor.right_neutral)

lemma zdiv_lessI: "0 < b \<Longrightarrow> a < c * b \<Longrightarrow> a div b < (c::int)"
proof (rule ccontr)
  assume "0 < b" "a < c * b" "\<not> a div b < c"
  then have "c * b \<le> a div b * b" by (intro mult_right_mono) auto
  moreover have "a div b * b \<le> a"
    using \<open>0 < b\<close> by (metis div_mult_mod_eq le_add_same_cancel1 pos_mod_sign)
  ultimately show False using \<open>a < c * b\<close> by linarith
qed

lemma word_of_int_and_255: "(word_of_int (n AND 255) :: byte) = word_of_int n"
  by (simp add: and_255_mod word_uint_eq_iff uint_word_of_int)

lemma or_push_bit_disjoint:
  assumes "0 \<le> h" and "h < 2 ^ m"
  shows "(h :: int) OR push_bit m c = h + push_bit m c"
proof -
  have "take_bit m h = h" using assms by (simp add: take_bit_int_eq_self_iff)
  then have "bit h n \<Longrightarrow> n < m" for n by (metis bit_take_bit_iff)
  then show ?thesis
    by (intro disjunctive_add [symmetric]) (force simp: bit_push_bit_iff)
qed

section \<open>Writing to a byte buffer\<close>

text \<open>
  A sequence of \<open>f.write(...)\<close> calls, each of a packed value: the first packer that raises
  ends the sequence, and what was written is the concatenation.
\<close>

fun wr_seq :: "bytes res list \<Rightarrow> bytes res" where
  "wr_seq [] = Inr []"
| "wr_seq (w # ws) = res_bind w (\<lambda>bs. res_bind (wr_seq ws) (\<lambda>cs. Inr (bs @ cs)))"

lemma wr_seq_append:
  "wr_seq (ws @ vs) = res_bind (wr_seq ws) (\<lambda>bs. res_bind (wr_seq vs) (\<lambda>cs. Inr (bs @ cs)))"
  by (induction ws) (auto simp: res_bind_def split: sum.splits)

lemma wr_seq_Cons_Inr:
  "wr_seq (w # ws) = Inr bs \<longleftrightarrow> (\<exists>b c. w = Inr b \<and> wr_seq ws = Inr c \<and> bs = b @ c)"
  by (auto simp: res_bind_Inr_iff)

lemma wr_seq_Nil_Inr: "wr_seq [] = Inr bs \<longleftrightarrow> bs = []"
  by auto

lemma wr_seq_append_Inr:
  "wr_seq (ws @ vs) = Inr bs \<longleftrightarrow> (\<exists>b c. wr_seq ws = Inr b \<and> wr_seq vs = Inr c \<and> bs = b @ c)"
  by (auto simp: wr_seq_append res_bind_Inr_iff)

lemmas wr_seq_Inr = wr_seq_Cons_Inr wr_seq_Nil_Inr wr_seq_append_Inr

section \<open>Reading from a byte buffer\<close>

type_synonym 'a reader = "bytes \<Rightarrow> ('a \<times> bytes) res"

definition rd_return :: "'a \<Rightarrow> 'a reader" where
  "rd_return x = (\<lambda>f. Inr (x, f))"

definition rd_fail :: "py_error \<Rightarrow> 'a reader" where
  "rd_fail e = (\<lambda>f. Inl e)"

definition rd_bind :: "'a reader \<Rightarrow> ('a \<Rightarrow> 'b reader) \<Rightarrow> 'b reader" where
  "rd_bind r k = (\<lambda>f. res_bind (r f) (\<lambda>(x, f'). k x f'))"

definition rd_lift :: "'a res \<Rightarrow> 'a reader" where
  "rd_lift m = (\<lambda>f. res_bind m (\<lambda>x. Inr (x, f)))"

text \<open>
  \<open>f.read(n)\<close>: at most \<open>n\<close> bytes, fewer at the end of the buffer without an
  error, and everything that is left when \<open>n\<close> is negative.
\<close>

definition rd_read :: "int \<Rightarrow> bytes reader" where
  "rd_read n = (\<lambda>f. if n < 0 then Inr (f, []) else Inr (take (nat n) f, drop (nat n) f))"

text \<open>\<open>[read(f) for _ in range(n)]\<close>: no iteration when \<open>n\<close> is not positive.\<close>

fun rd_times :: "nat \<Rightarrow> 'a reader \<Rightarrow> 'a list reader" where
  "rd_times 0 r = rd_return []"
| "rd_times (Suc n) r = rd_bind r (\<lambda>x. rd_bind (rd_times n r) (\<lambda>xs. rd_return (x # xs)))"

lemma rd_simps [simp, wire_simps]:
  "rd_return x f = Inr (x, f)"
  "rd_fail e f = Inl e"
  "rd_lift (Inr x) f = Inr (x, f)"
  "rd_lift (Inl e) f = Inl e"
  by (simp_all add: rd_return_def rd_fail_def rd_lift_def)

lemma rd_bind_Inr [wire_simps]: "r f = Inr (x, f') \<Longrightarrow> rd_bind r k f = k x f'"
  by (simp add: rd_bind_def)

lemma rd_bind_Inl [wire_simps]: "r f = Inl e \<Longrightarrow> rd_bind r k f = Inl e"
  by (simp add: rd_bind_def)

lemma rd_bind_cong [fundef_cong]:
  "f = f' \<Longrightarrow> r f' = r' f' \<Longrightarrow> (\<And>x g. r' f' = Inr (x, g) \<Longrightarrow> k x g = k' x g)
    \<Longrightarrow> rd_bind r k f = rd_bind r' k' f'"
  by (auto simp: rd_bind_def intro: res_bind_cong)

lemma rd_read_append [wire_simps]: "int (length bs) = n \<Longrightarrow> rd_read n (bs @ rest) = Inr (bs, rest)"
  by (auto simp: rd_read_def)

lemma rd_times_append:
  assumes "\<And>x rest. x \<in> set xs \<Longrightarrow> r (w x @ rest) = Inr (x, rest)"
  shows "rd_times (length xs) r (concat (map w xs) @ rest) = Inr (xs, rest)"
  using assms by (induction xs) (auto simp: rd_bind_def)

section \<open>itertools\<close>

text \<open>The \<open>n\<close> items from position \<open>pos\<close> on of \<open>cycle(xs)\<close>, with \<open>n = len(xs)\<close>.\<close>

definition cycle_slice :: "'a list \<Rightarrow> nat \<Rightarrow> 'a list" where
  "cycle_slice xs pos = map (\<lambda>i. xs ! (i mod length xs)) [pos..<pos + length xs]"

lemma cycle_slice_rotate: "cycle_slice xs pos = rotate pos xs"
proof (rule nth_equalityI)
  show "length (cycle_slice xs pos) = length (rotate pos xs)" by (simp add: cycle_slice_def)
  fix i assume "i < length (cycle_slice xs pos)"
  then have "i < length xs" by (simp add: cycle_slice_def)
  then show "cycle_slice xs pos ! i = rotate pos xs ! i"
    by (simp add: cycle_slice_def nth_rotate)
qed

end
