(* ===== verification/Marshal.thy ===== *)
theory Marshal
  imports Prelude
begin

unbundle bit_operations_syntax

text \<open>
  The byte-level encodings of \<open>cassandra/marshal.py\<close>: the \<open>struct\<close> packers and
  unpackers, the two frame headers, arbitrary-precision integers (\<open>varint\<close>), and the
  zig-zag variable-length integers (\<open>vints\<close>) of the duration type. A packer returns
  \<open>Inl StructError\<close> on a value out of its range and an unpacker on a string of the wrong
  length, as \<open>struct\<close> raises. The interface \<open>codec\<close> states what every client of a pair of
  packer and unpacker relies on.
\<close>

section \<open>The interface of a pair of packer and unpacker\<close>

locale codec =
  fixes pack :: "'a \<Rightarrow> bytes res"
    and unpack :: "bytes \<Rightarrow> 'a res"
    and valid :: "'a \<Rightarrow> bool"
  assumes pack_valid: "valid x \<longleftrightarrow> (\<exists>bs. pack x = Inr bs)"
    and unpack_pack: "pack x = Inr bs \<Longrightarrow> unpack bs = Inr x"
begin

lemma roundtrip: "valid x \<Longrightarrow> res_bind (pack x) unpack = Inr x"
  using pack_valid unpack_pack by fastforce

lemma pack_inj: "pack x = Inr bs \<Longrightarrow> pack y = Inr bs \<Longrightarrow> x = y"
  by (metis unpack_pack sum.inject(2))

lemma pack_error: "\<not> valid x \<longleftrightarrow> (\<exists>e. pack x = Inl e)"
  using pack_valid by (cases "pack x") auto

end

locale fixed_codec = codec +
  fixes width :: nat
  assumes pack_width: "pack x = Inr bs \<Longrightarrow> length bs = width"
begin

text \<open>A fixed-width value is read back from the front of a longer buffer.\<close>

lemma read_pack:
  assumes "pack x = Inr bs"
  shows "rd_bind (rd_read (int width)) (\<lambda>s. rd_lift (unpack s)) (bs @ rest) = Inr (x, rest)"
proof -
  have "rd_read (int width) (bs @ rest) = Inr (bs, rest)"
    by (rule rd_read_append) (simp add: pack_width [OF assms])
  then show ?thesis
    by (simp add: rd_bind_def unpack_pack [OF assms])
qed

end

section \<open>struct packers\<close>

definition pack_signed :: "nat \<Rightarrow> int \<Rightarrow> bytes res" where
  "pack_signed k n =
     (if - (256 ^ k) \<le> 2 * n \<and> 2 * n < 256 ^ k then Inr (be_bytes k n) else Inl StructError)"

definition pack_unsigned :: "nat \<Rightarrow> int \<Rightarrow> bytes res" where
  "pack_unsigned k n =
     (if 0 \<le> n \<and> n < 256 ^ k then Inr (be_bytes k n) else Inl StructError)"

definition unpack_signed :: "nat \<Rightarrow> bytes \<Rightarrow> int res" where
  "unpack_signed k bs = (if length bs = k then Inr (be_sint bs) else Inl StructError)"

definition unpack_unsigned :: "nat \<Rightarrow> bytes \<Rightarrow> int res" where
  "unpack_unsigned k bs = (if length bs = k then Inr (be_uint bs) else Inl StructError)"

definition int64_pack :: "int \<Rightarrow> bytes res" where "int64_pack = pack_signed 8"
definition int32_pack :: "int \<Rightarrow> bytes res" where "int32_pack = pack_signed 4"
definition int16_pack :: "int \<Rightarrow> bytes res" where "int16_pack = pack_signed 2"
definition int8_pack :: "int \<Rightarrow> bytes res" where "int8_pack = pack_signed 1"
definition uint64_pack :: "int \<Rightarrow> bytes res" where "uint64_pack = pack_unsigned 8"
definition uint32_pack :: "int \<Rightarrow> bytes res" where "uint32_pack = pack_unsigned 4"
definition uint16_pack :: "int \<Rightarrow> bytes res" where "uint16_pack = pack_unsigned 2"
definition uint8_pack :: "int \<Rightarrow> bytes res" where "uint8_pack = pack_unsigned 1"

definition int64_unpack :: "bytes \<Rightarrow> int res" where "int64_unpack = unpack_signed 8"
definition int32_unpack :: "bytes \<Rightarrow> int res" where "int32_unpack = unpack_signed 4"
definition int16_unpack :: "bytes \<Rightarrow> int res" where "int16_unpack = unpack_signed 2"
definition int8_unpack :: "bytes \<Rightarrow> int res" where "int8_unpack = unpack_signed 1"
definition uint64_unpack :: "bytes \<Rightarrow> int res" where "uint64_unpack = unpack_unsigned 8"
definition uint32_unpack :: "bytes \<Rightarrow> int res" where "uint32_unpack = unpack_unsigned 4"
definition uint16_unpack :: "bytes \<Rightarrow> int res" where "uint16_unpack = unpack_unsigned 2"
definition uint8_unpack :: "bytes \<Rightarrow> int res" where "uint8_unpack = unpack_unsigned 1"

lemmas pack_defs =
  int64_pack_def int32_pack_def int16_pack_def int8_pack_def
  uint64_pack_def uint32_pack_def uint16_pack_def uint8_pack_def
  int64_unpack_def int32_unpack_def int16_unpack_def int8_unpack_def
  uint64_unpack_def uint32_unpack_def uint16_unpack_def uint8_unpack_def

lemma signed_fixed_codec:
  "fixed_codec (pack_signed k) (unpack_signed k)
     (\<lambda>n. - (256 ^ k) \<le> 2 * n \<and> 2 * n < 256 ^ k) k"
  by unfold_locales
    (auto simp: pack_signed_def unpack_signed_def be_bytes_sint_inv split: if_splits)

lemma unsigned_fixed_codec:
  "fixed_codec (pack_unsigned k) (unpack_unsigned k) (\<lambda>n. 0 \<le> n \<and> n < 256 ^ k) k"
  by unfold_locales
    (auto simp: pack_unsigned_def unpack_unsigned_def be_bytes_uint_inv split: if_splits)

interpretation i64: fixed_codec int64_pack int64_unpack
  "\<lambda>n. - (256 ^ 8) \<le> 2 * n \<and> 2 * n < 256 ^ 8" 8
  unfolding pack_defs by (rule signed_fixed_codec)

interpretation i32: fixed_codec int32_pack int32_unpack
  "\<lambda>n. - (256 ^ 4) \<le> 2 * n \<and> 2 * n < 256 ^ 4" 4
  unfolding pack_defs by (rule signed_fixed_codec)

interpretation i16: fixed_codec int16_pack int16_unpack
  "\<lambda>n. - (256 ^ 2) \<le> 2 * n \<and> 2 * n < 256 ^ 2" 2
  unfolding pack_defs by (rule signed_fixed_codec)

interpretation i8: fixed_codec int8_pack int8_unpack
  "\<lambda>n. - (256 ^ 1) \<le> 2 * n \<and> 2 * n < 256 ^ 1" 1
  unfolding pack_defs by (rule signed_fixed_codec)

interpretation u64: fixed_codec uint64_pack uint64_unpack "\<lambda>n. 0 \<le> n \<and> n < 256 ^ 8" 8
  unfolding pack_defs by (rule unsigned_fixed_codec)

interpretation u32: fixed_codec uint32_pack uint32_unpack "\<lambda>n. 0 \<le> n \<and> n < 256 ^ 4" 4
  unfolding pack_defs by (rule unsigned_fixed_codec)

interpretation u16: fixed_codec uint16_pack uint16_unpack "\<lambda>n. 0 \<le> n \<and> n < 256 ^ 2" 2
  unfolding pack_defs by (rule unsigned_fixed_codec)

interpretation u8: fixed_codec uint8_pack uint8_unpack "\<lambda>n. 0 \<le> n \<and> n < 256 ^ 1" 1
  unfolding pack_defs by (rule unsigned_fixed_codec)

section \<open>Frame headers\<close>

text \<open>
  \<open>header_struct\<close> (\<open>>BBbB\<close>) and \<open>v3_header_struct\<close> (\<open>>BBhB\<close>): version, flags,
  stream id and opcode, with a stream id of one byte up to protocol version 2 and of two bytes
  after it.
\<close>

type_synonym header = "int \<times> int \<times> int \<times> int"

fun header_pack :: "header \<Rightarrow> bytes res" where
  "header_pack (version, flags, stream, opcode) =
     wr_seq [uint8_pack version, uint8_pack flags, int8_pack stream, uint8_pack opcode]"

fun header_unpack :: "bytes \<Rightarrow> header res" where
  "header_unpack [v, f, s, op] = Inr (uint v, uint f, be_sint [s], uint op)"
| "header_unpack _ = Inl StructError"

fun v3_header_pack :: "header \<Rightarrow> bytes res" where
  "v3_header_pack (version, flags, stream, opcode) =
     wr_seq [uint8_pack version, uint8_pack flags, int16_pack stream, uint8_pack opcode]"

fun v3_header_unpack :: "bytes \<Rightarrow> header res" where
  "v3_header_unpack [v, f, s1, s2, op] = Inr (uint v, uint f, be_sint [s1, s2], uint op)"
| "v3_header_unpack _ = Inl StructError"

definition byte_range :: "int \<Rightarrow> bool" where
  "byte_range n \<longleftrightarrow> 0 \<le> n \<and> n < 256"

lemma uint8_pack_eq: "uint8_pack n = (if byte_range n then Inr [word_of_int n] else Inl StructError)"
  by (simp add: uint8_pack_def pack_unsigned_def byte_range_def)

lemma uint_byte_inv: "byte_range n \<Longrightarrow> uint (word_of_int n :: byte) = n"
  by (simp add: byte_range_def uint_word_of_int)

lemma int8_pack_eq:
  "int8_pack n = (if - 128 \<le> n \<and> n < 128 then Inr [word_of_int n] else Inl StructError)"
  by (simp add: int8_pack_def pack_signed_def)

lemma int16_pack_eq:
  "int16_pack n = (if - 32768 \<le> n \<and> n < 32768
     then Inr [word_of_int (n div 256), word_of_int n] else Inl StructError)"
  by (simp add: int16_pack_def pack_signed_def numeral_2_eq_2)

interpretation hdr: fixed_codec header_pack header_unpack
  "\<lambda>(v, f, s, op). byte_range v \<and> byte_range f \<and> - 128 \<le> s \<and> s < 128 \<and> byte_range op" 4
proof
  fix h :: header and bs
  show "(case h of (v, f, s, op) \<Rightarrow>
      byte_range v \<and> byte_range f \<and> - 128 \<le> s \<and> s < 128 \<and> byte_range op)
    \<longleftrightarrow> (\<exists>bs. header_pack h = Inr bs)"
    by (cases h) (auto simp: uint8_pack_eq int8_pack_eq split: if_splits)
  assume *: "header_pack h = Inr bs"
  then show "header_unpack bs = Inr h"
    using be_bytes_sint_inv [of 1]
    by (cases h) (auto simp: uint8_pack_eq int8_pack_eq uint_byte_inv split: if_splits)
  from * show "length bs = 4"
    by (cases h) (auto simp: uint8_pack_eq int8_pack_eq split: if_splits)
qed

interpretation v3hdr: fixed_codec v3_header_pack v3_header_unpack
  "\<lambda>(v, f, s, op). byte_range v \<and> byte_range f \<and> - 32768 \<le> s \<and> s < 32768 \<and> byte_range op" 5
proof
  fix h :: header and bs
  show "(case h of (v, f, s, op) \<Rightarrow>
      byte_range v \<and> byte_range f \<and> - 32768 \<le> s \<and> s < 32768 \<and> byte_range op)
    \<longleftrightarrow> (\<exists>bs. v3_header_pack h = Inr bs)"
    by (cases h) (auto simp: uint8_pack_eq int16_pack_eq split: if_splits)
  assume *: "v3_header_pack h = Inr bs"
  then show "v3_header_unpack bs = Inr h"
    using be_bytes_sint_inv [of 2]
    by (cases h) (auto simp: uint8_pack_eq int16_pack_eq uint_byte_inv numeral_2_eq_2 split: if_splits)
  from * show "length bs = 5"
    by (cases h) (auto simp: uint8_pack_eq int16_pack_eq split: if_splits)
qed

section \<open>varint\<close>

fun blen :: "nat \<Rightarrow> nat" where
  "blen n = (if n = 0 then 0 else Suc (blen (n div 2)))"

declare blen.simps [simp del]

definition bit_length :: "int \<Rightarrow> int" where
  "bit_length n = int (blen (nat \<bar>n\<bar>))"

definition varint_unpack :: "bytes \<Rightarrow> int res" where
  "varint_unpack term =
     (case term of
        [] \<Rightarrow> Inl ValueError
      | b # _ \<Rightarrow>
          (let val = be_uint term
           in if uint b AND 128 \<noteq> 0 then Inr (val - push_bit (length term * 8) 1) else Inr val))"

text \<open>The loop \<open>while big > 0\<close>, with \<open>revbytes\<close> its least significant byte first.\<close>

function varint_digits :: "int \<Rightarrow> bytes \<Rightarrow> bytes" where
  "varint_digits big revbytes =
     (if big > 0 then varint_digits (drop_bit 8 big) (revbytes @ [word_of_int (big AND 255)])
      else revbytes)"
  by pat_completeness auto
termination
  by (relation "measure (\<lambda>(big, _). nat big)")
    (auto simp: drop_bit_eq_div intro!: nat_mono_iff [THEN iffD2])

declare varint_digits.simps [simp del]

definition varint_pack :: "int \<Rightarrow> bytes" where
  "varint_pack big =
     (if big = 0 then [0]
      else
        (let pos = (big > 0);
             big' =
               (if big < 0
                then push_bit (nat ((bit_length (\<bar>big\<bar> - 1) div 8 + 1) * 8)) 1 + big
                else big);
             revbytes = varint_digits big' [];
             revbytes' =
               (if pos \<and> uint (last revbytes) AND 128 \<noteq> 0 then revbytes @ [0] else revbytes)
         in rev revbytes'))"

section \<open>Zig-zag vints\<close>

definition encode_zig_zag :: "int \<Rightarrow> int" where
  "encode_zig_zag n = push_bit 1 n XOR drop_bit 63 n"

definition decode_zig_zag :: "int \<Rightarrow> int" where
  "decode_zig_zag n = drop_bit 1 n XOR - (n AND 1)"

text \<open>The inner loop of \<open>vints_unpack\<close>: \<open>term[n]\<close> past the end raises.\<close>

fun vint_extra :: "nat \<Rightarrow> int \<Rightarrow> bytes \<Rightarrow> (int \<times> bytes) res" where
  "vint_extra 0 val bs = Inr (val, bs)"
| "vint_extra (Suc k) val [] = Inl IndexError"
| "vint_extra (Suc k) val (b # bs) = vint_extra k (push_bit 8 val OR (uint b AND 255)) bs"

lemma vint_extra_length: "vint_extra k val bs = Inr (v, bs') \<Longrightarrow> length bs' \<le> length bs"
  by (induction k val bs rule: vint_extra.induct) auto

function vints_unpack_loop :: "bytes \<Rightarrow> int list \<Rightarrow> int list res" where
  "vints_unpack_loop [] values = Inr values"
| "vints_unpack_loop (b # bs) values =
     (let first_byte = uint b
      in if first_byte AND 128 = 0
         then vints_unpack_loop bs (values @ [decode_zig_zag first_byte])
         else
           (let num_extra_bytes = nat (8 - bit_length (NOT first_byte AND 255))
            in res_bind (vint_extra num_extra_bytes (first_byte AND drop_bit num_extra_bytes 255) bs)
                 (\<lambda>(val, bs'). vints_unpack_loop bs' (values @ [decode_zig_zag val]))))"
  by pat_completeness auto
termination
  by (relation "measure (\<lambda>(bs, _). length bs)") (auto dest: vint_extra_length)

definition vints_unpack :: "bytes \<Rightarrow> int list res" where
  "vints_unpack term = vints_unpack_loop term []"

text \<open>\<open>revbytes.append(v)\<close> raises unless \<open>v\<close> fits in a byte.\<close>

definition bytearray_append :: "bytes \<Rightarrow> int \<Rightarrow> bytes res" where
  "bytearray_append bs v = (if 0 \<le> v \<and> v < 256 then Inr (bs @ [word_of_int v]) else Inl ValueError)"

text \<open>
  The loop that moves low bytes out until the rest fits beside the length prefix. The variable
  \<open>reserved_bits\<close> of the source is \<open>min(num_extra_bytes + 1, 8)\<close> throughout.
\<close>

function vint_shift :: "nat \<Rightarrow> int \<Rightarrow> int \<Rightarrow> bytes \<Rightarrow> nat \<times> int \<times> bytes" where
  "vint_shift num_extra_bytes num_bits v revbytes =
     (let reserved_bits = min (int num_extra_bytes + 1) 8
      in if num_bits > 8 - reserved_bits
         then vint_shift (Suc num_extra_bytes) (num_bits - 8) (drop_bit 8 v)
                (revbytes @ [word_of_int (v AND 255)])
         else (num_extra_bytes, v, revbytes))"
  by pat_completeness auto
termination
  by (relation "measure (\<lambda>(_, num_bits, _, _). nat num_bits)") auto

declare vint_shift.simps [simp del]

definition vint_pack_one :: "int \<Rightarrow> bytes \<Rightarrow> bytes res" where
  "vint_pack_one value revbytes =
     (let v = encode_zig_zag value
      in if v < 128 then bytearray_append revbytes v
         else
           (let (num_extra_bytes, v', revbytes') = vint_shift 0 (bit_length v) v revbytes
            in if num_extra_bytes > 8 then Inl ValueError
               else
                 (let n = 8 - num_extra_bytes
                  in bytearray_append revbytes'
                       \<bar>v' OR push_bit n (drop_bit n 255)\<bar>)))"

fun vints_pack_loop :: "int list \<Rightarrow> bytes \<Rightarrow> bytes res" where
  "vints_pack_loop [] revbytes = Inr revbytes"
| "vints_pack_loop (value # values) revbytes =
     res_bind (vint_pack_one value revbytes) (vints_pack_loop values)"

definition vints_pack :: "int list \<Rightarrow> bytes res" where
  "vints_pack values = res_bind (vints_pack_loop (rev values) []) (\<lambda>revbytes. Inr (rev revbytes))"

section \<open>varint: round trip and minimal length\<close>

lemma blen_le_iff: "blen n \<le> k \<longleftrightarrow> n < 2 ^ k"
proof (induction n arbitrary: k rule: blen.induct)
  case (1 n)
  show ?case
  proof (cases "n = 0")
    case True
    then show ?thesis by (simp add: blen.simps)
  next
    case False
    show ?thesis
    proof (cases k)
      case 0
      with False show ?thesis by (simp add: blen.simps [of n])
    next
      case (Suc j)
      with False 1 [of j] show ?thesis by (simp add: blen.simps [of n]) linarith
    qed
  qed
qed

lemma varint_digits_acc: "varint_digits big acc = acc @ varint_digits big []"
proof (induction "nat big" arbitrary: big acc rule: less_induct)
  case less
  show ?case
  proof (cases "big > 0")
    case True
    then have "nat (drop_bit 8 big) < nat big" by (simp add: drop_bit_eq_div)
    note IH = less [OF this]
    from True show ?thesis
      by (simp add: varint_digits.simps [of big acc] varint_digits.simps [of big "[]"]
          IH [of "acc @ _"] IH [of "[_]"])
  next
    case False
    then show ?thesis by (simp add: varint_digits.simps [of big])
  qed
qed

lemma varint_digits_step:
  "big > 0 \<Longrightarrow>
     varint_digits big [] = word_of_int (big AND 255) # varint_digits (big div 256) []"
  by (subst varint_digits.simps) (simp add: varint_digits_acc [of _ "[_]"] drop_bit_eq_div)

lemma varint_digits_0: "big \<le> 0 \<Longrightarrow> varint_digits big [] = []"
  by (simp add: varint_digits.simps)

lemma be_uint_varint_digits:
  assumes "0 \<le> big"
  shows "be_uint (rev (varint_digits big [])) = big"
  using assms
proof (induction "nat big" arbitrary: big rule: less_induct)
  case less
  show ?case
  proof (cases "big = 0")
    case True
    then show ?thesis by (simp add: varint_digits_0)
  next
    case False
    with less.prems have "be_uint (rev (varint_digits (big div 256) [])) = big div 256"
      by (intro less.hyps) auto
    with False less.prems show ?thesis
      by (simp add: varint_digits_step and_255_mod uint_word_of_int)
  qed
qed

lemma varint_digits_length_le: "big < 256 ^ k \<Longrightarrow> length (varint_digits big []) \<le> k"
proof (induction k arbitrary: big)
  case 0
  then show ?case by (simp add: varint_digits_0)
next
  case (Suc k)
  show ?case
  proof (cases "big > 0")
    case True
    from Suc.prems have "big div 256 < 256 ^ k" by (simp add: div_less_iff_less_mult mult.commute)
    then show ?thesis using Suc.IH True by (simp add: varint_digits_step)
  next
    case False
    then show ?thesis by (simp add: varint_digits_0)
  qed
qed

lemma varint_digits_length:
  assumes "256 ^ k \<le> big" and "big < 256 ^ Suc k"
  shows "length (varint_digits big []) = Suc k"
proof -
  have "0 \<le> big" using assms(1) order_trans [of 0 "256 ^ k" big] by simp
  then have "big < 256 ^ length (varint_digits big [])"
    using be_uint_less [of "rev (varint_digits big [])"] by (simp add: be_uint_varint_digits)
  with assms(1) have "(256::int) ^ k < 256 ^ length (varint_digits big [])" by linarith
  then have "k < length (varint_digits big [])" by (simp add: power_strict_increasing_iff)
  with varint_digits_length_le [OF assms(2)] show ?thesis by simp
qed

lemma high_bit_be_uint: "uint b < 128 \<longleftrightarrow> 2 * be_uint (b # bs) < 256 ^ length (b # bs)"
proof -
  let ?n = "256 ^ length bs :: int"
  have u: "be_uint (b # bs) = uint b * ?n + be_uint bs" by (rule be_uint_Cons)
  have lt: "be_uint bs < ?n" by (rule be_uint_less)
  show ?thesis
  proof
    assume "uint b < 128"
    then have "uint b * ?n \<le> 127 * ?n" by (intro mult_right_mono) auto
    moreover have "x \<le> 127 * n \<Longrightarrow> y < n \<Longrightarrow> 2 * (x + y) < 256 * n" for x y n :: int
      by arith
    ultimately show "2 * be_uint (b # bs) < 256 ^ length (b # bs)"
      unfolding u length_Cons power_Suc using lt by blast
  next
    assume a: "2 * be_uint (b # bs) < 256 ^ length (b # bs)"
    show "uint b < 128"
    proof (rule ccontr)
      assume "\<not> uint b < 128"
      then have "128 * ?n \<le> uint b * ?n" by (intro mult_right_mono) auto
      moreover have "128 * n \<le> x \<Longrightarrow> 0 \<le> y \<Longrightarrow> \<not> 2 * (x + y) < 256 * n" for x y n :: int
        by arith
      ultimately show False
        using a be_uint_nonneg [of bs] unfolding u length_Cons power_Suc by blast
    qed
  qed
qed

lemma varint_unpack_be_sint:
  assumes "bs \<noteq> []"
  shows "varint_unpack bs = Inr (be_sint bs)"
proof -
  from assms obtain b cs where bs: "bs = b # cs" by (cases bs) auto
  have "push_bit (length bs * 8) 1 = (256 :: int) ^ length bs"
    by (simp add: push_bit_eq_mult mult.commute [of _ 8] two_power_8_mult)
  then show ?thesis
    using high_bit_be_uint [of b cs]
    by (simp add: bs varint_unpack_def be_sint_def Let_def and_128_byte)
qed

lemma be_sint_zero_Cons: "be_sint (0 # bs) = be_uint bs"
proof -
  have "2 * be_uint bs < 256 * 256 ^ length bs"
    using be_uint_less [of bs] zero_le_power [of "256::int" "length bs"] by linarith
  then show ?thesis by (simp add: be_sint_def be_uint_Cons)
qed

lemma varint_pack_neg:
  assumes "big < 0"
  defines "L \<equiv> nat (bit_length (\<bar>big\<bar> - 1) div 8) + 1"
  shows "varint_pack big = rev (varint_digits (256 ^ L + big) [])"
    and "length (varint_pack big) = L"
    and "- (256 ^ L) \<le> 2 * big"
proof -
  have L: "nat ((bit_length (\<bar>big\<bar> - 1) div 8 + 1) * 8) = 8 * L"
    by (simp add: L_def bit_length_def nat_mult_distrib nat_add_distrib)
  with assms(1) show eq: "varint_pack big = rev (varint_digits (256 ^ L + big) [])"
    by (simp add: varint_pack_def push_bit_eq_mult two_power_8_mult)
  have "\<bar>\<bar>big\<bar> - 1\<bar> = \<bar>big\<bar> - 1" using assms(1) by simp
  then have "L = blen (nat (\<bar>big\<bar> - 1)) div 8 + 1"
    by (simp add: L_def bit_length_def nat_div_distrib)
  then have "blen (nat (\<bar>big\<bar> - 1)) \<le> 8 * L - 1" by presburger
  then have "nat (\<bar>big\<bar> - 1) < 2 ^ (8 * L - 1)" by (simp only: blen_le_iff)
  then have "- big - 1 < 2 ^ (8 * L - 1)"
    using assms(1) by (simp add: nat_less_iff)
  moreover have "2 * (2::int) ^ (8 * L - 1) = 256 ^ L"
    using two_power_8_mult [of L] by (simp add: L_def flip: power_Suc)
  ultimately show half: "- (256 ^ L) \<le> 2 * big" by linarith
  obtain k where k: "L = Suc k" by (simp add: L_def)
  have "(0::int) < 256 ^ k" by simp
  with half have "(256::int) ^ k \<le> 256 ^ L + big" unfolding k power_Suc by linarith
  moreover have "256 ^ L + big < 256 ^ Suc k" using assms(1) k by simp
  ultimately show "length (varint_pack big) = L"
    unfolding eq length_rev k by (rule varint_digits_length [folded k])
qed

lemma varint_pack_pos:
  assumes "big > 0"
  defines "D \<equiv> rev (varint_digits big [])"
  shows "varint_pack big = (if 2 * big < 256 ^ length D then D else 0 # D)"
    and "be_uint D = big"
proof -
  show D: "be_uint D = big" using assms by (simp add: be_uint_varint_digits)
  with assms(1) have "D \<noteq> []" by (metis be_uint_Nil less_irrefl)
  then obtain b bs where bs: "D = b # bs" by (cases D) auto
  then have "last (varint_digits big []) = b"
    by (metis D_def last_rev list.sel(1) rev_rev_ident)
  then have "varint_pack big = (if uint b < 128 then D else 0 # D)"
    using assms(1) by (simp add: varint_pack_def Let_def and_128_byte D_def)
  with high_bit_be_uint [of b bs] D bs
  show "varint_pack big = (if 2 * big < 256 ^ length D then D else 0 # D)" by simp
qed

lemma be_sint_varint_pack: "be_sint (varint_pack big) = big"
proof (cases big "0 :: int" rule: linorder_cases)
  case less
  note neg = varint_pack_neg [OF less]
  let ?L = "nat (bit_length (\<bar>big\<bar> - 1) div 8) + 1"
  have "(0::int) < 256 ^ ?L" by simp
  with neg(3) have "0 \<le> 256 ^ ?L + big" by linarith
  then have "be_uint (varint_pack big) = 256 ^ ?L + big"
    unfolding neg(1) by (rule be_uint_varint_digits)
  with neg(2,3) show ?thesis by (simp add: be_sint_def)
next
  case equal
  then show ?thesis by (simp add: varint_pack_def be_sint_def)
next
  case greater
  note pos = varint_pack_pos [OF greater]
  show ?thesis
  proof (cases "2 * big < 256 ^ length (rev (varint_digits big []))")
    case True
    with pos show ?thesis by (simp add: be_sint_def)
  next
    case False
    with pos(1) have "varint_pack big = 0 # rev (varint_digits big [])" by simp
    with pos(2) show ?thesis by (simp add: be_sint_zero_Cons)
  qed
qed

lemma varint_pack_not_Nil [simp]: "varint_pack big \<noteq> []"
  using be_sint_varint_pack [of big]
  by (cases big "0 :: int" rule: linorder_cases)
    (auto simp: varint_pack_def be_sint_def varint_pack_neg(2) dest: arg_cong [where f = length])

lemma varint_unpack_pack: "varint_unpack (varint_pack big) = Inr big"
  by (simp add: varint_unpack_be_sint be_sint_varint_pack)

lemma varint_pack_shortest:
  assumes "varint_unpack bs = Inr big"
  shows "length (varint_pack big) \<le> length bs"
proof -
  from assms have ne: "bs \<noteq> []" by (auto simp: varint_unpack_def)
  with assms have big: "big = be_sint bs" by (simp add: varint_unpack_be_sint)
  note range = be_sint_range [OF ne, folded big]
  show ?thesis
  proof (cases big "0 :: int" rule: linorder_cases)
    case less
    have "8 * length bs - 1 + 1 = 8 * length bs" using ne by (cases bs) auto
    then have "2 * (2::int) ^ (8 * length bs - 1) = 256 ^ length bs"
      by (metis power_Suc Suc_eq_plus1 two_power_8_mult)
    with range less have "nat (\<bar>big\<bar> - 1) < 2 ^ (8 * length bs - 1)"
      by (simp add: nat_less_iff)
    then have "blen (nat (\<bar>big\<bar> - 1)) \<le> 8 * length bs - 1" by (simp only: blen_le_iff)
    moreover have "\<bar>\<bar>big\<bar> - 1\<bar> = \<bar>big\<bar> - 1" using less by simp
    then have "length (varint_pack big) = blen (nat (\<bar>big\<bar> - 1)) div 8 + 1"
      by (simp add: varint_pack_neg(2) [OF less] bit_length_def nat_div_distrib)
    moreover have "0 < length bs" using ne by simp
    ultimately show ?thesis by presburger
  next
    case equal
    with ne show ?thesis by (cases bs) (auto simp: varint_pack_def)
  next
    case greater
    note pos = varint_pack_pos [OF greater]
    let ?D = "rev (varint_digits big [])"
    have "length ?D \<le> length bs"
      using range greater by (simp add: varint_digits_length_le)
    moreover have "length ?D < length bs" if "\<not> 2 * big < 256 ^ length ?D"
    proof -
      from that range have "(256::int) ^ length ?D < 256 ^ length bs" by linarith
      then show ?thesis by (simp add: power_strict_increasing_iff)
    qed
    ultimately show ?thesis using pos(1) by auto
  qed
qed

text \<open>
  C29: \<open>varint_unpack(varint_pack(n)) == n\<close> for every Python integer, however large, and the
  packed form is the shortest byte string that unpacks to \<open>n\<close>.
\<close>

theorem varint_pack_correct:
  "varint_unpack (varint_pack big) = Inr big
     \<and> (\<forall>bs. varint_unpack bs = Inr big \<longrightarrow> length (varint_pack big) \<le> length bs)"
  by (auto simp: varint_unpack_pack varint_pack_shortest)

theorem varint_pack_correct_witness:
  "varint_unpack [0, 0, 128] = Inr 128 \<and> length (varint_pack 128) \<le> length [0, 0, 128 :: byte]"
proof -
  have "varint_unpack [0, 0, 128] = Inr 128"
    by (simp add: varint_unpack_be_sint be_sint_def be_uint_def)
  with varint_pack_correct [of 128] show ?thesis by blast
qed

section \<open>vints: round trip and range\<close>

definition int64_range :: "int \<Rightarrow> bool" where
  "int64_range n \<longleftrightarrow> - (2 ^ 63) \<le> n \<and> n < 2 ^ 63"

lemma encode_zig_zag_in_range:
  assumes "int64_range n"
  shows "encode_zig_zag n = (if 0 \<le> n then 2 * n else 2 * (- n - 1) + 1)"
proof (cases "0 \<le> n")
  case True
  with assms have "drop_bit 63 n = 0"
    by (simp add: int64_range_def drop_bit_eq_div)
  with True show ?thesis by (simp add: encode_zig_zag_def push_bit_eq_mult)
next
  case False
  with assms have "n div 2 ^ 63 = - 1"
    by (intro int_div_pos_eq [where r = "n + 2 ^ 63"]) (auto simp: int64_range_def)
  then have "drop_bit 63 n = - 1" by (simp add: drop_bit_eq_div)
  then have "encode_zig_zag n = - push_bit 1 n - 1"
    by (simp only: encode_zig_zag_def xor_minus_one)
  with False show ?thesis by (simp add: push_bit_eq_mult)
qed

lemma decode_zig_zag_even: "decode_zig_zag (2 * n) = n"
  by (simp add: decode_zig_zag_def drop_bit_eq_div and_one_eq)

lemma decode_zig_zag_odd: "decode_zig_zag (2 * n + 1) = - n - 1"
  by (simp add: decode_zig_zag_def drop_bit_eq_div and_one_eq not_int_def)

lemma zig_zag_roundtrip: "int64_range n \<Longrightarrow> decode_zig_zag (encode_zig_zag n) = n"
  by (simp add: encode_zig_zag_in_range decode_zig_zag_even
      decode_zig_zag_odd [of "- n - 1", simplified] del: mult_minus1_right)

lemma encode_zig_zag_nonneg: "0 \<le> encode_zig_zag n"
  by (simp add: encode_zig_zag_def)

lemma div_two_power_neq:
  assumes "q \<noteq> 0" and "q \<noteq> (- 1 :: int)"
  shows "q div 2 ^ 64 \<noteq> q"
proof
  assume "q div 2 ^ 64 = q"
  then have "q * 18446744073709551616 + q mod 18446744073709551616 = q"
    using div_mult_mod_eq [of q "2 ^ 64"] by simp
  moreover have "0 \<le> q mod 18446744073709551616"
    and "q mod 18446744073709551616 < 18446744073709551616" by simp_all
  moreover have "1 \<le> q \<or> q \<le> - 2" using assms by linarith
  ultimately show False by linarith
qed

lemma encode_zig_zag_less_iff: "encode_zig_zag n < 2 ^ 64 \<longleftrightarrow> int64_range n"
proof
  assume "int64_range n"
  then show "encode_zig_zag n < 2 ^ 64"
    by (auto simp: encode_zig_zag_in_range int64_range_def)
next
  assume small: "encode_zig_zag n < 2 ^ 64"
  let ?q = "drop_bit 63 n"
  have "drop_bit 64 (push_bit 1 n) = ?q"
    by (simp add: drop_bit_eq_div push_bit_eq_mult)
  then have "drop_bit 64 (encode_zig_zag n) = ?q XOR drop_bit 64 ?q"
    by (simp only: encode_zig_zag_def drop_bit_xor)
  moreover have "drop_bit 64 (encode_zig_zag n) = 0"
    using small encode_zig_zag_nonneg [of n] by (simp add: drop_bit_eq_div)
  ultimately have "?q XOR drop_bit 64 ?q = 0" by simp
  then have "drop_bit 64 ?q = ?q" by (rule xor_eq_0_imp_eq)
  then have "?q = 0 \<or> ?q = - 1"
    using div_two_power_neq [of ?q] by (auto simp: drop_bit_eq_div)
  moreover have "?q * 2 ^ 63 + n mod 2 ^ 63 = n"
    by (simp only: drop_bit_eq_div div_mult_mod_eq)
  moreover have "0 \<le> n mod 2 ^ 63" and "n mod 2 ^ 63 < 2 ^ 63" by simp_all
  ultimately show "int64_range n" unfolding int64_range_def by auto
qed

lemma rev_be_bytes_Suc: "rev (be_bytes (Suc k) n) = word_of_int n # rev (be_bytes k (n div 256))"
  by simp

lemma vint_shift_result:
  "\<exists>j. vint_shift k nb v acc = (k + j, v div 256 ^ j, acc @ rev (be_bytes j v))
     \<and> nb - 8 * int j \<le> 8 - min (int (k + j) + 1) 8
     \<and> (\<forall>i < j. 8 - min (int (k + i) + 1) 8 < nb - 8 * int i)"
proof (induction k nb v acc rule: vint_shift.induct)
  case (1 k nb v acc)
  show ?case
  proof (cases "nb > 8 - min (int k + 1) 8")
    case True
    with 1 [OF refl True] obtain j where
      j: "vint_shift (Suc k) (nb - 8) (drop_bit 8 v) (acc @ [word_of_int (v AND 255)]) =
            (Suc k + j, drop_bit 8 v div 256 ^ j,
             (acc @ [word_of_int (v AND 255)]) @ rev (be_bytes j (drop_bit 8 v)))"
        "nb - 8 - 8 * int j \<le> 8 - min (int (Suc k + j) + 1) 8"
        "\<forall>i < j. 8 - min (int (Suc k + i) + 1) 8 < nb - 8 - 8 * int i"
      by blast
    have "\<forall>i < Suc j. 8 - min (int (k + i) + 1) 8 < nb - 8 * int i"
    proof (intro allI impI)
      fix i assume "i < Suc j"
      with j(3) True show "8 - min (int (k + i) + 1) 8 < nb - 8 * int i"
        by (cases i) force+
    qed
    with j(1,2) True show ?thesis
      by (intro exI [of _ "Suc j"])
        (simp add: vint_shift.simps [of k nb] drop_bit_eq_div word_of_int_and_255
          zdiv_zmult2_eq [symmetric])
  next
    case False
    then show ?thesis
      by (intro exI [of _ 0]) (simp add: vint_shift.simps [of k nb])
  qed
qed

lemma bit_length_le_iff: "0 \<le> v \<Longrightarrow> bit_length v \<le> int k \<longleftrightarrow> v < 2 ^ k"
  by (simp add: bit_length_def blen_le_iff nat_less_iff)

text \<open>How many extra bytes \<open>vint_shift\<close> moves out, and what is left for the first byte.\<close>

lemma vint_shift_split:
  assumes "128 \<le> v" and "v < 2 ^ 64"
  obtains k where "vint_shift 0 (bit_length v) v acc = (k, v div 256 ^ k, acc @ rev (be_bytes k v))"
    and "1 \<le> k" and "k \<le> 8" and "v div 256 ^ k < 2 ^ (7 - k)"
proof -
  from vint_shift_result [of 0 "bit_length v" v acc] obtain k where
    k: "vint_shift 0 (bit_length v) v acc = (k, v div 256 ^ k, acc @ rev (be_bytes k v))"
      "bit_length v - 8 * int k \<le> 8 - min (int k + 1) 8"
      "\<And>i. i < k \<Longrightarrow> 8 - min (int i + 1) 8 < bit_length v - 8 * int i"
    by auto
  have "\<not> bit_length v \<le> int 7"
    using assms by (subst bit_length_le_iff) auto
  with k(2) have "1 \<le> k" by (cases k) auto
  have "bit_length v \<le> int 64"
    using assms by (subst bit_length_le_iff) auto
  with k(3) [of 8] have "k \<le> 8" by (cases "8 < k") auto
  have "bit_length v \<le> int (8 * k + (7 - k))"
    using k(2) \<open>k \<le> 8\<close> by (simp add: min_def of_nat_diff split: if_splits)
  then have "v < 2 ^ (8 * k + (7 - k))"
    using assms(1) by (subst (asm) bit_length_le_iff) auto
  then have "v < 2 ^ (7 - k) * 256 ^ k"
    by (simp only: power_add two_power_8_mult mult.commute [of "256 ^ k"])
  then have "v div 256 ^ k < 2 ^ (7 - k)"
    by (intro zdiv_lessI) simp_all
  with k(1) \<open>1 \<le> k\<close> \<open>k \<le> 8\<close> that show ?thesis by blast
qed

lemma vint_shift_too_big:
  assumes "2 ^ 64 \<le> v" and "vint_shift 0 (bit_length v) v acc = (k, v', acc')"
  shows "8 < k"
proof (rule ccontr)
  assume "\<not> 8 < k"
  from vint_shift_result [of 0 "bit_length v" v acc] assms(2)
  have "bit_length v - 8 * int k \<le> 8 - min (int k + 1) 8" by auto
  with \<open>\<not> 8 < k\<close> have "bit_length v \<le> int 64" by (simp add: min_def split: if_splits)
  then show False using assms(1) by (subst (asm) bit_length_le_iff) auto
qed

lemma bit_length_eqI:
  "0 \<le> v \<Longrightarrow> 2 ^ k \<le> v \<Longrightarrow> v < 2 ^ Suc k \<Longrightarrow> bit_length v = int (Suc k)"
  using bit_length_le_iff [of v k] bit_length_le_iff [of v "Suc k"] by linarith

lemma le_8_cases: "1 \<le> k \<Longrightarrow> k \<le> (8::nat) \<Longrightarrow>
   k = 1 \<or> k = 2 \<or> k = 3 \<or> k = 4 \<or> k = 5 \<or> k = 6 \<or> k = 7 \<or> k = 8"
  by linarith

lemma vint_first_byte:
  assumes "1 \<le> k" and "k \<le> 8" and "0 \<le> h" and "h < 2 ^ (7 - k)"
  defines "F \<equiv> h + (256 - 2 ^ (8 - k))"
  shows "h OR push_bit (8 - k) (drop_bit (8 - k) 255) = F"
    and "128 \<le> F" and "F < 256"
    and "nat (8 - bit_length (NOT F AND 255)) = k"
    and "F AND drop_bit k 255 = h"
proof -
  have h: "h < 2 ^ (8 - k)"
    using assms(4) power_increasing [of "7 - k" "8 - k" "2::int"] by linarith
  have pb: "push_bit (8 - k) (drop_bit (8 - k) 255) = (256 - 2 ^ (8 - k) :: int)"
    using le_8_cases [OF assms(1,2)] by (elim disjE) simp_all
  show "h OR push_bit (8 - k) (drop_bit (8 - k) 255) = F"
    using or_push_bit_disjoint [OF assms(3) h, of "drop_bit (8 - k) 255"] by (simp only: pb F_def)
  show F: "128 \<le> F" "F < 256"
    using le_8_cases [OF assms(1,2)] assms(3,4) by (elim disjE; simp add: F_def)+
  have n: "NOT F AND 255 = 2 ^ (8 - k) - 1 - h"
  proof -
    have "NOT F AND 255 = (- F - 1) mod 256"
      by (simp only: and_255_mod not_int_def)
    also have "\<dots> = (255 - F) mod 256"
      using mod_add_self2 [of "- F - 1" 256] by (simp add: algebra_simps)
    finally show ?thesis using F by (simp add: F_def)
  qed
  show "nat (8 - bit_length (NOT F AND 255)) = k"
  proof (cases "k = 8")
    case True
    with assms(3,4) n show ?thesis by (simp add: bit_length_def blen.simps)
  next
    case False
    with assms(2) have k: "8 - k = Suc (7 - k)" by simp
    have "bit_length (2 ^ (8 - k) - 1 - h) = int (Suc (7 - k))"
      using assms(3,4) by (intro bit_length_eqI) (auto simp: k)
    with n k assms(2) False show ?thesis by simp
  qed
  have "drop_bit k 255 = (mask (8 - k) :: int)"
    using le_8_cases [OF assms(1,2)] by (elim disjE) (simp_all add: mask_eq_exp_minus_1)
  then have "F AND drop_bit k 255 = F mod 2 ^ (8 - k)"
    by (simp only: take_bit_eq_mask [symmetric] take_bit_eq_mod)
  also have "\<dots> = h mod 2 ^ (8 - k)"
  proof -
    have "(2::int) ^ (8 - k) dvd 256" using le_imp_power_dvd [of "8 - k" 8 "2::int"] by simp
    then have "(2::int) ^ (8 - k) dvd 256 - 2 ^ (8 - k)" by simp
    then show ?thesis unfolding F_def by (metis dvd_imp_mod_0 add.right_neutral mod_add_right_eq)
  qed
  finally show "F AND drop_bit k 255 = h" using assms(3) h by simp
qed

lemma vint_extra_append:
  "0 \<le> val \<Longrightarrow>
     vint_extra (length bs) val (bs @ rest) = Inr (val * 256 ^ length bs + be_uint bs, rest)"
proof (induction bs arbitrary: val)
  case Nil
  then show ?case by simp
next
  case (Cons b bs)
  have b: "uint b AND 255 = uint b" by (simp add: and_255_mod)
  have "push_bit 8 val OR uint b = push_bit 8 val + uint b"
    using or_push_bit_disjoint [of "uint b" 8 val] by (simp add: or.commute)
  then have "push_bit 8 val OR (uint b AND 255) = val * 256 + uint b"
    by (simp only: b) (simp add: push_bit_eq_mult)
  with Cons show ?case by (simp add: be_uint_Cons algebra_simps)
qed

lemma vint_one_roundtrip:
  assumes "int64_range value"
  shows "\<exists>enc. vint_pack_one value acc = Inr (acc @ rev enc)
     \<and> (\<forall>rest vals. vints_unpack_loop (enc @ rest) vals = vints_unpack_loop rest (vals @ [value]))"
proof -
  let ?v = "encode_zig_zag value"
  have v: "0 \<le> ?v" "?v < 2 ^ 64" "decode_zig_zag ?v = value"
    using assms by (simp_all only: encode_zig_zag_nonneg encode_zig_zag_less_iff zig_zag_roundtrip)
  show ?thesis
  proof (cases "?v < 128")
    case True
    then have u: "uint (word_of_int ?v :: byte) = ?v"
      using v(1) by (simp add: uint_word_of_int)
    have "vint_pack_one value acc = Inr (acc @ rev [word_of_int ?v])"
      using True v(1) by (simp add: vint_pack_one_def bytearray_append_def)
    moreover have "vints_unpack_loop ([word_of_int ?v] @ rest) vals = vints_unpack_loop rest (vals @ [value])"
      for rest vals
      using True u v(3) and_128_byte [of "word_of_int ?v"] by simp
    ultimately show ?thesis by blast
  next
    case False
    with v obtain k where k:
      "vint_shift 0 (bit_length ?v) ?v acc = (k, ?v div 256 ^ k, acc @ rev (be_bytes k ?v))"
      "1 \<le> k" "k \<le> 8" "?v div 256 ^ k < 2 ^ (7 - k)"
      by (elim vint_shift_split [rotated 2, where acc = acc]) auto
    have h: "0 \<le> ?v div 256 ^ k" using v(1) by (simp add: pos_imp_zdiv_nonneg_iff)
    define F where "F = ?v div 256 ^ k + (256 - 2 ^ (8 - k))"
    note F = vint_first_byte [OF k(2,3) h k(4), folded F_def]
    have u: "uint (word_of_int F :: byte) = F" using F(2,3) by (simp add: uint_word_of_int)
    have F128: "F AND 128 \<noteq> 0" using and_128_byte [of "word_of_int F"] u F(2) by simp
    have n8: "\<not> 8 < k" using k(3) by simp
    have "vint_pack_one value acc = bytearray_append (acc @ rev (be_bytes k ?v)) \<bar>F\<bar>"
      by (simp only: vint_pack_one_def Let_def k(1) prod.case F(1) False n8 if_False)
    then have "vint_pack_one value acc = Inr (acc @ rev (word_of_int F # be_bytes k ?v))"
      using F(2,3) by (simp add: bytearray_append_def)
    moreover have "vints_unpack_loop ((word_of_int F # be_bytes k ?v) @ rest) vals =
        vints_unpack_loop rest (vals @ [value])" for rest vals
    proof -
      have "vint_extra k (?v div 256 ^ k) (be_bytes k ?v @ rest) = Inr (?v, rest)"
        using vint_extra_append [OF h, of "be_bytes k ?v" rest]
        by (simp only: be_uint_be_bytes length_be_bytes div_mult_mod_eq)
      then show ?thesis
        by (simp only: append_Cons vints_unpack_loop.simps Let_def u F(4,5) F128 if_False
            res_bind_simps prod.case v(3))
    qed
    ultimately show ?thesis by blast
  qed
qed

lemma vint_one_out_of_range:
  assumes "\<not> int64_range value"
  shows "vint_pack_one value acc = Inl ValueError"
proof -
  have big: "2 ^ 64 \<le> encode_zig_zag value"
    using assms encode_zig_zag_less_iff [of "value"] by linarith
  obtain k v' acc' where s:
    "vint_shift 0 (bit_length (encode_zig_zag value)) (encode_zig_zag value) acc = (k, v', acc')"
    by (metis prod_cases3)
  with vint_shift_too_big [OF big s] big show ?thesis by (simp add: vint_pack_one_def)
qed

lemma vints_pack_loop_roundtrip:
  assumes "list_all int64_range ws"
  shows "\<exists>bs. vints_pack_loop ws acc = Inr (acc @ rev bs)
     \<and> (\<forall>rest vals. vints_unpack_loop (bs @ rest) vals = vints_unpack_loop rest (vals @ rev ws))"
  using assms
proof (induction ws arbitrary: acc)
  case Nil
  then show ?case by (intro exI [of _ "[]"]) simp
next
  case (Cons w ws)
  then obtain enc where enc: "vint_pack_one w acc = Inr (acc @ rev enc)"
    "\<And>rest vals. vints_unpack_loop (enc @ rest) vals = vints_unpack_loop rest (vals @ [w])"
    using vint_one_roundtrip [of w acc] by auto
  from Cons obtain bs where bs: "vints_pack_loop ws (acc @ rev enc) = Inr ((acc @ rev enc) @ rev bs)"
    "\<And>rest vals. vints_unpack_loop (bs @ rest) vals = vints_unpack_loop rest (vals @ rev ws)"
    by (metis list.pred_inject(2))
  show ?case
    by (intro exI [of _ "bs @ enc"]) (simp add: enc bs)
qed

lemma vints_pack_loop_error:
  assumes "\<not> list_all int64_range ws"
  shows "vints_pack_loop ws acc = Inl ValueError"
  using assms
proof (induction ws arbitrary: acc)
  case Nil
  then show ?case by simp
next
  case (Cons w ws)
  then show ?case
    using vint_one_roundtrip [of w acc] vint_one_out_of_range [of w acc]
    by (cases "int64_range w") auto
qed

lemma vints_pack_roundtrip_ex:
  assumes "list_all int64_range values"
  shows "\<exists>bs. vints_pack values = Inr bs \<and> vints_unpack bs = Inr values"
proof -
  from assms have "list_all int64_range (rev values)" by simp
  from vints_pack_loop_roundtrip [OF this, of "[]"] obtain bs where
    bs: "vints_pack_loop (rev values) [] = Inr (rev bs)"
    "\<And>rest vals. vints_unpack_loop (bs @ rest) vals = vints_unpack_loop rest (vals @ values)"
    by auto
  from bs(2) [of "[]" "[]"] have "vints_unpack bs = Inr values" by (simp add: vints_unpack_def)
  with bs(1) show ?thesis by (simp add: vints_pack_def)
qed

lemma vints_pack_error:
  "\<not> list_all int64_range values \<Longrightarrow> vints_pack values = Inl ValueError"
  using vints_pack_loop_error [of "rev values" "[]"] by (simp add: vints_pack_def)

interpretation vints: codec vints_pack vints_unpack "list_all int64_range"
proof
  fix vs bs
  show "list_all int64_range vs \<longleftrightarrow> (\<exists>bs. vints_pack vs = Inr bs)"
    using vints_pack_roundtrip_ex [of vs] vints_pack_error [of vs] by force
  show "vints_unpack bs = Inr vs" if "vints_pack vs = Inr bs"
    using vints_pack_roundtrip_ex [of vs] vints_pack_error [of vs] that by force
qed

interpretation varint: codec "\<lambda>n. Inr (varint_pack n)" varint_unpack "\<lambda>_. True"
  by unfold_locales (auto simp: varint_unpack_pack)

text \<open>
  C30: \<open>vints_unpack(vints_pack(vs)) == vs\<close> for every list of 64-bit signed integers, and
  \<open>vints_pack\<close> raises \<open>ValueError\<close> as soon as one element is out of that range.
\<close>

theorem vints_roundtrip_exact:
  "res_bind (vints_pack vs) vints_unpack
     = (if list_all int64_range vs then Inr vs else Inl ValueError)"
  using vints.roundtrip [of vs] vints_pack_error [of vs] by auto

end
