(* ===== verification/Murmur3.thy ===== *)
theory Murmur3
  imports Prelude
begin

unbundle bit_operations_syntax

text \<open>
  The partition-key hash, twice: \<open>_murmur3\<close> of \<open>cassandra/murmur3.py\<close>, written on
  Python's unbounded integers, and the C extension \<open>cassandra/cmurmur3.c\<close> that replaces
  it when it was compiled, written on 64-bit words. The two must agree on every key, or a client
  without the extension would route to the wrong replicas.
\<close>

section \<open>The Python implementation\<close>

definition le_sint :: "bytes \<Rightarrow> int" where
  "le_sint bs = be_sint (rev bs)"

definition body_and_tail :: "bytes \<Rightarrow> int list \<times> int list \<times> nat" where
  "body_and_tail data =
     (let l = length data; nblocks = l div 16; tail = l mod 16;
          tail_bytes = map sint (drop (l - tail) data)
      in if nblocks \<noteq> 0
         then (map (\<lambda>i. le_sint (take 8 (drop (8 * i) data))) [0..<2 * nblocks], tail_bytes, l)
         else ([], tail_bytes, l))"

definition rotl64 :: "int \<Rightarrow> nat \<Rightarrow> int" where
  "rotl64 x r = (let mask = 2 ^ r - 1 in push_bit r x OR (drop_bit (64 - r) x AND mask))"

definition fmix :: "int \<Rightarrow> int" where
  "fmix k =
     (let k = k XOR (drop_bit 33 k AND 0x7fffffff);
          k = k * 0xff51afd7ed558ccd;
          k = k XOR (drop_bit 33 k AND 0x7fffffff);
          k = k * 0xc4ceb9fe1a85ec53
      in k XOR (drop_bit 33 k AND 0x7fffffff))"

definition INT64_MAX :: int where "INT64_MAX = 2 ^ 63 - 1"
definition INT64_MIN :: int where "INT64_MIN = - INT64_MAX - 1"
definition INT64_OVF_OFFSET :: int where "INT64_OVF_OFFSET = INT64_MAX + 1"
definition INT64_OVF_DIV :: int where "INT64_OVF_DIV = 2 * INT64_OVF_OFFSET"

definition truncate_int64 :: "int \<Rightarrow> int" where
  "truncate_int64 x =
     (if \<not> (INT64_MIN \<le> x \<and> x \<le> INT64_MAX)
      then (x + INT64_OVF_OFFSET) mod INT64_OVF_DIV - INT64_OVF_OFFSET
      else x)"

definition murmur3_c1 :: int where "murmur3_c1 = - 8663945395140668459"
definition murmur3_c2 :: int where "murmur3_c2 = 0x4cf5ad432745937f"

text \<open>The loop over the body, two 64-bit integers at a time.\<close>

definition murmur3_round :: "int \<times> int \<Rightarrow> int \<Rightarrow> int \<Rightarrow> int \<times> int" where
  "murmur3_round h k1 k2 =
     (let (h1, h2) = h;
          k1 = k1 * murmur3_c1;
          k1 = rotl64 k1 31;
          k1 = k1 * murmur3_c2;
          h1 = h1 XOR k1;
          h1 = rotl64 h1 27;
          h1 = h1 + h2;
          h1 = h1 * 5 + 0x52dce729;
          k2 = k2 * murmur3_c2;
          k2 = rotl64 k2 33;
          k2 = k2 * murmur3_c1;
          h2 = h2 XOR k2;
          h2 = rotl64 h2 31;
          h2 = h2 + h1;
          h2 = h2 * 5 + 0x38495ab5
      in (h1, h2))"

fun murmur3_body :: "int list \<Rightarrow> int \<times> int \<Rightarrow> int \<times> int" where
  "murmur3_body (k1 # k2 # ks) h = murmur3_body ks (murmur3_round h k1 k2)"
| "murmur3_body _ h = h"

definition murmur3_py :: "bytes \<Rightarrow> int" where
  "murmur3_py data =
     (let (body, tail, total_len) = body_and_tail data;
          (h1, h2) = murmur3_body body (0, 0);
          len_tail = length tail;
          h2 =
            (if len_tail > 8
             then
               (let k2 = foldl (\<lambda>k2 i. k2 XOR push_bit ((i - 8) * 8) (tail ! i)) 0
                           (rev [8..<len_tail])
                in h2 XOR rotl64 (k2 * murmur3_c2) 33 * murmur3_c1)
             else h2);
          h1 =
            (if len_tail \<noteq> 0
             then
               (let k1 = foldl (\<lambda>k1 i. k1 XOR push_bit (i * 8) (tail ! i)) 0
                           (rev [0..<min 7 (len_tail - 1) + 1])
                in h1 XOR rotl64 (k1 * murmur3_c1) 31 * murmur3_c2)
             else h1);
          h1 = h1 XOR int total_len;
          h2 = h2 XOR int total_len;
          h1 = h1 + h2;
          h2 = h2 + h1;
          h1 = fmix h1;
          h2 = fmix h2;
          h1 = h1 + h2
      in truncate_int64 h1)"

section \<open>The C implementation\<close>

type_synonym int64_t = "64 word"

definition c_rotl64 :: "int64_t \<Rightarrow> nat \<Rightarrow> int64_t" where
  "c_rotl64 x r = push_bit r x OR drop_bit (64 - r) x"

definition c_fmix :: "int64_t \<Rightarrow> int64_t" where
  "c_fmix k =
     (let k = k XOR drop_bit 33 k;
          k = k * 0xff51afd7ed558ccd;
          k = k XOR drop_bit 33 k;
          k = k * 0xc4ceb9fe1a85ec53
      in k XOR drop_bit 33 k)"

text \<open>\<open>getblock\<close> reads the i-th 64-bit integer of a little-endian machine.\<close>

definition c_getblock :: "bytes \<Rightarrow> nat \<Rightarrow> int64_t" where
  "c_getblock data i = word_of_int (be_uint (rev (take 8 (drop (8 * i) data))))"

definition c_c1 :: int64_t where "c_c1 = 0x87c37b91114253d5"
definition c_c2 :: int64_t where "c_c2 = 0x4cf5ad432745937f"

definition c_block_step :: "bytes \<Rightarrow> int64_t \<times> int64_t \<Rightarrow> nat \<Rightarrow> int64_t \<times> int64_t" where
  "c_block_step data h i =
     (let (h1, h2) = h;
          k1 = c_getblock data (i * 2 + 0);
          k2 = c_getblock data (i * 2 + 1);
          k1 = k1 * c_c1; k1 = c_rotl64 k1 31; k1 = k1 * c_c2; h1 = h1 XOR k1;
          h1 = c_rotl64 h1 27; h1 = h1 + h2; h1 = h1 * 5 + 0x52dce729;
          k2 = k2 * c_c2; k2 = c_rotl64 k2 33; k2 = k2 * c_c1; h2 = h2 XOR k2;
          h2 = c_rotl64 h2 31; h2 = h2 + h1; h2 = h2 * 5 + 0x38495ab5
      in (h1, h2))"

text \<open>
  The \<open>switch\<close> on \<open>len & 15\<close> falls through from case \<open>n\<close> down to case 1: it
  xors \<open>tail[n-1]\<close> down to \<open>tail[8]\<close> into \<open>k2\<close> and \<open>tail[min(n,8)-1]\<close>
  down to \<open>tail[0]\<close> into \<open>k1\<close>, each byte sign-extended to 64 bits.
\<close>

definition c_tail_k2 :: "bytes \<Rightarrow> nat \<Rightarrow> int64_t" where
  "c_tail_k2 tail n =
     foldl (\<lambda>k2 i. k2 XOR push_bit ((i - 8) * 8) (word_of_int (sint (tail ! i)))) 0 (rev [8..<n])"

definition c_tail_k1 :: "bytes \<Rightarrow> nat \<Rightarrow> int64_t" where
  "c_tail_k1 tail n =
     foldl (\<lambda>k1 i. k1 XOR push_bit (i * 8) (word_of_int (sint (tail ! i)))) 0 (rev [0..<min 8 n])"

definition c_MurmurHash3_x64_128 :: "bytes \<Rightarrow> int \<Rightarrow> 32 word \<Rightarrow> int64_t" where
  "c_MurmurHash3_x64_128 data len seed =
     (let nblocks = nat (len div 16);
          tail = drop (nblocks * 16) data;
          (h1, h2) = foldl (c_block_step data) (ucast seed, ucast seed) [0..<nblocks];
          n = nat (len AND 15);
          h2 = (if n \<ge> 9 then h2 XOR c_rotl64 (c_tail_k2 tail n * c_c2) 33 * c_c1 else h2);
          h1 = (if n \<ge> 1 then h1 XOR c_rotl64 (c_tail_k1 tail n * c_c1) 31 * c_c2 else h1);
          h1 = h1 XOR word_of_int len;
          h2 = h2 XOR word_of_int len;
          h1 = h1 + h2;
          h2 = h2 + h1;
          h1 = c_fmix h1;
          h2 = c_fmix h2
      in h1 + h2)"

text \<open>
  The Python wrapper: the length, a \<open>Py_ssize_t\<close>, is passed on as a 32-bit \<open>int\<close>, the
  seed defaults to 0, and the result is read back as a signed integer.
\<close>

definition c_murmur3 :: "bytes \<Rightarrow> int" where
  "c_murmur3 key =
     sint (c_MurmurHash3_x64_128 key (sint (word_of_int (int (length key)) :: 32 word)) 0)"

section \<open>Both implementations agree\<close>

text \<open>Reduction modulo \<open>2 ^ 64\<close> commutes with every operation of the hash.\<close>

abbreviation W :: "int \<Rightarrow> int64_t" where "W \<equiv> word_of_int"

lemma W_xor: "W (a XOR b) = W a XOR W b"
  by (rule bit_word_eqI) (simp add: bit_simps)

lemma W_push_bit: "W (push_bit n a) = push_bit n (W a)"
  by (rule bit_word_eqI) (auto simp: bit_simps)

lemma W_rotl64: "0 < r \<Longrightarrow> r < 64 \<Longrightarrow> W (rotl64 x r) = c_rotl64 (W x) r"
  unfolding rotl64_def c_rotl64_def Let_def mask_eq_exp_minus_1 [symmetric]
  by (rule bit_word_eqI) (auto simp: bit_simps)

lemma W_shift33: "W (k XOR (drop_bit 33 k AND 0x7fffffff)) = W k XOR drop_bit 33 (W k)"
proof -
  have m: "(0x7fffffff :: int) = mask 31" by (simp add: mask_eq_exp_minus_1)
  show ?thesis
    unfolding m by (rule bit_word_eqI) (auto simp: bit_simps)
qed

lemma W_fmix: "W (fmix k) = c_fmix (W k)"
  by (simp add: fmix_def c_fmix_def Let_def W_shift33)

lemma W_consts: "W murmur3_c1 = c_c1" "W murmur3_c2 = c_c2"
  by (simp_all add: murmur3_c1_def murmur3_c2_def c_c1_def c_c2_def)

lemma truncate_int64_W: "truncate_int64 x = sint (W x)"
proof -
  have s: "sint (W x) = (x + 2 ^ 63) mod 2 ^ 64 - 2 ^ 63"
    by (simp add: signed_of_int signed_take_bit_eq_take_bit_shift take_bit_eq_mod)
  have "(x + 2 ^ 63) mod 2 ^ 64 = x + 2 ^ 63" if "- (2 ^ 63) \<le> x" "x < 2 ^ 63"
    using that by (intro mod_pos_pos_trivial) auto
  then show ?thesis
    unfolding s by (auto simp: truncate_int64_def INT64_MIN_def INT64_MAX_def
        INT64_OVF_OFFSET_def INT64_OVF_DIV_def)
qed

lemma W_le_sint: "length bs = 8 \<Longrightarrow> W (le_sint bs) = word_of_int (be_uint (rev bs))"
  by (simp add: le_sint_def be_sint_def Let_def)

abbreviation W2 :: "int \<times> int \<Rightarrow> int64_t \<times> int64_t" where
  "W2 h \<equiv> map_prod W W h"

definition blocks_of :: "bytes \<Rightarrow> nat list \<Rightarrow> int list" where
  "blocks_of data is =
     concat (map (\<lambda>i. [le_sint (take 8 (drop (8 * (i * 2)) data)),
                        le_sint (take 8 (drop (8 * (i * 2 + 1)) data))]) is)"

lemma blocks_of_upt:
  "map (\<lambda>i. le_sint (take 8 (drop (8 * i) data))) [0..<2 * n] = blocks_of data [0..<n]"
  by (induction n) (simp_all add: blocks_of_def)

lemma W_round:
  assumes "8 * (i * 2 + 1) + 8 \<le> length data"
  shows "W2 (murmur3_round h (le_sint (take 8 (drop (8 * (i * 2)) data)))
                             (le_sint (take 8 (drop (8 * (i * 2 + 1)) data)))) =
         c_block_step data (W2 h) i"
proof -
  have "W (le_sint (take 8 (drop (8 * (i * 2)) data))) = c_getblock data (i * 2 + 0)"
    "W (le_sint (take 8 (drop (8 * (i * 2 + 1)) data))) = c_getblock data (i * 2 + 1)"
    using assms by (simp_all add: W_le_sint c_getblock_def)
  then show ?thesis
    by (cases h) (simp add: murmur3_round_def c_block_step_def Let_def W_xor W_rotl64 W_consts)
qed

lemma W_body:
  assumes "\<forall>i \<in> set is. 8 * (i * 2 + 1) + 8 \<le> length data"
  shows "W2 (murmur3_body (blocks_of data is) h) = foldl (c_block_step data) (W2 h) is"
  using assms
proof (induction "is" arbitrary: h)
  case Nil
  then show ?case by (simp add: blocks_of_def)
next
  case (Cons i "is")
  then have "8 * (i * 2 + 1) + 8 \<le> length data" by simp
  from W_round [OF this, of h] Cons show ?case
    by (simp add: blocks_of_def)
qed

lemma W_foldl_xor:
  assumes "\<And>i. i \<in> set is \<Longrightarrow> W (f i) = g i"
  shows "W (foldl (\<lambda>k i. k XOR f i) a is) = foldl (\<lambda>k i. k XOR g i) (W a) is"
  using assms by (induction "is" arbitrary: a) (simp_all add: W_xor)

lemma length_murmur3_tail: "length (drop (length data div 16 * 16) data) = length data mod 16"
  by (simp add: minus_div_mult_eq_mod)

lemma body_and_tail_blocks:
  "body_and_tail data =
     (blocks_of data [0..<length data div 16], map sint (drop (length data div 16 * 16) data),
      length data)"
  by (simp add: body_and_tail_def Let_def blocks_of_upt minus_mod_eq_div_mult)
    (simp add: blocks_of_def)

lemma W_tail_k2:
  "W (foldl (\<lambda>k2 i. k2 XOR push_bit ((i - 8) * 8) (map sint tail ! i)) 0 (rev [8..<length tail]))
     = c_tail_k2 tail (length tail)"
  unfolding c_tail_k2_def
  by (subst W_foldl_xor [where g = "\<lambda>i. push_bit ((i - 8) * 8) (W (sint (tail ! i)))"])
    (simp_all add: W_push_bit)

lemma W_tail_k1:
  assumes "tail \<noteq> []"
  shows "W (foldl (\<lambda>k1 i. k1 XOR push_bit (i * 8) (map sint tail ! i)) 0
           (rev [0..<min 7 (length tail - 1) + 1])) = c_tail_k1 tail (length tail)"
proof -
  from assms have m: "min 7 (length tail - 1) + 1 = min 8 (length tail)" by (cases tail) auto
  show ?thesis
    unfolding c_tail_k1_def m
    by (subst W_foldl_xor [where g = "\<lambda>i. push_bit (i * 8) (W (sint (tail ! i)))"])
      (simp_all add: W_push_bit)
qed

lemma c_len:
  assumes "length data < 2 ^ 31"
  shows "sint (word_of_int (int (length data)) :: 32 word) = int (length data)"
    and "nat (int (length data) div 16) = length data div 16"
    and "nat (int (length data) AND 15) = length data mod 16"
proof -
  show "sint (word_of_int (int (length data)) :: 32 word) = int (length data)"
    using assms by (simp add: signed_of_nat signed_take_bit_int_eq_self)
  have "int (length data) AND 15 = int (length data) mod 16"
    using take_bit_eq_mask [of 4 "int (length data)"]
    by (simp add: take_bit_eq_mod mask_eq_exp_minus_1)
  then show "nat (int (length data) div 16) = length data div 16"
    "nat (int (length data) AND 15) = length data mod 16"
    by (simp_all add: nat_div_distrib nat_mod_distrib)
qed

text \<open>
  C9: the pure Python hash and the C extension give the same token for every key, for all keys
  short enough for the C \<open>int\<close> that holds the length.
\<close>

theorem murmur3_py_eq_c:
  assumes "length data < 2 ^ 31"
  shows "murmur3_py data = c_murmur3 data"
proof -
  let ?l = "length data" and ?n = "length data div 16" and ?t = "length data mod 16"
  let ?tail = "drop (?n * 16) data"
  obtain h1 h2 where h: "murmur3_body (blocks_of data [0..<?n]) (0, 0) = (h1, h2)"
    by fastforce
  have "\<forall>i \<in> set [0..<?n]. 8 * (i * 2 + 1) + 8 \<le> ?l" by auto
  from W_body [OF this, of "(0, 0)"] h
  have hw: "foldl (c_block_step data) (0, 0) [0..<?n] = (W h1, W h2)" by simp
  have gt: "9 \<le> ?t \<longleftrightarrow> 8 < ?t" "1 \<le> ?t \<longleftrightarrow> ?t \<noteq> 0" by auto
  note lt = length_murmur3_tail [of data]
  define K2 where
    "K2 = foldl (\<lambda>k2 i. k2 XOR push_bit ((i - 8) * 8) (map sint ?tail ! i)) 0 (rev [8..<?t])"
  define K1 where
    "K1 = foldl (\<lambda>k1 i. k1 XOR push_bit (i * 8) (map sint ?tail ! i)) 0
            (rev [0..<min 7 (?t - 1) + 1])"
  define H2 where "H2 = (if 8 < ?t then h2 XOR rotl64 (K2 * murmur3_c2) 33 * murmur3_c1 else h2)"
  define H1 where "H1 = (if ?t \<noteq> 0 then h1 XOR rotl64 (K1 * murmur3_c1) 31 * murmur3_c2 else h1)"
  have py: "murmur3_py data = truncate_int64
      (fmix ((H1 XOR int ?l) + (H2 XOR int ?l)) +
       fmix ((H2 XOR int ?l) + ((H1 XOR int ?l) + (H2 XOR int ?l))))"
    by (simp only: murmur3_py_def body_and_tail_blocks Let_def prod.case h length_map lt
        K1_def K2_def H1_def H2_def)
  have "?t \<noteq> 0 \<Longrightarrow> ?tail \<noteq> []" using lt by fastforce
  then have "W H1 = (if ?t \<noteq> 0 then W h1 XOR c_rotl64 (c_tail_k1 ?tail ?t * c_c1) 31 * c_c2 else W h1)"
    "W H2 = (if 8 < ?t then W h2 XOR c_rotl64 (c_tail_k2 ?tail ?t * c_c2) 33 * c_c1 else W h2)"
    using W_tail_k1 [of ?tail, unfolded lt] W_tail_k2 [of ?tail, unfolded lt]
    by (simp_all add: H1_def H2_def K1_def K2_def W_xor W_rotl64 W_consts)
  then have "c_murmur3 data = sint
      (c_fmix ((W H1 XOR W (int ?l)) + (W H2 XOR W (int ?l))) +
       c_fmix ((W H2 XOR W (int ?l)) + ((W H1 XOR W (int ?l)) + (W H2 XOR W (int ?l)))))"
    by (simp only: c_murmur3_def c_MurmurHash3_x64_128_def c_len [OF assms] Let_def unsigned_0
        hw prod.case gt)
  also have "\<dots> = murmur3_py data"
    by (simp only: py truncate_int64_W of_int_add W_fmix W_xor)
  finally show ?thesis by simp
qed

theorem murmur3_py_eq_c_witness:
  "length [0x31, 0x32, 0x33 :: byte] < 2 ^ 31
     \<and> murmur3_py [0x31, 0x32, 0x33] = c_murmur3 [0x31, 0x32, 0x33]"
  using murmur3_py_eq_c [of "[0x31, 0x32, 0x33]"] by simp

end
