(* ===== verification/Timestamps.thy ===== *)
theory Timestamps
  imports Prelude Complex_Main
begin

text \<open>
  \<open>MonotonicTimestampGenerator\<close> of \<open>cassandra/timestamps.py\<close>. The generator object is a
  record; a call takes the value of \<open>int(time.time() * 1e6)\<close> as its argument, since the clock
  is outside the program. The lock makes a call atomic, so the calls of all threads are one
  sequence. The log is the list of warnings issued, newest first, each with the three numbers
  of its message.
\<close>

section \<open>The generator\<close>

record MonotonicTimestampGenerator =
  last_ts :: int
  last_warn :: int
  warn_on_drift :: bool
  warning_threshold :: rat
  warning_interval :: rat
  warnings :: "(int \<times> int \<times> int) list"

definition generator_init :: "bool \<Rightarrow> rat \<Rightarrow> rat \<Rightarrow> MonotonicTimestampGenerator" where
  "generator_init on threshold interval =
     \<lparr>last_ts = 0, last_warn = 0, warn_on_drift = on, warning_threshold = threshold,
      warning_interval = interval, warnings = []\<rparr>"

definition maybe_warn ::
    "int \<Rightarrow> MonotonicTimestampGenerator \<Rightarrow> MonotonicTimestampGenerator" where
  "maybe_warn now g =
     (let diff = last_ts g - now;
          since_last_warn = now - last_warn g;
          warn = warn_on_drift g \<and> of_int diff \<ge> warning_threshold g * 1000000
                   \<and> of_int since_last_warn \<ge> warning_interval g * 1000000
      in if warn
         then g\<lparr>last_warn := now, warnings := (now, diff, last_ts g) # warnings g\<rparr>
         else g)"

definition next_timestamp ::
    "int \<Rightarrow> int \<Rightarrow> MonotonicTimestampGenerator \<Rightarrow> int \<times> MonotonicTimestampGenerator" where
  "next_timestamp now lst g =
     (if now > lst then (now, g\<lparr>last_ts := now\<rparr>)
      else let g' = maybe_warn now g in (lst + 1, g'\<lparr>last_ts := lst + 1\<rparr>))"

definition generator_call ::
    "int \<Rightarrow> MonotonicTimestampGenerator \<Rightarrow> int \<times> MonotonicTimestampGenerator" where
  "generator_call now g = next_timestamp now (last_ts g) g"

text \<open>A sequence of calls, one for each reading of the clock.\<close>

fun generator_calls ::
    "int list \<Rightarrow> MonotonicTimestampGenerator \<Rightarrow> int list \<times> MonotonicTimestampGenerator" where
  "generator_calls [] g = ([], g)"
| "generator_calls (now # nows) g =
     (let (t, g') = generator_call now g; (ts, g'') = generator_calls nows g' in (t # ts, g''))"

section \<open>Monotonicity and drift\<close>

lemma maybe_warn_frame [simp]:
  "last_ts (maybe_warn now g) = last_ts g"
  "warn_on_drift (maybe_warn now g) = warn_on_drift g"
  "warning_threshold (maybe_warn now g) = warning_threshold g"
  "warning_interval (maybe_warn now g) = warning_interval g"
  by (simp_all add: maybe_warn_def Let_def)

lemma generator_call_value:
  "fst (generator_call now g) = max now (last_ts g + 1)"
  "last_ts (snd (generator_call now g)) = max now (last_ts g + 1)"
  by (simp_all add: generator_call_def next_timestamp_def Let_def max_def)

text \<open>What a run of calls returns: a left fold that needs only the last value returned.\<close>

fun drift :: "int \<Rightarrow> int list \<Rightarrow> int list" where
  "drift lst [] = []"
| "drift lst (now # nows) = (let t = max now (lst + 1) in t # drift t nows)"

lemma generator_calls_drift: "fst (generator_calls nows g) = drift (last_ts g) nows"
proof (induction nows arbitrary: g)
  case (Cons now nows)
  show ?case
    using Cons [of "snd (generator_call now g)"] generator_call_value [of now g]
    by (simp add: Let_def split_beta)
qed simp

lemma length_drift [simp]: "length (drift lst nows) = length nows"
  by (induction nows arbitrary: lst) (simp_all add: Let_def)

lemma drift_greater: "t \<in> set (drift lst nows) \<Longrightarrow> lst < t"
proof (induction nows arbitrary: lst)
  case (Cons now nows)
  then consider "t = max now (lst + 1)" | "t \<in> set (drift (max now (lst + 1)) nows)"
    by (auto simp: Let_def)
  then show ?case using Cons.IH [of "max now (lst + 1)"] by cases auto
qed simp

lemma drift_sorted: "sorted_wrt (<) (drift lst nows)"
  by (induction nows arbitrary: lst) (auto simp: Let_def dest: drift_greater)

text \<open>The closed form: the latest reading, each aged by the calls made since.\<close>

lemma drift_nth:
  "i < length nows \<Longrightarrow>
     drift lst nows ! i
       = Max (insert (lst + 1 + int i) ((\<lambda>j. nows ! j + int (i - j)) ` {..i}))"
proof (induction nows arbitrary: lst i)
  case (Cons now nows)
  show ?case
  proof (cases i)
    case 0
    have "{..0::nat} = {0}" by auto
    then show ?thesis using 0 by (simp add: Let_def max.commute)
  next
    case (Suc k)
    let ?f = "\<lambda>j. (now # nows) ! j + int (Suc k - j)"
    let ?A = "(\<lambda>j. nows ! j + int (k - j)) ` {..k}"
    have A: "?f ` {..Suc k} = insert (now + 1 + int k) ?A"
      by (simp add: atMost_Suc_eq_insert_0 image_image add_ac)
    have "drift lst (now # nows) ! i = Max (insert (max now (lst + 1) + 1 + int k) ?A)"
      using Cons.IH [of k "max now (lst + 1)"] Cons.prems Suc by (simp add: Let_def)
    also have "\<dots> = max (max (now + 1 + int k) (lst + 1 + 1 + int k)) (Max ?A)"
      by (simp add: max_def)
    also have "\<dots> = Max (insert (lst + 1 + int i) (insert (now + 1 + int k) ?A))"
      using Suc by (simp add: max.left_commute max.assoc add_ac)
    finally show ?thesis using A Suc by simp
  qed
qed simp

text \<open>
  C16: whatever the clock does, the timestamps of any sequence of calls are strictly increasing,
  all above the last timestamp returned before, and none is behind its clock reading.
\<close>

theorem timestamps_monotonic:
  "sorted_wrt (<) (fst (generator_calls nows g))
     \<and> list_all (\<lambda>t. last_ts g < t) (fst (generator_calls nows g))
     \<and> list_all2 (\<le>) nows (fst (generator_calls nows g))"
proof -
  have "list_all2 (\<le>) nows (drift lst nows)" for lst
    by (induction nows arbitrary: lst) (simp_all add: Let_def)
  then show ?thesis
    by (simp add: generator_calls_drift drift_sorted list_all_iff drift_greater)
qed

text \<open>
  The exact value of each timestamp, so how far it can drift ahead of the clock: the
  \<open>i\<close>-th one is the greatest of the earlier readings, each advanced by one for each call made
  since, and of the previous timestamp advanced in the same way.
\<close>

theorem timestamps_drift:
  "i < length nows \<Longrightarrow>
     fst (generator_calls nows g) ! i
       = Max (insert (last_ts g + 1 + int i) ((\<lambda>j. nows ! j + int (i - j)) ` {..i}))"
  by (simp add: generator_calls_drift drift_nth)

theorem timestamps_drift_witness:
  "fst (generator_calls [100, 7, 7] (generator_init True 1 1)) ! 2 = 102"
proof -
  have "{..2::nat} = {0, 1, 2}" by auto
  then have "Max (insert 3 ((\<lambda>j. [100, 7, 7] ! j + int (2 - j)) ` {..2})) = 102" by simp
  moreover have "last_ts (generator_init True 1 1) = 0" by (simp add: generator_init_def)
  ultimately show ?thesis
    using timestamps_drift [of 2 "[100, 7, 7]" "generator_init True 1 1"] by simp
qed

section \<open>Warnings\<close>

text \<open>
  The rate limit of the warnings, as an invariant: each warning is at least
  \<open>warning_interval\<close> after the one before it, and reports a drift of at least
  \<open>warning_threshold\<close>.
\<close>

fun spaced :: "rat \<Rightarrow> int list \<Rightarrow> bool" where
  "spaced gap (t # t' # ts) \<longleftrightarrow> gap \<le> of_int (t - t') \<and> spaced gap (t' # ts)"
| "spaced gap _ \<longleftrightarrow> True"

definition warnings_ok :: "MonotonicTimestampGenerator \<Rightarrow> bool" where
  "warnings_ok g \<longleftrightarrow>
     spaced (warning_interval g * 1000000) (map fst (warnings g) @ [0])
     \<and> last_warn g = hd (map fst (warnings g) @ [0])
     \<and> list_all (\<lambda>(now, diff, lst). diff = lst - now
                    \<and> warning_threshold g * 1000000 \<le> of_int diff) (warnings g)
     \<and> (warnings g \<noteq> [] \<longrightarrow> warn_on_drift g)"

lemma spaced_Cons: "spaced gap (t # ts @ [z]) \<longleftrightarrow> gap \<le> of_int (t - hd (ts @ [z])) \<and> spaced gap (ts @ [z])"
  by (cases ts) simp_all

lemma maybe_warn_ok: "warnings_ok g \<Longrightarrow> warnings_ok (maybe_warn now g)"
  by (auto simp: warnings_ok_def maybe_warn_def Let_def spaced_Cons)

lemma generator_call_ok: "warnings_ok g \<Longrightarrow> warnings_ok (snd (generator_call now g))"
  using maybe_warn_ok [of g now]
  by (simp add: generator_call_def next_timestamp_def Let_def) (simp add: warnings_ok_def)

lemma generator_calls_ok: "warnings_ok g \<Longrightarrow> warnings_ok (snd (generator_calls nows g))"
  by (induction nows arbitrary: g)
    (auto simp: Let_def split: prod.splits dest: generator_call_ok, metis generator_call_ok snd_conv)

text \<open>
  C33: from a fresh generator on, every warning is at least \<open>warning_interval\<close> seconds of
  clock time after the one before, is issued only for a drift of at least
  \<open>warning_threshold\<close> seconds, and only when \<open>warn_on_drift\<close> is set.
\<close>

theorem warnings_rate_limited:
  "warnings_ok (snd (generator_calls nows (generator_init on threshold interval)))"
  by (rule generator_calls_ok) (simp add: warnings_ok_def generator_init_def)

end
