(* ===== verification/Utf8.thy ===== *)
theory Utf8
  imports Marshal
begin

text \<open>
  Text as Python has it: a list of code points, with the strict \<open>utf8\<close> codec that
  \<open>str.encode\<close> and \<open>bytes.decode\<close> use. Lone surrogates cannot be encoded, and a byte
  string that is overlong, truncated, out of range or a surrogate is refused by the decoder.
\<close>

type_synonym ptext = "nat list"

definition text_of :: "string \<Rightarrow> ptext" where
  "text_of = map of_char"

section \<open>The codec\<close>

definition scalar :: "nat \<Rightarrow> bool" where
  "scalar c \<longleftrightarrow> c < 0xD800 \<or> (0xDFFF < c \<and> c < 0x110000)"

definition byte_of :: "nat \<Rightarrow> byte" where
  "byte_of n = word_of_nat n"

definition utf8_char :: "nat \<Rightarrow> bytes" where
  "utf8_char c =
     (if c < 0x80 then [byte_of c]
      else if c < 0x800 then [byte_of (0xC0 + c div 64), byte_of (0x80 + c mod 64)]
      else if c < 0x10000
      then [byte_of (0xE0 + c div 4096), byte_of (0x80 + c div 64 mod 64),
            byte_of (0x80 + c mod 64)]
      else [byte_of (0xF0 + c div 262144), byte_of (0x80 + c div 4096 mod 64),
            byte_of (0x80 + c div 64 mod 64), byte_of (0x80 + c mod 64)])"

fun utf8_encode :: "ptext \<Rightarrow> bytes res" where
  "utf8_encode [] = Inr []"
| "utf8_encode (c # cs) =
     (if scalar c then res_bind (utf8_encode cs) (\<lambda>bs. Inr (utf8_char c @ bs))
      else Inl UnicodeEncodeError)"

text \<open>A continuation byte, \<open>10xxxxxx\<close>.\<close>

definition cont :: "byte \<Rightarrow> bool" where
  "cont b \<longleftrightarrow> 0x80 \<le> unat b \<and> unat b < 0xC0"

definition low6 :: "byte \<Rightarrow> nat" where
  "low6 b = unat b - 0x80"

text \<open>One code point from the front of a byte string.\<close>

fun utf8_next :: "bytes \<Rightarrow> (nat \<times> bytes) res" where
  "utf8_next [] = Inl UnicodeDecodeError"
| "utf8_next (a # bs) =
     (if unat a < 0x80 then Inr (unat a, bs)
      else if unat a < 0xC0 then Inl UnicodeDecodeError
      else if unat a < 0xE0 then
        (case bs of
           b # r \<Rightarrow>
             let c = (unat a - 0xC0) * 64 + low6 b
             in if cont b \<and> 0x80 \<le> c then Inr (c, r) else Inl UnicodeDecodeError
         | _ \<Rightarrow> Inl UnicodeDecodeError)
      else if unat a < 0xF0 then
        (case bs of
           b # b' # r \<Rightarrow>
             let c = (unat a - 0xE0) * 4096 + low6 b * 64 + low6 b'
             in if cont b \<and> cont b' \<and> 0x800 \<le> c \<and> scalar c then Inr (c, r)
                else Inl UnicodeDecodeError
         | _ \<Rightarrow> Inl UnicodeDecodeError)
      else if unat a < 0xF8 then
        (case bs of
           b # b' # b'' # r \<Rightarrow>
             let c = (unat a - 0xF0) * 262144 + low6 b * 4096 + low6 b' * 64 + low6 b''
             in if cont b \<and> cont b' \<and> cont b'' \<and> 0x10000 \<le> c \<and> scalar c then Inr (c, r)
                else Inl UnicodeDecodeError
         | _ \<Rightarrow> Inl UnicodeDecodeError)
      else Inl UnicodeDecodeError)"

lemma utf8_next_shorter: "utf8_next bs = Inr (c, r) \<Longrightarrow> length r < length bs"
  by (cases bs) (auto simp: Let_def split: if_splits list.splits)

function utf8_decode :: "bytes \<Rightarrow> ptext res" where
  "utf8_decode bs =
     (if bs = [] then Inr []
      else res_bind (utf8_next bs) (\<lambda>(c, r). res_bind (utf8_decode r) (\<lambda>cs. Inr (c # cs))))"
  by auto
termination
  by (relation "measure length") (auto dest: utf8_next_shorter)

declare utf8_decode.simps [simp del]

section \<open>Round trips\<close>

lemma unat_byte_of: "n < 256 \<Longrightarrow> unat (byte_of n) = n"
  by (simp add: byte_of_def unat_of_nat)

lemma div_mod_64: "(c::nat) div 64 * 64 + c mod 64 = c"
  "c div 4096 * 4096 + c div 64 mod 64 * 64 + c mod 64 = c"
  "c div 262144 * 262144 + c div 4096 mod 64 * 4096 + c div 64 mod 64 * 64 + c mod 64 = c"
proof -
  show a: "c div 64 * 64 + c mod 64 = c" by simp
  have b: "c div 64 div 64 = c div 4096" by (simp add: div_mult2_eq [symmetric])
  have d: "c div 4096 div 64 = c div 262144" by (simp add: div_mult2_eq [symmetric])
  have b': "c div 4096 * 64 + c div 64 mod 64 = c div 64"
    using div_mult_mod_eq [of "c div 64" 64] b by simp
  have d': "c div 262144 * 64 + c div 4096 mod 64 = c div 4096"
    using div_mult_mod_eq [of "c div 4096" 64] d by simp
  show "c div 4096 * 4096 + c div 64 mod 64 * 64 + c mod 64 = c" using a b' by linarith
  then show "c div 262144 * 262144 + c div 4096 mod 64 * 4096 + c div 64 mod 64 * 64 + c mod 64 = c"
    using d' by linarith
qed

lemma utf8_next_char: "scalar c \<Longrightarrow> utf8_next (utf8_char c @ bs) = Inr (c, bs)"
proof -
  assume s: "scalar c"
  then have c: "c < 0x110000" by (auto simp: scalar_def)
  have m: "c div 64 mod 64 < 64" "c div 4096 mod 64 < 64" "c mod 64 < 64" by simp_all
  consider "c < 0x80" | "0x80 \<le> c" "c < 0x800" | "0x800 \<le> c" "c < 0x10000" | "0x10000 \<le> c"
    by linarith
  then show ?thesis
  proof cases
    case 1
    then show ?thesis by (simp add: utf8_char_def unat_byte_of)
  next
    case 2
    then have "c div 64 < 32" by simp
    with 2 m show ?thesis
      by (simp add: utf8_char_def unat_byte_of cont_def low6_def Let_def)
  next
    case 3
    then have "c div 4096 < 16" by simp
    with 3 m s show ?thesis
      by (simp add: utf8_char_def unat_byte_of cont_def low6_def Let_def div_mod_64)
  next
    case 4
    then have "c div 262144 < 8" using c by simp
    with 4 m s show ?thesis
      by (simp add: utf8_char_def unat_byte_of cont_def low6_def Let_def div_mod_64)
  qed
qed

lemma utf8_char_not_Nil [simp]: "utf8_char c \<noteq> []"
  by (simp add: utf8_char_def)

lemma utf8_encode_Inr_iff: "(\<exists>bs. utf8_encode cs = Inr bs) \<longleftrightarrow> list_all scalar cs"
  by (induction cs) (auto simp: res_bind_Inr_iff)

lemma utf8_decode_encode: "utf8_encode cs = Inr bs \<Longrightarrow> utf8_decode bs = Inr cs"
proof (induction cs arbitrary: bs)
  case Nil
  then show ?case by (simp add: utf8_decode.simps)
next
  case (Cons c cs)
  then obtain ds where "scalar c" "utf8_encode cs = Inr ds" "bs = utf8_char c @ ds"
    by (auto simp: res_bind_Inr_iff split: if_splits)
  with Cons.IH show ?case by (subst utf8_decode.simps) (simp add: utf8_next_char)
qed

lemma byte_eqI: "unat a = n \<Longrightarrow> byte_of n = a"
  by (auto simp: byte_of_def)

lemma div_mod_64_I: "c = x * 64 + y \<Longrightarrow> y < (64::nat) \<Longrightarrow> c div 64 = x \<and> c mod 64 = y"
  by simp

lemma utf8_char_next:
  assumes "utf8_next bs = Inr (c, r)"
  shows "scalar c \<and> bs = utf8_char c @ r"
proof (cases bs)
  case (Cons a s)
  consider "unat a < 0x80" | "0xC0 \<le> unat a" "unat a < 0xE0" | "0xE0 \<le> unat a" "unat a < 0xF0"
    | "0xF0 \<le> unat a" "unat a < 0xF8"
    using assms Cons by (auto split: if_splits)
  then show ?thesis
  proof cases
    case 1
    with assms Cons show ?thesis by (auto simp: scalar_def utf8_char_def byte_of_def)
  next
    case 2
    with assms Cons obtain b where *: "s = b # r" "cont b" "c = (unat a - 0xC0) * 64 + low6 b" "0x80 \<le> c"
      by (auto simp: Let_def split: list.splits if_splits)
    then have "low6 b < 64" "unat b = 0x80 + low6 b" by (auto simp: cont_def low6_def)
    with 2 * have "c div 64 = unat a - 0xC0" "c mod 64 = low6 b" "c < 0x800" by auto
    with 2 * Cons \<open>unat b = _\<close> show ?thesis
      by (auto simp: scalar_def utf8_char_def intro!: byte_eqI [symmetric])
  next
    case 3
    with assms Cons obtain b b' where *: "s = b # b' # r" "cont b" "cont b'"
      "c = (unat a - 0xE0) * 4096 + low6 b * 64 + low6 b'" "0x800 \<le> c" "scalar c"
      by (auto simp: Let_def split: list.splits if_splits)
    then have l: "low6 b < 64" "unat b = 0x80 + low6 b" "low6 b' < 64" "unat b' = 0x80 + low6 b'"
      by (auto simp: cont_def low6_def)
    have "c = ((unat a - 0xE0) * 64 + low6 b) * 64 + low6 b'" using * by simp
    with l have c64: "c div 64 = (unat a - 0xE0) * 64 + low6 b" "c mod 64 = low6 b'"
      using div_mod_64_I by blast+
    then have "c div 64 div 64 = unat a - 0xE0" "c div 64 mod 64 = low6 b" using l by auto
    moreover have "c < 0x10000" using * 3 l by linarith
    ultimately show ?thesis
      using 3 * Cons l c64
      by (auto simp: utf8_char_def div_mult2_eq [symmetric] intro!: byte_eqI [symmetric])
  next
    case 4
    with assms Cons obtain b b' b'' where *: "s = b # b' # b'' # r" "cont b" "cont b'" "cont b''"
      "c = (unat a - 0xF0) * 262144 + low6 b * 4096 + low6 b' * 64 + low6 b''" "0x10000 \<le> c" "scalar c"
      by (auto simp: Let_def split: list.splits if_splits)
    then have l: "low6 b < 64" "unat b = 0x80 + low6 b" "low6 b' < 64" "unat b' = 0x80 + low6 b'"
      "low6 b'' < 64" "unat b'' = 0x80 + low6 b''"
      by (auto simp: cont_def low6_def)
    have "c = (((unat a - 0xF0) * 64 + low6 b) * 64 + low6 b') * 64 + low6 b''" using * by simp
    with l have c64: "c div 64 = ((unat a - 0xF0) * 64 + low6 b) * 64 + low6 b'" "c mod 64 = low6 b''"
      using div_mod_64_I by blast+
    then have c4096: "c div 64 div 64 = (unat a - 0xF0) * 64 + low6 b" "c div 64 mod 64 = low6 b'"
      using l div_mod_64_I by blast+
    then have "c div 64 div 64 div 64 = unat a - 0xF0" "c div 64 div 64 mod 64 = low6 b" using l by auto
    then show ?thesis
      using 4 * Cons l c64 c4096
      by (auto simp: utf8_char_def div_mult2_eq [symmetric] intro!: byte_eqI [symmetric])
  qed
qed (use assms in simp)

lemma utf8_encode_decode: "utf8_decode bs = Inr cs \<Longrightarrow> utf8_encode cs = Inr bs"
proof (induction bs arbitrary: cs rule: utf8_decode.induct)
  case (1 bs)
  show ?case
  proof (cases "bs = []")
    case True
    with 1 show ?thesis by (simp add: utf8_decode.simps)
  next
    case False
    with 1(2) obtain c r cs' where *: "utf8_next bs = Inr (c, r)" "utf8_decode r = Inr cs'" "cs = c # cs'"
      by (subst (asm) utf8_decode.simps) (auto elim!: res_bindE)
    then show ?thesis
      using 1(1) [OF False, of "(c, r)"] False utf8_char_next [OF *(1)] by simp
  qed
qed

text \<open>
  The strict codec is a bijection between encodable text and valid byte strings: decoding
  gives a text exactly when encoding that text gives the bytes back, so no overlong form, lone
  surrogate or code point above \<open>U+10FFFF\<close> is accepted.
\<close>

lemma utf8_decode_iff_encode: "utf8_decode bs = Inr cs \<longleftrightarrow> utf8_encode cs = Inr bs"
  using utf8_decode_encode utf8_encode_decode by blast

interpretation utf8: codec utf8_encode utf8_decode "list_all scalar"
  by unfold_locales (simp_all add: utf8_encode_Inr_iff utf8_decode_encode)

end
