(* ===== verification/Sorted_Set.thy ===== *)
theory Sorted_Set
  imports Prelude
begin

text \<open>
  \<open>SortedSet\<close> of \<open>cassandra/util.py\<close>, the Python value of a CQL set: a list kept sorted
  and searched with \<open>bisect_left\<close>. The elements are of a linear order, as the elements of one
  CQL set column are. The other operand of a set operation is a \<open>SortedSet\<close>, a builtin
  \<open>set\<close> (given by its elements in iteration order) or a list, since the code treats the three
  differently. The contract is that of mathematical sets.
\<close>

section \<open>The contract of a set that grows by insertion\<close>

locale set_insertion =
  fixes wf :: "'s \<Rightarrow> bool"
    and abs :: "'s \<Rightarrow> 'a set"
    and empty :: 's
    and add :: "'a \<Rightarrow> 's \<Rightarrow> 's"
  assumes empty_wf: "wf empty" and empty_abs: "abs empty = {}"
    and add_wf: "wf s \<Longrightarrow> wf (add x s)"
    and add_abs: "wf s \<Longrightarrow> abs (add x s) = insert x (abs s)"
begin

lemma fold_add: "wf s \<Longrightarrow> wf (fold add xs s) \<and> abs (fold add xs s) = set xs \<union> abs s"
  by (induction xs arbitrary: s) (auto simp: add_wf add_abs)

lemma of_list: "wf (fold add xs empty) \<and> abs (fold add xs empty) = set xs"
  using fold_add [OF empty_wf, of xs] empty_abs by simp

end

section \<open>bisect\<close>

text \<open>\<open>bisect.bisect_left(a, x, lo)\<close>, with \<open>hi\<close> starting at \<open>len(a)\<close>.\<close>

function bisect_left_loop :: "'a::linorder list \<Rightarrow> 'a \<Rightarrow> nat \<Rightarrow> nat \<Rightarrow> nat" where
  "bisect_left_loop a x lo hi =
     (if lo < hi
      then let mid = (lo + hi) div 2
           in if a ! mid < x then bisect_left_loop a x (mid + 1) hi else bisect_left_loop a x lo mid
      else lo)"
  by auto
termination
  by (relation "measure (\<lambda>(a, x, lo, hi). hi - lo)") auto

declare bisect_left_loop.simps [simp del]

definition bisect_left :: "'a::linorder list \<Rightarrow> 'a \<Rightarrow> nat \<Rightarrow> nat" where
  "bisect_left a x lo = bisect_left_loop a x lo (length a)"

text \<open>The position a binary search looks for: how many elements are below \<open>x\<close>.\<close>

definition rank :: "'a::linorder list \<Rightarrow> 'a \<Rightarrow> nat" where
  "rank a x = length (takeWhile (\<lambda>y. y < x) a)"

lemma rank_le: "rank a x \<le> length a"
  by (simp add: rank_def length_takeWhile_le)

lemma rank_less: "i < rank a x \<Longrightarrow> a ! i < x"
  by (metis rank_def nth_mem set_takeWhileD takeWhile_nth)

lemma rank_ge:
  assumes "sorted a" "rank a x \<le> i" "i < length a"
  shows "x \<le> a ! i"
proof -
  have r: "rank a x < length a" using assms by simp
  then have "\<not> a ! rank a x < x" unfolding rank_def by (rule nth_length_takeWhile)
  moreover have "a ! rank a x \<le> a ! i" using assms by (simp add: sorted_nth_mono)
  ultimately show ?thesis by simp
qed

lemma rank_unique:
  assumes "sorted a" "k \<le> length a" "\<And>i. i < k \<Longrightarrow> a ! i < x"
    "\<And>i. k \<le> i \<Longrightarrow> i < length a \<Longrightarrow> x \<le> a ! i"
  shows "rank a x = k"
proof (rule ccontr)
  assume "rank a x \<noteq> k"
  then consider "rank a x < k" | "k < rank a x" by linarith
  then show False
  proof cases
    case 1
    then show False using assms(2, 3) rank_ge [OF assms(1), of x "rank a x"]
      by (meson leD le_refl less_le_trans)
  next
    case 2
    then show False using rank_less [of k a x] assms(4) [of k] rank_le [of a x] by fastforce
  qed
qed

lemma bisect_left_loop_rank:
  assumes "sorted a" "lo \<le> rank a x" "rank a x \<le> hi" "hi \<le> length a"
  shows "bisect_left_loop a x lo hi = rank a x"
  using assms
proof (induction a x lo hi rule: bisect_left_loop.induct)
  case (1 a x lo hi)
  show ?case
  proof (cases "lo < hi")
    case True
    let ?mid = "(lo + hi) div 2"
    have m: "?mid < hi" "lo \<le> ?mid" using True by auto
    show ?thesis
    proof (cases "a ! ?mid < x")
      case less: True
      then have "\<not> rank a x \<le> ?mid" using rank_ge [of a x ?mid] 1(3, 6) m by (meson leD less_le_trans)
      then show ?thesis
        using 1 True less by (subst bisect_left_loop.simps) (simp add: Let_def)
    next
      case ge: False
      then have "rank a x \<le> ?mid" using rank_less [of ?mid a x] by (meson not_le)
      then show ?thesis
        using 1 True ge m by (subst bisect_left_loop.simps) (simp add: Let_def)
    qed
  qed (use 1 in \<open>simp add: bisect_left_loop.simps\<close>)
qed

lemma bisect_left_rank: "sorted a \<Longrightarrow> lo \<le> rank a x \<Longrightarrow> bisect_left a x lo = rank a x"
  by (simp add: bisect_left_def bisect_left_loop_rank rank_le)

section \<open>The class\<close>

record 'a SortedSet =
  items :: "'a list"

datatype 'a operand = SortedOp "'a SortedSet" | SetOp "'a list" | ListOp "'a list"

definition insert_at :: "nat \<Rightarrow> 'a \<Rightarrow> 'a list \<Rightarrow> 'a list" where
  "insert_at i x xs = take i xs @ x # drop i xs"

definition ss_empty :: "'a SortedSet" where
  "ss_empty = \<lparr>items = []\<rparr>"

definition ss_contains :: "'a::linorder SortedSet \<Rightarrow> 'a \<Rightarrow> bool" where
  "ss_contains s item =
     (let i = bisect_left (items s) item 0 in i < length (items s) \<and> items s ! i = item)"

definition ss_add :: "'a::linorder \<Rightarrow> 'a SortedSet \<Rightarrow> 'a SortedSet" where
  "ss_add item s =
     (let i = bisect_left (items s) item 0
      in if i < length (items s)
         then if items s ! i \<noteq> item then s\<lparr>items := insert_at i item (items s)\<rparr> else s
         else s\<lparr>items := items s @ [item]\<rparr>)"

definition ss_update :: "'a::linorder list \<Rightarrow> 'a SortedSet \<Rightarrow> 'a SortedSet" where
  "ss_update iterable s = fold ss_add iterable s"

definition ss_init :: "'a::linorder list \<Rightarrow> 'a SortedSet" where
  "ss_init iterable = ss_update iterable ss_empty"

definition ss_remove :: "'a::linorder \<Rightarrow> 'a SortedSet \<Rightarrow> 'a SortedSet res" where
  "ss_remove item s =
     (let i = bisect_left (items s) item 0
      in if i < length (items s) \<and> items s ! i = item
         then Inr (s\<lparr>items := take i (items s) @ drop (Suc i) (items s)\<rparr>)
         else Inl KeyError)"

definition ss_pop :: "'a SortedSet \<Rightarrow> ('a \<times> 'a SortedSet) res" where
  "ss_pop s =
     (if items s = [] then Inl KeyError
      else Inr (last (items s), s\<lparr>items := butlast (items s)\<rparr>))"

definition ss_clear :: "'a SortedSet \<Rightarrow> 'a SortedSet" where
  "ss_clear s = s\<lparr>items := []\<rparr>"

definition ss_copy :: "'a SortedSet \<Rightarrow> 'a SortedSet" where
  "ss_copy s = ss_empty\<lparr>items := items s\<rparr>"

text \<open>The loops over the items of another \<open>SortedSet\<close>, which resume the search at \<open>i\<close>.\<close>

fun union_loop :: "'a::linorder list \<Rightarrow> nat \<Rightarrow> 'a list \<Rightarrow> 'a list" where
  "union_loop [] i acc = acc"
| "union_loop (item # other) i acc =
     (let j = bisect_left acc item i
      in union_loop other j
           (if j < length acc then if item \<noteq> acc ! j then insert_at j item acc else acc
            else acc @ [item]))"

fun ss_union :: "'a::linorder SortedSet \<Rightarrow> 'a operand list \<Rightarrow> 'a SortedSet" where
  "ss_union s [] = ss_copy s"
| "ss_union s (other # others) =
     ss_union
       (case other of
          SortedOp t \<Rightarrow> (ss_copy s)\<lparr>items := union_loop (items t) 0 (items s)\<rparr>
        | SetOp xs \<Rightarrow> fold ss_add xs (ss_copy s)
        | ListOp xs \<Rightarrow> fold ss_add xs (ss_copy s)) others"

fun diff_loop :: "'a::linorder list \<Rightarrow> 'a list \<Rightarrow> nat \<Rightarrow> 'a list" where
  "diff_loop [] other i = []"
| "diff_loop (item # its) other i =
     (let j = bisect_left other item i
      in if j < length other \<and> item = other ! j then diff_loop its other j
         else item # diff_loop its other j)"

definition ss_diff :: "'a::linorder SortedSet \<Rightarrow> 'a operand \<Rightarrow> 'a SortedSet" where
  "ss_diff s other =
     (case other of
        SortedOp t \<Rightarrow> \<lparr>items = diff_loop (items s) (items t) 0\<rparr>
      | SetOp xs \<Rightarrow> fold ss_add (filter (\<lambda>item. item \<notin> set xs) (items s)) ss_empty
      | ListOp xs \<Rightarrow> fold ss_add (filter (\<lambda>item. item \<notin> set xs) (items s)) ss_empty)"

fun intersect_loop :: "'a::linorder list \<Rightarrow> 'a list \<Rightarrow> nat \<Rightarrow> 'a list" where
  "intersect_loop [] other i = []"
| "intersect_loop (item # its) other i =
     (let j = bisect_left other item i
      in if j < length other
         then if item = other ! j then item # intersect_loop its other j
              else intersect_loop its other j
         else [])"

definition ss_intersect :: "'a::linorder SortedSet \<Rightarrow> 'a operand \<Rightarrow> 'a SortedSet" where
  "ss_intersect s other =
     (case other of
        SortedOp t \<Rightarrow> \<lparr>items = intersect_loop (items s) (items t) 0\<rparr>
      | SetOp xs \<Rightarrow> fold ss_add (filter (\<lambda>item. item \<in> set xs) (items s)) ss_empty
      | ListOp xs \<Rightarrow> fold ss_add (filter (\<lambda>item. item \<in> set xs) (items s)) ss_empty)"

text \<open>\<open>intersection\<close> and \<open>difference\<close> stop at the first empty intermediate result.\<close>

fun ss_intersection_loop :: "'a::linorder SortedSet \<Rightarrow> 'a operand list \<Rightarrow> 'a SortedSet" where
  "ss_intersection_loop isect [] = isect"
| "ss_intersection_loop isect (other # others) =
     (let isect' = ss_intersect isect other
      in if items isect' = [] then isect' else ss_intersection_loop isect' others)"

definition ss_intersection :: "'a::linorder SortedSet \<Rightarrow> 'a operand list \<Rightarrow> 'a SortedSet" where
  "ss_intersection s others = ss_intersection_loop (ss_copy s) others"

fun ss_difference_loop :: "'a::linorder SortedSet \<Rightarrow> 'a operand list \<Rightarrow> 'a SortedSet" where
  "ss_difference_loop diff [] = diff"
| "ss_difference_loop diff (other # others) =
     (let diff' = ss_diff diff other
      in if items diff' = [] then diff' else ss_difference_loop diff' others)"

definition ss_difference :: "'a::linorder SortedSet \<Rightarrow> 'a operand list \<Rightarrow> 'a SortedSet" where
  "ss_difference s others = ss_difference_loop (ss_copy s) others"

text \<open>
  \<open>other.difference(self)\<close> is that of the other operand's class; a list has no such method.
\<close>

definition ss_symmetric_difference ::
    "'a::linorder SortedSet \<Rightarrow> 'a operand \<Rightarrow> 'a SortedSet res" where
  "ss_symmetric_difference s other =
     (let diff_self_other = ss_diff s other
      in case other of
           SortedOp t \<Rightarrow> Inr (ss_union diff_self_other [SortedOp (ss_difference t [SortedOp s])])
         | SetOp xs \<Rightarrow>
             Inr (ss_union diff_self_other [SetOp (filter (\<lambda>x. x \<notin> set (items s)) xs)])
         | ListOp xs \<Rightarrow> Inl AttributeError)"

fun operand_len :: "'a operand \<Rightarrow> nat" where
  "operand_len (SortedOp t) = length (items t)"
| "operand_len (SetOp xs) = length xs"
| "operand_len (ListOp xs) = length xs"

fun operand_list :: "'a operand \<Rightarrow> 'a list" where
  "operand_list (SortedOp t) = items t"
| "operand_list (SetOp xs) = xs"
| "operand_list (ListOp xs) = xs"

definition ss_isdisjoint :: "'a::linorder SortedSet \<Rightarrow> 'a operand \<Rightarrow> bool" where
  "ss_isdisjoint s other \<longleftrightarrow> length (items (ss_intersect s other)) = 0"

definition ss_issubset :: "'a::linorder SortedSet \<Rightarrow> 'a operand \<Rightarrow> bool" where
  "ss_issubset s other \<longleftrightarrow> length (items (ss_intersect s other)) = length (items s)"

definition ss_issuperset :: "'a::linorder SortedSet \<Rightarrow> 'a operand \<Rightarrow> bool" where
  "ss_issuperset s other \<longleftrightarrow> length (items (ss_intersect s other)) = operand_len other"

definition ss_eq :: "'a::linorder SortedSet \<Rightarrow> 'a operand \<Rightarrow> bool" where
  "ss_eq s other =
     (case other of
        SortedOp t \<Rightarrow> items s = items t
      | _ \<Rightarrow> operand_len other = length (items s) \<and> list_all (ss_contains s) (operand_list other))"

definition ss_ne :: "'a::linorder SortedSet \<Rightarrow> 'a operand \<Rightarrow> bool" where
  "ss_ne s other =
     (case other of
        SortedOp t \<Rightarrow> items s \<noteq> items t
      | _ \<Rightarrow> operand_len other \<noteq> length (items s)
              \<or> list_ex (\<lambda>item. \<not> ss_contains s item) (operand_list other))"

definition ss_lt :: "'a::linorder SortedSet \<Rightarrow> 'a operand \<Rightarrow> bool" where
  "ss_lt s other \<longleftrightarrow> operand_len other > length (items s) \<and> ss_issubset s other"

definition ss_gt :: "'a::linorder SortedSet \<Rightarrow> 'a operand \<Rightarrow> bool" where
  "ss_gt s other \<longleftrightarrow> length (items s) > operand_len other \<and> ss_issuperset s other"

section \<open>Refinement of sets\<close>

definition ss_wf :: "'a::linorder SortedSet \<Rightarrow> bool" where
  "ss_wf s \<longleftrightarrow> sorted_wrt (<) (items s)"

definition ss_abs :: "'a SortedSet \<Rightarrow> 'a set" where
  "ss_abs s = set (items s)"

fun operand_wf :: "'a::linorder operand \<Rightarrow> bool" where
  "operand_wf (SortedOp t) \<longleftrightarrow> ss_wf t"
| "operand_wf (SetOp xs) \<longleftrightarrow> distinct xs"
| "operand_wf (ListOp xs) \<longleftrightarrow> True"

definition operand_abs :: "'a operand \<Rightarrow> 'a set" where
  "operand_abs other = set (operand_list other)"

lemma strict_sorted_D: "sorted_wrt (<) xs \<Longrightarrow> sorted xs \<and> distinct xs"
  by (simp add: strict_sorted_iff)

lemma rank_mem:
  assumes "sorted a"
  shows "rank a x < length a \<and> a ! rank a x = x \<longleftrightarrow> x \<in> set a"
proof
  assume "x \<in> set a"
  then obtain i where i: "i < length a" "a ! i = x" by (auto simp: in_set_conv_nth)
  then have "rank a x \<le> i" using rank_less [of i a x] by (meson less_irrefl not_le)
  then show "rank a x < length a \<and> a ! rank a x = x"
    using i assms rank_ge [of a x "rank a x"] sorted_nth_mono [of a "rank a x" i] by auto
qed (metis nth_mem)

lemma set_take_rank: "y \<in> set (take (rank a x) a) \<Longrightarrow> y < x"
  by (metis rank_def set_takeWhileD takeWhile_eq_take)

lemma set_drop_rank: "sorted a \<Longrightarrow> y \<in> set (drop (rank a x) a) \<Longrightarrow> x \<le> y"
  by (auto simp: in_set_conv_nth rank_ge)

lemma insert_at_rank:
  assumes "sorted_wrt (<) a" "x \<notin> set a"
  shows "sorted_wrt (<) (insert_at (rank a x) x a)" "set (insert_at (rank a x) x a) = insert x (set a)"
proof -
  let ?r = "rank a x"
  have "sorted_wrt (<) (take ?r a @ drop ?r a)" using assms by simp
  moreover have "y < x" if "y \<in> set (take ?r a)" for y using set_take_rank [OF that] .
  moreover have "x < y" if "y \<in> set (drop ?r a)" for y
    using set_drop_rank [of a y x] that assms strict_sorted_D [of a] in_set_dropD
    by (metis le_neq_trans)
  ultimately show "sorted_wrt (<) (insert_at ?r x a)"
    by (simp add: insert_at_def sorted_wrt_append del: append_take_drop_id)
  show "set (insert_at ?r x a) = insert x (set a)"
    by (simp add: insert_at_def) (metis set_append append_take_drop_id)
qed

lemma insert_at_length: "insert_at (length a) x a = a @ [x]"
  by (simp add: insert_at_def)


text \<open>What both \<open>add\<close> and the loop of \<open>union\<close> do at the position found.\<close>

lemma place_item:
  assumes "sorted_wrt (<) a"
  shows "(if rank a x < length a then if x \<noteq> a ! rank a x then insert_at (rank a x) x a else a
          else a @ [x]) = (if x \<in> set a then a else insert_at (rank a x) x a)"
proof (cases "rank a x < length a")
  case True
  with assms show ?thesis using rank_mem [of a x] strict_sorted_D [of a] by metis
next
  case False
  then have "rank a x = length a" using rank_le [of a x] by simp
  with assms show ?thesis
    using rank_mem [of a x] strict_sorted_D [of a] insert_at_length [of a x] by auto
qed

lemma bisect_left_0: "ss_wf s \<Longrightarrow> bisect_left (items s) x 0 = rank (items s) x"
  by (simp add: ss_wf_def bisect_left_rank strict_sorted_D)

lemma ss_contains_abs: "ss_wf s \<Longrightarrow> ss_contains s x \<longleftrightarrow> x \<in> ss_abs s"
  using rank_mem [of "items s" x]
  by (simp add: ss_contains_def bisect_left_0 Let_def ss_abs_def ss_wf_def strict_sorted_D)

lemma ss_add_items:
  assumes "ss_wf s"
  shows "items (ss_add x s) =
    (if x \<in> set (items s) then items s else insert_at (rank (items s) x) x (items s))"
  using place_item [of "items s" x] assms
  by (auto simp: ss_add_def bisect_left_0 Let_def ss_wf_def split: if_splits)

lemma ss_add_abs: "ss_wf s \<Longrightarrow> ss_wf (ss_add x s) \<and> ss_abs (ss_add x s) = insert x (ss_abs s)"
  using ss_add_items [of s x] insert_at_rank [of "items s" x]
  by (auto simp: ss_wf_def ss_abs_def)

lemma ss_empty_abs [simp]: "ss_wf ss_empty" "ss_abs ss_empty = {}"
  by (simp_all add: ss_empty_def ss_wf_def ss_abs_def)

interpretation ss: set_insertion ss_wf ss_abs ss_empty ss_add
  by unfold_locales (simp_all add: ss_add_abs)

lemma ss_copy_items [simp]: "items (ss_copy s) = items s"
  by (simp add: ss_copy_def)

lemma ss_copy_abs [simp]: "ss_wf (ss_copy s) = ss_wf s" "ss_abs (ss_copy s) = ss_abs s"
  by (simp_all add: ss_wf_def ss_abs_def)

lemma rank_le_rank: "sorted a \<Longrightarrow> x \<le> y \<Longrightarrow> rank a x \<le> rank a y"
  using rank_less [of "rank a y" a x] rank_ge [of a y "rank a y"] rank_le [of a x] by fastforce

lemma rank_insert_at_le:
  assumes "sorted_wrt (<) a" "x < y" "x \<notin> set a"
  shows "rank a x \<le> rank (insert_at (rank a x) x a) y"
proof (rule ccontr)
  let ?b = "insert_at (rank a x) x a"
  assume "\<not> ?thesis"
  then have less: "rank ?b y < rank a x" by simp
  moreover have "length ?b = Suc (length a)" using rank_le [of a x] by (simp add: insert_at_def)
  ultimately have "y \<le> ?b ! rank ?b y"
    using rank_ge [of ?b y "rank ?b y"] insert_at_rank(1) [OF assms(1, 3)] rank_le [of a x]
    by (simp add: strict_sorted_D)
  moreover have "?b ! rank ?b y = a ! rank ?b y"
    using less rank_le [of a x] by (simp add: insert_at_def nth_append)
  ultimately show False using rank_less [OF less] assms(2) by simp
qed

lemma union_loop_abs:
  assumes "sorted_wrt (<) acc" "sorted_wrt (<) other" "\<And>y. y \<in> set other \<Longrightarrow> i \<le> rank acc y"
  shows "sorted_wrt (<) (union_loop other i acc) \<and> set (union_loop other i acc) = set acc \<union> set other"
  using assms
proof (induction other arbitrary: i acc)
  case (Cons item other)
  let ?r = "rank acc item"
  let ?acc = "if item \<in> set acc then acc else insert_at ?r item acc"
  have b: "bisect_left acc item i = ?r"
    using Cons.prems by (intro bisect_left_rank) (auto simp: strict_sorted_D)
  have acc: "sorted_wrt (<) ?acc" "set ?acc = insert item (set acc)"
    using insert_at_rank [of acc item] Cons.prems by auto
  have "?r \<le> rank ?acc y" if "y \<in> set other" for y
  proof -
    have "item < y" using Cons.prems that by auto
    then show ?thesis
      using rank_insert_at_le [of acc item y] rank_le_rank [of acc item y] Cons.prems(1)
      by (auto simp: strict_sorted_D)
  qed
  then show ?case
    using Cons.IH [of ?acc ?r] Cons.prems acc place_item [of acc item] b
    by (simp add: Let_def)
qed simp

lemma union_operand_abs:
  assumes "ss_wf s" "operand_wf other"
  shows "ss_wf (ss_union s [other]) \<and> ss_abs (ss_union s [other]) = ss_abs s \<union> operand_abs other"
proof (cases other)
  case (SortedOp t)
  then show ?thesis
    using union_loop_abs [of "items s" "items t" 0] assms
    by (simp add: ss_wf_def ss_abs_def operand_abs_def)
qed (use assms ss.fold_add [of "ss_copy s"] in \<open>auto simp: operand_abs_def\<close>)

lemma diff_loop_filter:
  assumes "sorted_wrt (<) its" "sorted other" "\<And>y. y \<in> set its \<Longrightarrow> i \<le> rank other y"
  shows "diff_loop its other i = filter (\<lambda>x. x \<notin> set other) its"
  using assms
proof (induction its arbitrary: i)
  case (Cons item its)
  have b: "bisect_left other item i = rank other item"
    using Cons.prems by (intro bisect_left_rank) auto
  have "rank other item \<le> rank other y" if "y \<in> set its" for y
    using that Cons.prems by (intro rank_le_rank) auto
  then show ?case
    using Cons rank_mem [of other item] by (auto simp: Let_def b)
qed simp

lemma intersect_loop_filter:
  assumes "sorted_wrt (<) its" "sorted other" "\<And>y. y \<in> set its \<Longrightarrow> i \<le> rank other y"
  shows "intersect_loop its other i = filter (\<lambda>x. x \<in> set other) its"
  using assms
proof (induction its arbitrary: i)
  case (Cons item its)
  have b: "bisect_left other item i = rank other item"
    using Cons.prems by (intro bisect_left_rank) auto
  have r: "rank other item \<le> rank other y" if "y \<in> set its" for y
    using that Cons.prems by (intro rank_le_rank) auto
  show ?case
  proof (cases "rank other item < length other")
    case True
    then show ?thesis using Cons r rank_mem [of other item] by (auto simp: Let_def b)
  next
    case False
    then have "y \<notin> set other" if "y \<in> set (item # its)" for y
      using r rank_mem [OF Cons.prems(2), of y] that by fastforce
    then have "filter (\<lambda>x. x \<in> set other) (item # its) = []" by (simp add: filter_empty_conv)
    then show ?thesis using False by (simp add: Let_def b)
  qed
qed simp

lemma fold_ss_add_filter:
  assumes "ss_wf s"
  shows "items (fold ss_add (filter P (items s)) ss_empty) = filter P (items s)"
proof -
  let ?t = "fold ss_add (filter P (items s)) ss_empty"
  have "ss_wf ?t" "ss_abs ?t = set (filter P (items s))"
    using ss.of_list [of "filter P (items s)"] by simp_all
  moreover have "sorted_wrt (<) (filter P (items s))"
    using assms by (simp add: ss_wf_def sorted_wrt_filter)
  ultimately show ?thesis
    by (metis ss_abs_def ss_wf_def sorted_distinct_set_unique strict_sorted_D)
qed

lemma ss_diff_items:
  assumes "ss_wf s" "operand_wf other"
  shows "items (ss_diff s other) = filter (\<lambda>x. x \<notin> operand_abs other) (items s)"
  using assms diff_loop_filter [of "items s" _ 0] fold_ss_add_filter [of s]
  by (cases other) (auto simp: ss_diff_def operand_abs_def ss_wf_def strict_sorted_D)

lemma ss_intersect_items:
  assumes "ss_wf s" "operand_wf other"
  shows "items (ss_intersect s other) = filter (\<lambda>x. x \<in> operand_abs other) (items s)"
  using assms intersect_loop_filter [of "items s" _ 0] fold_ss_add_filter [of s]
  by (cases other) (auto simp: ss_intersect_def operand_abs_def ss_wf_def strict_sorted_D)

lemma ss_diff_abs:
  assumes "ss_wf s" "operand_wf other"
  shows "ss_wf (ss_diff s other) \<and> ss_abs (ss_diff s other) = ss_abs s - operand_abs other"
  using assms ss_diff_items [OF assms] by (auto simp: ss_wf_def ss_abs_def sorted_wrt_filter)

lemma ss_intersect_abs:
  assumes "ss_wf s" "operand_wf other"
  shows "ss_wf (ss_intersect s other) \<and> ss_abs (ss_intersect s other) = ss_abs s \<inter> operand_abs other"
  using assms ss_intersect_items [OF assms] by (auto simp: ss_wf_def ss_abs_def sorted_wrt_filter)


lemma ss_difference_single_abs:
  assumes "ss_wf s" "operand_wf other"
  shows "ss_wf (ss_difference s [other]) \<and> ss_abs (ss_difference s [other]) = ss_abs s - operand_abs other"
  using ss_diff_abs [of "ss_copy s" other] assms by (simp add: ss_difference_def Let_def)

lemma ss_difference_loop_abs:
  assumes "ss_wf s" "list_all operand_wf others"
  shows "ss_wf (ss_difference_loop s others)
    \<and> ss_abs (ss_difference_loop s others) = ss_abs s - (\<Union>t \<in> set others. operand_abs t)"
  using assms
proof (induction others arbitrary: s)
  case (Cons other others)
  have d: "ss_wf (ss_diff s other)" "ss_abs (ss_diff s other) = ss_abs s - operand_abs other"
    using ss_diff_abs Cons.prems by auto
  then show ?case using Cons.IH [OF d(1)] Cons.prems by (auto simp: Let_def ss_abs_def)
qed simp

lemma ss_intersection_loop_abs:
  assumes "ss_wf s" "list_all operand_wf others"
  shows "ss_wf (ss_intersection_loop s others)
    \<and> ss_abs (ss_intersection_loop s others) = {x \<in> ss_abs s. \<forall>t \<in> set others. x \<in> operand_abs t}"
  using assms
proof (induction others arbitrary: s)
  case (Cons other others)
  have d: "ss_wf (ss_intersect s other)" "ss_abs (ss_intersect s other) = ss_abs s \<inter> operand_abs other"
    using ss_intersect_abs Cons.prems by auto
  then show ?case using Cons.IH [OF d(1)] Cons.prems by (auto simp: Let_def ss_abs_def)
qed simp

lemma ss_union_abs:
  assumes "ss_wf s" "list_all operand_wf others"
  shows "ss_wf (ss_union s others)
    \<and> ss_abs (ss_union s others) = ss_abs s \<union> (\<Union>t \<in> set others. operand_abs t)"
  using assms
proof (induction s others rule: ss_union.induct)
  case (2 s other others)
  let ?s = "case other of
      SortedOp t \<Rightarrow> (ss_copy s)\<lparr>items := union_loop (items t) 0 (items s)\<rparr>
    | SetOp xs \<Rightarrow> fold ss_add xs (ss_copy s) | ListOp xs \<Rightarrow> fold ss_add xs (ss_copy s)"
  have "ss_union s [other] = ss_copy ?s" by simp
  then have "ss_wf ?s" "ss_abs ?s = ss_abs s \<union> operand_abs other"
    using union_operand_abs [of s other] 2 by auto
  then show ?case using 2 by auto
qed simp

lemma ss_symmetric_difference_abs:
  assumes "ss_wf s" "operand_wf t"
  shows "case ss_symmetric_difference s t of
        Inr r \<Rightarrow> ss_wf r
          \<and> ss_abs r = (ss_abs s - operand_abs t) \<union> (operand_abs t - ss_abs s)
      | Inl e \<Rightarrow> e = AttributeError \<and> (\<exists>xs. t = ListOp xs)"
proof (cases t)
  case (SortedOp u)
  define v where "v = ss_difference u [SortedOp s]"
  have "ss_wf v" "ss_abs v = ss_abs u - ss_abs s"
    using ss_difference_single_abs [of u "SortedOp s"] assms SortedOp
    by (auto simp: v_def operand_abs_def ss_abs_def)
  then show ?thesis
    using union_operand_abs [of "ss_diff s t" "SortedOp v"] ss_diff_abs [of s t] assms SortedOp
    by (simp add: ss_symmetric_difference_def Let_def v_def [symmetric] operand_abs_def ss_abs_def)
next
  case (SetOp xs)
  then show ?thesis
    using union_operand_abs [of "ss_diff s t" "SetOp (filter (\<lambda>x. x \<notin> set (items s)) xs)"]
      ss_diff_abs [of s t] assms
    by (auto simp: ss_symmetric_difference_def Let_def operand_abs_def ss_abs_def)
qed (simp add: ss_symmetric_difference_def)

text \<open>
  C31: \<open>SortedSet\<close> implements sets. On well-formed operands, which may be sorted sets, builtin
  sets or lists, \<open>union\<close>, \<open>intersection\<close> and \<open>difference\<close> (of any number of operands)
  and \<open>symmetric_difference\<close> keep the items strictly sorted and compute the set operation of
  the same name.
\<close>

theorem sortedset_algebra:
  assumes "ss_wf s" "operand_wf t" "list_all operand_wf ts"
  shows "(ss_wf (ss_union s ts)
            \<and> ss_abs (ss_union s ts) = ss_abs s \<union> (\<Union>t \<in> set ts. operand_abs t))
    \<and> (ss_wf (ss_intersection s ts)
            \<and> ss_abs (ss_intersection s ts) = {x \<in> ss_abs s. \<forall>t \<in> set ts. x \<in> operand_abs t})
    \<and> (ss_wf (ss_difference s ts)
            \<and> ss_abs (ss_difference s ts) = ss_abs s - (\<Union>t \<in> set ts. operand_abs t))
    \<and> (case ss_symmetric_difference s t of
        Inr r \<Rightarrow> ss_wf r
          \<and> ss_abs r = (ss_abs s - operand_abs t) \<union> (operand_abs t - ss_abs s)
      | Inl e \<Rightarrow> e = AttributeError \<and> (\<exists>xs. t = ListOp xs))"
  using assms ss_union_abs [of s ts] ss_intersection_loop_abs [of "ss_copy s" ts]
    ss_difference_loop_abs [of "ss_copy s" ts] ss_symmetric_difference_abs [of s t]
  by (simp add: ss_intersection_def ss_difference_def)

lemma ss_init_wf: "ss_wf (ss_init xs)" and ss_init_abs: "ss_abs (ss_init xs) = set xs"
  using ss.of_list [of xs] by (simp_all add: ss_init_def ss_update_def)

theorem sortedset_algebra_witness:
  "ss_abs (ss_union (ss_init [3, 1 :: int]) [SortedOp (ss_init [2, 3]), ListOp [5, 5]]) = {1, 2, 3, 5}"
proof -
  have "operand_abs (SortedOp (ss_init [2, 3 :: int])) = {2, 3}"
    using ss_init_abs [of "[2, 3 :: int]"] by (simp add: operand_abs_def ss_abs_def)
  then show ?thesis
    using sortedset_algebra [of "ss_init [3, 1]" "SetOp []" "[SortedOp (ss_init [2, 3]), ListOp [5, 5]]"]
    by (auto simp: ss_init_wf ss_init_abs operand_abs_def)
qed

section \<open>Elements and comparisons\<close>

lemma ss_remove_abs:
  assumes "ss_wf s" "x \<in> ss_abs s"
  shows "\<exists>r. ss_remove x s = Inr r \<and> ss_wf r \<and> ss_abs r = ss_abs s - {x}"
proof -
  let ?r = "rank (items s) x" and ?a = "items s"
  have s: "sorted ?a" "distinct ?a" using assms strict_sorted_D by (auto simp: ss_wf_def)
  then have r: "?r < length ?a" "?a ! ?r = x" using rank_mem [of ?a x] assms by (auto simp: ss_abs_def)
  define u v where "u = take ?r ?a" and "v = drop (Suc ?r) ?a"
  then have a: "?a = u @ x # v" using id_take_nth_drop [OF r(1)] r(2) by simp
  then have "sorted_wrt (<) (u @ v)" using assms by (simp add: ss_wf_def sorted_wrt_append)
  moreover from a s(2) have "set (u @ v) = set ?a - {x}" by auto
  ultimately show ?thesis
    using r assms by (simp add: ss_remove_def bisect_left_0 Let_def ss_wf_def ss_abs_def u_def v_def)
qed

lemma ss_remove_error: "ss_wf s \<Longrightarrow> x \<notin> ss_abs s \<Longrightarrow> ss_remove x s = Inl KeyError"
  using rank_mem [of "items s" x]
  by (auto simp: ss_remove_def bisect_left_0 Let_def ss_wf_def ss_abs_def strict_sorted_D)


lemma ss_pop_abs:
  assumes "ss_wf s" "ss_pop s = Inr (x, r)"
  shows "x = Max (ss_abs s) \<and> ss_wf r \<and> ss_abs r = ss_abs s - {x}"
proof -
  from assms(2) have ne: "items s \<noteq> []" and x: "x = last (items s)" and r: "items r = butlast (items s)"
    by (auto simp: ss_pop_def split: if_splits)
  then have a: "items s = items r @ [x]" by simp
  then have "sorted_wrt (<) (items r)" "\<forall>y \<in> set (items r). y < x"
    using assms(1) by (auto simp: ss_wf_def sorted_wrt_append)
  moreover from this a have "Max (ss_abs s) = x"
    by (intro Max_eqI) (auto simp: ss_abs_def less_imp_le)
  ultimately show ?thesis using a by (auto simp: ss_wf_def ss_abs_def)
qed

lemma ss_remove_case:
  assumes "ss_wf s"
  shows "case ss_remove x s of
         Inr r \<Rightarrow> x \<in> ss_abs s \<and> ss_wf r \<and> ss_abs r = ss_abs s - {x}
       | Inl e \<Rightarrow> x \<notin> ss_abs s \<and> e = KeyError"
proof (cases "x \<in> ss_abs s")
  case True
  with ss_remove_abs [OF assms] obtain r where
    "ss_remove x s = Inr r" "ss_wf r" "ss_abs r = ss_abs s - {x}" by blast
  with True show ?thesis by simp
next
  case False
  with ss_remove_error [OF assms] show ?thesis by simp
qed

lemma ss_pop_case:
  assumes "ss_wf s"
  shows "case ss_pop s of
         Inr (y, r) \<Rightarrow> y = Max (ss_abs s) \<and> ss_abs s \<noteq> {} \<and> ss_wf r \<and> ss_abs r = ss_abs s - {y}
       | Inl e \<Rightarrow> ss_abs s = {} \<and> e = KeyError"
proof (cases "items s = []")
  case True
  then show ?thesis by (simp add: ss_pop_def ss_abs_def)
next
  case False
  then obtain y r where yr: "ss_pop s = Inr (y, r)" by (simp add: ss_pop_def)
  from ss_pop_abs [OF assms yr] False show ?thesis by (simp add: yr ss_abs_def)
qed

text \<open>
  The element operations of a well-formed \<open>SortedSet\<close>: building one from any iterable gives
  its set of elements, \<open>in\<close> is membership, \<open>add\<close> inserts, \<open>remove\<close> deletes its argument
  or raises \<open>KeyError\<close> when it is absent, and \<open>pop\<close> takes out the greatest element or raises
  \<open>KeyError\<close> on the empty set.
\<close>

theorem sortedset_elements:
  assumes "ss_wf s"
  shows "ss_wf (ss_init xs) \<and> ss_abs (ss_init xs) = set xs
    \<and> (ss_contains s x \<longleftrightarrow> x \<in> ss_abs s)
    \<and> ss_wf (ss_add x s) \<and> ss_abs (ss_add x s) = insert x (ss_abs s)
    \<and> (case ss_remove x s of
         Inr r \<Rightarrow> x \<in> ss_abs s \<and> ss_wf r \<and> ss_abs r = ss_abs s - {x}
       | Inl e \<Rightarrow> x \<notin> ss_abs s \<and> e = KeyError)
    \<and> (case ss_pop s of
         Inr (y, r) \<Rightarrow> y = Max (ss_abs s) \<and> ss_abs s \<noteq> {} \<and> ss_wf r \<and> ss_abs r = ss_abs s - {y}
       | Inl e \<Rightarrow> ss_abs s = {} \<and> e = KeyError)"
  using assms ss_remove_case [of s x] ss_pop_case [of s]
  by (simp add: ss_init_wf ss_init_abs ss_contains_abs ss_add_abs)

theorem sortedset_elements_witness:
  "ss_contains (ss_init [2, 1 :: int]) 2 \<and> ss_abs (ss_add 7 (ss_init [2, 1 :: int])) = {1, 2, 7}"
  using sortedset_elements [OF ss_init_wf, of "[]" "[2, 1]" 2]
    sortedset_elements [OF ss_init_wf, of "[]" "[2, 1]" 7]
  by (auto simp: ss_init_abs)

lemma ss_card: "ss_wf s \<Longrightarrow> length (items s) = card (ss_abs s)"
  by (simp add: ss_wf_def ss_abs_def distinct_card strict_sorted_D)

lemma ss_intersect_card:
  "ss_wf s \<Longrightarrow> operand_wf t \<Longrightarrow>
     length (items (ss_intersect s t)) = card (ss_abs s \<inter> operand_abs t)"
  using ss_card [of "ss_intersect s t"] ss_intersect_abs [of s t] by simp

lemma ss_items_eq_iff: "ss_wf s \<Longrightarrow> ss_wf t \<Longrightarrow> items s = items t \<longleftrightarrow> ss_abs s = ss_abs t"
  by (metis ss_abs_def ss_wf_def sorted_distinct_set_unique strict_sorted_D)

lemma operand_card:
  "operand_wf t \<Longrightarrow> (\<And>xs. t \<noteq> ListOp xs) \<Longrightarrow> operand_len t = card (operand_abs t)"
  by (cases t) (auto simp: operand_abs_def distinct_card ss_wf_def strict_sorted_D)

lemma finite_abs [simp]: "finite (ss_abs s)" "finite (operand_abs t)"
  by (simp_all add: ss_abs_def operand_abs_def)

lemma card_Int_eq_iff: "finite A \<Longrightarrow> card (A \<inter> B) = card A \<longleftrightarrow> A \<subseteq> B"
  by (metis Int_lower1 card_subset_eq inf.absorb_iff1)

lemma ss_eq_abs:
  assumes "ss_wf s" "operand_wf t" "\<And>xs. t \<noteq> ListOp xs"
  shows "ss_eq s t \<longleftrightarrow> ss_abs s = operand_abs t"
proof (cases t)
  case (SortedOp u)
  then show ?thesis
    using assms ss_items_eq_iff [of s u] by (simp add: ss_eq_def operand_abs_def ss_abs_def)
next
  case (SetOp xs)
  then have "ss_eq s t \<longleftrightarrow> card (operand_abs t) = card (ss_abs s) \<and> operand_abs t \<subseteq> ss_abs s"
    using assms operand_card [of t] ss_card [of s]
    by (auto simp: ss_eq_def list_all_iff ss_contains_abs operand_abs_def)
  also have "\<dots> \<longleftrightarrow> ss_abs s = operand_abs t"
    using card_subset_eq [of "ss_abs s" "operand_abs t"] by auto
  finally show ?thesis .
qed (use assms in simp)

lemma ss_ne_not_eq: "ss_ne s t \<longleftrightarrow> \<not> ss_eq s t"
  by (cases t) (auto simp: ss_ne_def ss_eq_def list_all_iff list_ex_iff)

text \<open>
  C32: comparisons of a well-formed \<open>SortedSet\<close> with a \<open>SortedSet\<close> or a builtin set are those
  of the sets: \<open>==\<close>, \<open>!=\<close>, \<open><=\<close>, \<open><\<close>, \<open>>=\<close>, \<open>>\<close> and
  \<open>isdisjoint\<close>.
\<close>

theorem sortedset_comparisons:
  assumes "ss_wf s" "operand_wf t" "\<And>xs. t \<noteq> ListOp xs"
  shows "(ss_eq s t \<longleftrightarrow> ss_abs s = operand_abs t)
    \<and> (ss_ne s t \<longleftrightarrow> ss_abs s \<noteq> operand_abs t)
    \<and> (ss_issubset s t \<longleftrightarrow> ss_abs s \<subseteq> operand_abs t)
    \<and> (ss_issuperset s t \<longleftrightarrow> operand_abs t \<subseteq> ss_abs s)
    \<and> (ss_lt s t \<longleftrightarrow> ss_abs s \<subset> operand_abs t)
    \<and> (ss_gt s t \<longleftrightarrow> operand_abs t \<subset> ss_abs s)
    \<and> (ss_isdisjoint s t \<longleftrightarrow> ss_abs s \<inter> operand_abs t = {})"
proof -
  note [simp] = ss_intersect_card [OF assms(1, 2)] operand_card [OF assms(2, 3)] ss_card [OF assms(1)]
  have sub: "ss_issubset s t \<longleftrightarrow> ss_abs s \<subseteq> operand_abs t"
    by (simp add: ss_issubset_def card_Int_eq_iff)
  have sup: "ss_issuperset s t \<longleftrightarrow> operand_abs t \<subseteq> ss_abs s"
    using card_Int_eq_iff [of "operand_abs t" "ss_abs s"] by (simp add: ss_issuperset_def Int_commute)
  have "ss_lt s t \<longleftrightarrow> ss_abs s \<subset> operand_abs t" "ss_gt s t \<longleftrightarrow> operand_abs t \<subset> ss_abs s"
    using psubset_card_mono [of "operand_abs t" "ss_abs s"]
      psubset_card_mono [of "ss_abs s" "operand_abs t"]
    by (auto simp: ss_lt_def ss_gt_def sub sup psubset_eq)
  then show ?thesis
    using ss_eq_abs [OF assms] sub sup by (simp add: ss_ne_not_eq ss_isdisjoint_def)
qed

theorem sortedset_comparisons_witness:
  "ss_lt (ss_init [2, 1 :: int]) (SetOp [3, 1, 2])"
proof -
  have "ss_abs (ss_init [2, 1]) \<subseteq> operand_abs (SetOp [3, 1, 2 :: int])"
    "3 \<in> operand_abs (SetOp [3, 1, 2 :: int])" "3 \<notin> ss_abs (ss_init [2, 1 :: int])"
    by (simp_all add: ss_init_abs operand_abs_def)
  then have "ss_abs (ss_init [2, 1]) \<subset> operand_abs (SetOp [3, 1, 2 :: int])" by blast
  then show ?thesis
    using sortedset_comparisons [OF ss_init_wf, of "SetOp [3, 1, 2 :: int]" "[2, 1]"] by simp
qed

text \<open>
  Equality with a list looks only at the length and at membership, so a list with a repeated
  element can equal a set that has an element the list lacks: every set of at least two elements
  equals such a list, although the two have different elements.
\<close>

theorem sortedset_eq_list_duplicates:
  assumes "ss_wf s" "x \<in> ss_abs s" "y \<in> ss_abs s" "x \<noteq> y"
  shows "ss_eq s (ListOp (replicate (length (items s)) x))
    \<and> operand_abs (ListOp (replicate (length (items s)) x)) \<noteq> ss_abs s"
proof -
  have "items s \<noteq> []" using assms by (auto simp: ss_abs_def)
  then have "operand_abs (ListOp (replicate (length (items s)) x)) = {x}"
    by (simp add: operand_abs_def)
  moreover have "ss_eq s (ListOp (replicate (length (items s)) x))"
    using assms by (simp add: ss_eq_def list_all_iff ss_contains_abs)
  ultimately show ?thesis using assms by auto
qed

theorem sortedset_eq_list_duplicates_witness:
  "ss_eq (ss_init [1, 2 :: int]) (ListOp (replicate (length (items (ss_init [1, 2 :: int]))) 1))"
  using sortedset_eq_list_duplicates [of "ss_init [1, 2 :: int]" 1 2] by (simp add: ss_init_wf ss_init_abs)

end
