(* ===== verification/Hosts.thy ===== *)
theory Hosts
  imports Prelude
begin

text \<open>
  \<open>Host\<close> of \<open>cassandra/pool.py\<close>. Hosts are compared and hashed by their address, and the
  host objects are shared between the parts of the driver, so a host is represented by its
  address (of a type \<open>'h\<close>) and its attributes are looked up in a store that the operations
  below update. \<open>is_up\<close> is \<open>None\<close> while the state of a node is not known.
\<close>

record host_info =
  datacenter :: "string option"
  rack :: "string option"
  is_up :: "bool option"
  reconnection_handler :: "nat option"

type_synonym 'h host_store = "'h \<Rightarrow> host_info"

definition host_init :: "string option \<Rightarrow> string option \<Rightarrow> host_info" where
  "host_init dc rk =
     \<lparr>datacenter = dc, rack = rk, is_up = None, reconnection_handler = None\<rparr>"

definition set_location_info ::
    "'h \<Rightarrow> string option \<Rightarrow> string option \<Rightarrow> 'h host_store \<Rightarrow> 'h host_store" where
  "set_location_info h dc rk hs = hs(h := (hs h)\<lparr>datacenter := dc, rack := rk\<rparr>)"

definition set_up :: "'h \<Rightarrow> 'h host_store \<Rightarrow> 'h host_store" where
  "set_up h hs = hs(h := (hs h)\<lparr>is_up := Some True\<rparr>)"

definition set_down :: "'h \<Rightarrow> 'h host_store \<Rightarrow> 'h host_store" where
  "set_down h hs = hs(h := (hs h)\<lparr>is_up := Some False\<rparr>)"

definition is_currently_reconnecting :: "'h \<Rightarrow> 'h host_store \<Rightarrow> bool" where
  "is_currently_reconnecting h hs \<longleftrightarrow> reconnection_handler (hs h) \<noteq> None"

definition get_and_set_reconnection_handler ::
    "'h \<Rightarrow> nat option \<Rightarrow> 'h host_store \<Rightarrow> nat option \<times> 'h host_store" where
  "get_and_set_reconnection_handler h new hs =
     (reconnection_handler (hs h), hs(h := (hs h)\<lparr>reconnection_handler := new\<rparr>))"

text \<open>\<open>host.is_up\<close> used as a condition: unknown counts as not up.\<close>

definition is_up_true :: "'h host_store \<Rightarrow> 'h \<Rightarrow> bool" where
  "is_up_true hs h \<longleftrightarrow> is_up (hs h) = Some True"

text \<open>A Python string used as a condition: \<open>None\<close> and the empty string are false.\<close>

fun truthy :: "string option \<Rightarrow> bool" where
  "truthy None = False"
| "truthy (Some s) = (s \<noteq> [])"

lemma truthy_Some: "truthy x \<longleftrightarrow> (\<exists>c s. x = Some (c # s))"
  by (cases x) (auto simp: neq_Nil_conv)

end
