(* ===== verification/Policies.thy ===== *)
theory Policies
  imports Hosts Complex_Main "HOL-Library.Multiset"
begin

text \<open>
  The policies of \<open>cassandra/policies.py\<close>: load balancing, reconnection, retry, conviction and
  speculative execution. A load balancing policy is a record with one function per method. What
  the interpreter and the network decide is an argument: \<open>iter\<close> is the order in which a
  \<open>frozenset\<close> or \<open>set\<close> is iterated, \<open>rnd\<close> a number drawn by \<open>randint\<close>. A query
  plan, which the code yields lazily, is the list of the hosts it would yield.

  The contract \<open>load_balancer\<close> is what the rest of the driver relies on: a plan names no host
  twice and none that the policy itself declares \<open>IGNORED\<close>.
\<close>

section \<open>Interfaces\<close>

datatype HostDistance = IGNORED | LOCAL | REMOTE

text \<open>The iteration order of a finite set of hosts.\<close>

locale set_iteration =
  fixes iter :: "'h set \<Rightarrow> 'h list"
  assumes set_iter: "finite S \<Longrightarrow> set (iter S) = S"
    and distinct_iter: "finite S \<Longrightarrow> distinct (iter S)"
begin

lemma length_iter: "finite S \<Longrightarrow> length (iter S) = card S"
  using distinct_card [OF distinct_iter, of S] set_iter by simp

lemma iter_eq_Nil: "finite S \<Longrightarrow> iter S = [] \<longleftrightarrow> S = {}"
  using set_iter [of S] set_empty [of "iter S"] by simp

end

locale load_balancer =
  fixes inv :: "'s \<Rightarrow> bool"
    and distance :: "'s \<Rightarrow> 'h \<Rightarrow> HostDistance"
    and plan :: "'s \<Rightarrow> 'h list"
  assumes plan_distinct: "inv s \<Longrightarrow> distinct (plan s)"
    and plan_used: "inv s \<Longrightarrow> h \<in> set (plan s) \<Longrightarrow> distance s h \<noteq> IGNORED"

section \<open>RoundRobinPolicy\<close>

record 'h RoundRobinPolicy =
  live_hosts :: "'h set"
  position :: nat

definition rr_init :: "'h RoundRobinPolicy" where
  "rr_init = \<lparr>live_hosts = {}, position = 0\<rparr>"

definition rr_populate :: "nat \<Rightarrow> 'h list \<Rightarrow> ('h, 'z) RoundRobinPolicy_scheme \<Rightarrow> ('h, 'z) RoundRobinPolicy_scheme" where
  "rr_populate rnd hosts p =
     (let p' = p\<lparr>live_hosts := set hosts\<rparr>
      in if length hosts > 1 then p'\<lparr>position := rnd\<rparr> else p')"

definition rr_distance :: "('h, 'z) RoundRobinPolicy_scheme \<Rightarrow> 'h \<Rightarrow> HostDistance" where
  "rr_distance p h = LOCAL"

definition rr_make_query_plan ::
    "('h set \<Rightarrow> 'h list) \<Rightarrow> ('h, 'z) RoundRobinPolicy_scheme \<Rightarrow> 'h list \<times> ('h, 'z) RoundRobinPolicy_scheme" where
  "rr_make_query_plan iter p =
     (let pos = position p;
          p' = p\<lparr>position := position p + 1\<rparr>;
          hosts = iter (live_hosts p');
          len = length hosts
      in if len \<noteq> 0 then (cycle_slice hosts (pos mod len), p') else ([], p'))"

definition rr_on_up :: "'h \<Rightarrow> ('h, 'z) RoundRobinPolicy_scheme \<Rightarrow> ('h, 'z) RoundRobinPolicy_scheme" where
  "rr_on_up h p = p\<lparr>live_hosts := live_hosts p \<union> {h}\<rparr>"

definition rr_on_down :: "'h \<Rightarrow> ('h, 'z) RoundRobinPolicy_scheme \<Rightarrow> ('h, 'z) RoundRobinPolicy_scheme" where
  "rr_on_down h p = p\<lparr>live_hosts := live_hosts p - {h}\<rparr>"

definition rr_on_add :: "'h \<Rightarrow> ('h, 'z) RoundRobinPolicy_scheme \<Rightarrow> ('h, 'z) RoundRobinPolicy_scheme" where
  "rr_on_add h p = p\<lparr>live_hosts := live_hosts p \<union> {h}\<rparr>"

definition rr_on_remove :: "'h \<Rightarrow> ('h, 'z) RoundRobinPolicy_scheme \<Rightarrow> ('h, 'z) RoundRobinPolicy_scheme" where
  "rr_on_remove h p = p\<lparr>live_hosts := live_hosts p - {h}\<rparr>"

text \<open>A run of plans with no change of membership in between.\<close>

fun rr_plans ::
    "('h set \<Rightarrow> 'h list) \<Rightarrow> nat \<Rightarrow> ('h, 'z) RoundRobinPolicy_scheme \<Rightarrow> 'h list list" where
  "rr_plans iter 0 p = []"
| "rr_plans iter (Suc n) p =
     (let (pl, p') = rr_make_query_plan iter p in pl # rr_plans iter n p')"

section \<open>WhiteListRoundRobinPolicy\<close>

record 'h WhiteListRoundRobinPolicy = "'h RoundRobinPolicy" +
  allowed_hosts_resolved :: "'h list"

definition wl_populate ::
    "nat \<Rightarrow> 'h list \<Rightarrow> 'h WhiteListRoundRobinPolicy \<Rightarrow> 'h WhiteListRoundRobinPolicy" where
  "wl_populate rnd hosts p =
     p\<lparr>live_hosts := {h \<in> set hosts. h \<in> set (allowed_hosts_resolved p)},
       position := if length hosts \<le> 1 then 0 else rnd\<rparr>"

definition wl_distance :: "'h WhiteListRoundRobinPolicy \<Rightarrow> 'h \<Rightarrow> HostDistance" where
  "wl_distance p h = (if h \<in> set (allowed_hosts_resolved p) then LOCAL else IGNORED)"

definition wl_on_up :: "'h \<Rightarrow> 'h WhiteListRoundRobinPolicy \<Rightarrow> 'h WhiteListRoundRobinPolicy" where
  "wl_on_up h p = (if h \<in> set (allowed_hosts_resolved p) then rr_on_up h p else p)"

definition wl_on_add :: "'h \<Rightarrow> 'h WhiteListRoundRobinPolicy \<Rightarrow> 'h WhiteListRoundRobinPolicy" where
  "wl_on_add h p = (if h \<in> set (allowed_hosts_resolved p) then rr_on_add h p else p)"

section \<open>DCAwareRoundRobinPolicy\<close>

text \<open>
  \<open>contact_points\<close> is \<open>None\<close> after \<open>del self._contact_points\<close>, which happens only
  together with setting \<open>local_dc\<close>, after which it is not read again. The dictionary of live
  hosts keeps its insertion order, so it is an association list.
\<close>

record 'h DCAwareRoundRobinPolicy =
  local_dc :: string
  used_hosts_per_remote_dc :: nat
  dc_live_hosts :: "(string \<times> 'h list) list"
  dc_position :: nat
  contact_points :: "'h list option"

definition dca_init :: "string \<Rightarrow> nat \<Rightarrow> 'h DCAwareRoundRobinPolicy" where
  "dca_init dc used =
     \<lparr>local_dc = dc, used_hosts_per_remote_dc = used, dc_live_hosts = [], dc_position = 0,
      contact_points = Some []\<rparr>"

definition dca_dc :: "'h host_store \<Rightarrow> 'h DCAwareRoundRobinPolicy \<Rightarrow> 'h \<Rightarrow> string" where
  "dca_dc hs p h =
     (if truthy (datacenter (hs h)) then the (datacenter (hs h)) else local_dc p)"

text \<open>\<open>itertools.groupby\<close>: one group for each run of equal keys.\<close>

fun groupby :: "('a \<Rightarrow> 'k) \<Rightarrow> 'a list \<Rightarrow> ('k \<times> 'a list) list" where
  "groupby f [] = []"
| "groupby f (x # xs) =
     (case groupby f xs of
        (k, g) # r \<Rightarrow> if k = f x then (k, x # g) # r else (f x, [x]) # (k, g) # r
      | [] \<Rightarrow> [(f x, [x])])"

definition dca_populate ::
    "('h set \<Rightarrow> 'h list) \<Rightarrow> nat \<Rightarrow> 'h list \<Rightarrow> 'h host_store \<Rightarrow> 'h list
       \<Rightarrow> 'h DCAwareRoundRobinPolicy \<Rightarrow> 'h DCAwareRoundRobinPolicy" where
  "dca_populate iter rnd resolved hs hosts p =
     (let live = fold (\<lambda>(dc, g) d. AList.update dc (iter (set g)) d)
                   (groupby (dca_dc hs p) hosts) (dc_live_hosts p);
          p' = p\<lparr>dc_live_hosts := live\<rparr>;
          p'' = (if local_dc p' = [] then p'\<lparr>contact_points := Some resolved\<rparr> else p')
      in p''\<lparr>dc_position := if hosts \<noteq> [] then rnd else 0\<rparr>)"

definition dca_live :: "'h DCAwareRoundRobinPolicy \<Rightarrow> string \<Rightarrow> 'h list" where
  "dca_live p dc = (case map_of (dc_live_hosts p) dc of Some hosts \<Rightarrow> hosts | None \<Rightarrow> [])"

definition dca_distance ::
    "'h host_store \<Rightarrow> 'h DCAwareRoundRobinPolicy \<Rightarrow> 'h \<Rightarrow> HostDistance" where
  "dca_distance hs p h =
     (let dc = dca_dc hs p h
      in if dc = local_dc p then LOCAL
         else if used_hosts_per_remote_dc p = 0 then IGNORED
         else let dc_hosts = dca_live p dc
              in if dc_hosts = [] then IGNORED
                 else if h \<in> set (take (used_hosts_per_remote_dc p) dc_hosts) then REMOTE
                 else IGNORED)"

definition dca_make_query_plan ::
    "'h DCAwareRoundRobinPolicy \<Rightarrow> 'h list \<times> 'h DCAwareRoundRobinPolicy" where
  "dca_make_query_plan p =
     (let pos = dc_position p;
          p' = p\<lparr>dc_position := dc_position p + 1\<rparr>;
          local_live = dca_live p' (local_dc p');
          pos' = (if local_live \<noteq> [] then pos mod length local_live else 0);
          other_dcs = filter (\<lambda>dc. dc \<noteq> local_dc p') (map fst (dc_live_hosts p'))
      in (cycle_slice local_live pos'
            @ concat (map (\<lambda>dc. take (used_hosts_per_remote_dc p') (dca_live p' dc)) other_dcs),
          p'))"

definition dca_on_up ::
    "'h host_store \<Rightarrow> 'h \<Rightarrow> 'h DCAwareRoundRobinPolicy \<Rightarrow> 'h DCAwareRoundRobinPolicy" where
  "dca_on_up hs h p =
     (let p' = (if local_dc p = [] \<and> truthy (datacenter (hs h))
                then case contact_points p of
                       Some cps \<Rightarrow>
                         if h \<in> set cps
                         then p\<lparr>local_dc := the (datacenter (hs h)), contact_points := None\<rparr>
                         else p
                     | None \<Rightarrow> p
                else p);
          dc = dca_dc hs p' h;
          current_hosts = dca_live p' dc
      in if h \<notin> set current_hosts
         then p'\<lparr>dc_live_hosts := AList.update dc (current_hosts @ [h]) (dc_live_hosts p')\<rparr>
         else p')"

definition dca_on_down ::
    "'h host_store \<Rightarrow> 'h \<Rightarrow> 'h DCAwareRoundRobinPolicy \<Rightarrow> 'h DCAwareRoundRobinPolicy" where
  "dca_on_down hs h p =
     (let dc = dca_dc hs p h;
          current_hosts = dca_live p dc
      in if h \<in> set current_hosts
         then let hosts = filter (\<lambda>g. g \<noteq> h) current_hosts
              in if hosts \<noteq> []
                 then p\<lparr>dc_live_hosts := AList.update dc hosts (dc_live_hosts p)\<rparr>
                 else p\<lparr>dc_live_hosts := AList.delete dc (dc_live_hosts p)\<rparr>
         else p)"

definition dca_on_add ::
    "'h host_store \<Rightarrow> 'h \<Rightarrow> 'h DCAwareRoundRobinPolicy \<Rightarrow> 'h DCAwareRoundRobinPolicy" where
  "dca_on_add hs h p = dca_on_up hs h p"

definition dca_on_remove ::
    "'h host_store \<Rightarrow> 'h \<Rightarrow> 'h DCAwareRoundRobinPolicy \<Rightarrow> 'h DCAwareRoundRobinPolicy" where
  "dca_on_remove hs h p = dca_on_down hs h p"

text \<open>
  \<open>ControlConnection._update_location_info\<close>: when the data center or rack read from the
  system tables is new, the host is taken out of the policy, changed, and put back.
\<close>

definition update_location_info ::
    "'h \<Rightarrow> string option \<Rightarrow> string option \<Rightarrow> 'h host_store \<times> 'h DCAwareRoundRobinPolicy
       \<Rightarrow> bool \<times> 'h host_store \<times> 'h DCAwareRoundRobinPolicy" where
  "update_location_info h dc rk = (\<lambda>(hs, p).
     if datacenter (hs h) = dc \<and> rack (hs h) = rk then (False, hs, p)
     else let p' = dca_on_down hs h p;
              hs' = set_location_info h dc rk hs
          in (True, hs', dca_on_up hs' h p'))"

section \<open>TokenAwarePolicy and HostFilterPolicy\<close>

record statement =
  stmt_true :: bool
  stmt_keyspace :: "string option"
  routing_key :: "bytes option"

text \<open>
  The child policy is given by its \<open>distance\<close> and by its \<open>make_query_plan\<close>, the metadata by
  \<open>get_replicas\<close>; \<open>shuffled\<close> is what \<open>random.shuffle\<close> makes of a list. The result is
  the plan, the child's next state, and the replica list as the plan leaves it (\<open>shuffle\<close>
  works in place).
\<close>

definition ta_keyspace :: "string option \<Rightarrow> statement option \<Rightarrow> string option" where
  "ta_keyspace working_keyspace query =
     (case query of
        Some q \<Rightarrow> if stmt_true q \<and> truthy (stmt_keyspace q) then stmt_keyspace q
                   else working_keyspace
      | None \<Rightarrow> working_keyspace)"

definition ta_make_query_plan ::
    "'h host_store \<Rightarrow> ('h \<Rightarrow> HostDistance)
       \<Rightarrow> (string option \<Rightarrow> statement option \<Rightarrow> 'h list \<times> 's)
       \<Rightarrow> (string \<Rightarrow> bytes \<Rightarrow> 'h list) \<Rightarrow> bool \<Rightarrow> ('h list \<Rightarrow> 'h list)
       \<Rightarrow> string option \<Rightarrow> statement option \<Rightarrow> 'h list \<times> 's \<times> 'h list option" where
  "ta_make_query_plan hs distance child_plan get_replicas shuffle_replicas shuffled
       working_keyspace query =
     (let keyspace = ta_keyspace working_keyspace query;
          (child, s') = child_plan keyspace query
      in case query of
           None \<Rightarrow> (child, s', None)
         | Some q \<Rightarrow>
             (case (routing_key q, keyspace) of
                (Some key, Some ks) \<Rightarrow>
                  (let replicas0 = get_replicas ks key;
                       replicas = (if shuffle_replicas then shuffled replicas0 else replicas0)
                   in (filter (\<lambda>r. is_up_true hs r \<and> distance r = LOCAL) replicas
                         @ filter (\<lambda>h. h \<notin> set replicas \<or> distance h = REMOTE) child,
                       s', Some replicas))
              | _ \<Rightarrow> (child, s', None)))"

definition hf_distance ::
    "('h \<Rightarrow> bool) \<Rightarrow> ('h \<Rightarrow> HostDistance) \<Rightarrow> 'h \<Rightarrow> HostDistance" where
  "hf_distance predicate distance h = (if predicate h then distance h else IGNORED)"

definition hf_make_query_plan :: "('h \<Rightarrow> bool) \<Rightarrow> 'h list \<times> 's \<Rightarrow> 'h list \<times> 's" where
  "hf_make_query_plan predicate child = (filter predicate (fst child), snd child)"

section \<open>Conviction and reconnection\<close>

datatype connection_exc = OperationTimedOut | OtherConnectionError

definition simple_add_failure :: "connection_exc \<Rightarrow> bool" where
  "simple_add_failure e \<longleftrightarrow> e \<noteq> OperationTimedOut"

text \<open>
  A schedule of delays gives the delay before attempt number \<open>i\<close>, or \<open>None\<close> once it is
  exhausted. Delays are rational numbers: the delays of the source are floating point numbers
  that are only multiplied by powers of two.
\<close>

type_synonym schedule = "nat \<Rightarrow> rat option"

record ConstantReconnectionPolicy =
  crp_delay :: rat
  crp_max_attempts :: "int option"

definition constant_init :: "rat \<Rightarrow> int option \<Rightarrow> ConstantReconnectionPolicy res" where
  "constant_init delay max_attempts =
     (if delay < 0 then Inl ValueError
      else if (case max_attempts of Some m \<Rightarrow> m < 0 | None \<Rightarrow> False) then Inl ValueError
      else Inr \<lparr>crp_delay = delay, crp_max_attempts = max_attempts\<rparr>)"

definition constant_new_schedule :: "ConstantReconnectionPolicy \<Rightarrow> schedule" where
  "constant_new_schedule p =
     (case crp_max_attempts p of
        Some m \<Rightarrow> if m \<noteq> 0 then (\<lambda>i. if int i < m then Some (crp_delay p) else None)
                   else (\<lambda>i. Some (crp_delay p))
      | None \<Rightarrow> (\<lambda>i. Some (crp_delay p)))"

text \<open>
  \<open>float_base\<close> says whether \<open>base_delay\<close> is a \<open>float\<close>: then \<open>base_delay * (2 ** i)\<close>
  converts \<open>2 ** i\<close>, which raises \<open>OverflowError\<close> from \<open>2 ** 1024\<close> on.
\<close>

record ExponentialReconnectionPolicy =
  base_delay :: rat
  float_base :: bool
  max_delay :: rat
  erp_max_attempts :: "int option"

definition exponential_init ::
    "rat \<Rightarrow> bool \<Rightarrow> rat \<Rightarrow> int option \<Rightarrow> ExponentialReconnectionPolicy res" where
  "exponential_init base flt mx max_attempts =
     (if base < 0 \<or> mx < 0 then Inl ValueError
      else if mx < base then Inl ValueError
      else if (case max_attempts of Some m \<Rightarrow> m < 0 | None \<Rightarrow> False) then Inl ValueError
      else Inr \<lparr>base_delay = base, float_base = flt, max_delay = mx, erp_max_attempts = max_attempts\<rparr>)"

definition scaled_delay :: "ExponentialReconnectionPolicy \<Rightarrow> nat \<Rightarrow> rat option" where
  "scaled_delay p i =
     (if float_base p \<and> 1024 \<le> i then None else Some (base_delay p * 2 ^ i))"

text \<open>The generator's local variables \<open>i\<close> and \<open>overflowed\<close>, and one turn of its loop.\<close>

definition exponential_step ::
    "ExponentialReconnectionPolicy \<Rightarrow> nat \<times> bool \<Rightarrow> (rat \<times> nat \<times> bool) option" where
  "exponential_step p = (\<lambda>(i, overflowed).
     if (case erp_max_attempts p of None \<Rightarrow> True | Some m \<Rightarrow> int i < m)
     then if overflowed then Some (max_delay p, i + 1, overflowed)
          else case scaled_delay p i of
                 Some d \<Rightarrow> Some (min d (max_delay p), i + 1, overflowed)
               | None \<Rightarrow> Some (max_delay p, i + 1, True)
     else None)"

fun exponential_state :: "ExponentialReconnectionPolicy \<Rightarrow> nat \<Rightarrow> (nat \<times> bool) option" where
  "exponential_state p 0 = Some (0, False)"
| "exponential_state p (Suc n) =
     (case exponential_state p n of
        Some st \<Rightarrow> (case exponential_step p st of Some (d, st') \<Rightarrow> Some st' | None \<Rightarrow> None)
      | None \<Rightarrow> None)"

definition exponential_new_schedule :: "ExponentialReconnectionPolicy \<Rightarrow> schedule" where
  "exponential_new_schedule p n =
     (case exponential_state p n of
        Some st \<Rightarrow> map_option fst (exponential_step p st)
      | None \<Rightarrow> None)"

section \<open>Retry\<close>

datatype write_type = SIMPLE | BATCH | UNLOGGED_BATCH | COUNTER | BATCH_LOG | CAS | VIEW | CDC

definition write_type_of_name :: "string \<Rightarrow> write_type option" where
  "write_type_of_name s = map_of
     [(''SIMPLE'', SIMPLE), (''BATCH'', BATCH), (''UNLOGGED_BATCH'', UNLOGGED_BATCH),
      (''COUNTER'', COUNTER), (''BATCH_LOG'', BATCH_LOG), (''CAS'', CAS), (''VIEW'', VIEW),
      (''CDC'', CDC)] s"

datatype retry_decision = RETRY | RETHROW | IGNORE | RETRY_NEXT_HOST

type_synonym consistency = int

definition CL_ONE :: consistency where "CL_ONE = 1"
definition CL_TWO :: consistency where "CL_TWO = 2"
definition CL_THREE :: consistency where "CL_THREE = 3"

type_synonym decision = "retry_decision \<times> consistency option"

definition retry_on_read_timeout ::
    "consistency \<Rightarrow> int \<Rightarrow> int \<Rightarrow> bool \<Rightarrow> nat \<Rightarrow> decision" where
  "retry_on_read_timeout consistency required received data_retrieved retry_num =
     (if retry_num \<noteq> 0 then (RETHROW, None)
      else if received \<ge> required \<and> \<not> data_retrieved then (RETRY, Some consistency)
      else (RETHROW, None))"

definition retry_on_write_timeout ::
    "consistency \<Rightarrow> write_type \<Rightarrow> int \<Rightarrow> int \<Rightarrow> nat \<Rightarrow> decision" where
  "retry_on_write_timeout consistency wt required received retry_num =
     (if retry_num \<noteq> 0 then (RETHROW, None)
      else if wt = BATCH_LOG then (RETRY, Some consistency)
      else (RETHROW, None))"

definition retry_on_unavailable :: "consistency \<Rightarrow> int \<Rightarrow> int \<Rightarrow> nat \<Rightarrow> decision" where
  "retry_on_unavailable consistency required alive retry_num =
     (if retry_num = 0 then (RETRY_NEXT_HOST, Some consistency) else (RETHROW, None))"

definition fallthrough_on_read_timeout ::
    "consistency \<Rightarrow> int \<Rightarrow> int \<Rightarrow> bool \<Rightarrow> nat \<Rightarrow> decision" where
  "fallthrough_on_read_timeout consistency required received data_retrieved retry_num =
     (RETHROW, None)"

definition fallthrough_on_write_timeout ::
    "consistency \<Rightarrow> write_type \<Rightarrow> int \<Rightarrow> int \<Rightarrow> nat \<Rightarrow> decision" where
  "fallthrough_on_write_timeout consistency wt required received retry_num = (RETHROW, None)"

definition fallthrough_on_unavailable :: "consistency \<Rightarrow> int \<Rightarrow> int \<Rightarrow> nat \<Rightarrow> decision" where
  "fallthrough_on_unavailable consistency required alive retry_num = (RETHROW, None)"

definition pick_consistency :: "int \<Rightarrow> decision" where
  "pick_consistency num_responses =
     (if num_responses \<ge> 3 then (RETRY, Some CL_THREE)
      else if num_responses \<ge> 2 then (RETRY, Some CL_TWO)
      else if num_responses \<ge> 1 then (RETRY, Some CL_ONE)
      else (RETHROW, None))"

definition downgrading_on_read_timeout ::
    "consistency \<Rightarrow> int \<Rightarrow> int \<Rightarrow> bool \<Rightarrow> nat \<Rightarrow> decision" where
  "downgrading_on_read_timeout consistency required received data_retrieved retry_num =
     (if retry_num \<noteq> 0 then (RETHROW, None)
      else if received < required then pick_consistency received
      else if \<not> data_retrieved then (RETRY, Some consistency)
      else (RETHROW, None))"

definition downgrading_on_write_timeout ::
    "consistency \<Rightarrow> write_type \<Rightarrow> int \<Rightarrow> int \<Rightarrow> nat \<Rightarrow> decision" where
  "downgrading_on_write_timeout consistency wt required received retry_num =
     (if retry_num \<noteq> 0 then (RETHROW, None)
      else if wt \<in> {SIMPLE, BATCH, COUNTER}
      then if received > 0 then (IGNORE, None) else (RETHROW, None)
      else if wt = UNLOGGED_BATCH then pick_consistency received
      else if wt = BATCH_LOG then (RETRY, Some consistency)
      else (RETHROW, None))"

definition downgrading_on_unavailable :: "consistency \<Rightarrow> int \<Rightarrow> int \<Rightarrow> nat \<Rightarrow> decision" where
  "downgrading_on_unavailable consistency required alive retry_num =
     (if retry_num \<noteq> 0 then (RETHROW, None) else pick_consistency alive)"

section \<open>Speculative execution\<close>

record ConstantSpeculativeExecutionPlan =
  spec_delay :: rat
  remaining :: int

definition spec_new_plan :: "rat \<Rightarrow> int \<Rightarrow> ConstantSpeculativeExecutionPlan" where
  "spec_new_plan delay max_attempts = \<lparr>spec_delay = delay, remaining = max_attempts\<rparr>"

definition next_execution ::
    "ConstantSpeculativeExecutionPlan \<Rightarrow> rat \<times> ConstantSpeculativeExecutionPlan" where
  "next_execution p =
     (if remaining p > 0 then (spec_delay p, p\<lparr>remaining := remaining p - 1\<rparr>) else (- 1, p))"

definition no_next_execution :: rat where
  "no_next_execution = - 1"

section \<open>RoundRobinPolicy: permutation and fairness\<close>

interpretation nat_iter: set_iteration "sorted_list_of_set :: nat set \<Rightarrow> nat list"
  by unfold_locales simp_all

lemma cycle_slice_mset: "mset (cycle_slice xs pos) = mset xs"
proof -
  have "mset (rotate pos xs) = mset (take (pos mod length xs) xs @ drop (pos mod length xs) xs)"
    by (simp add: rotate_drop_take union_commute del: append_take_drop_id)
  then show ?thesis by (simp add: cycle_slice_rotate)
qed

lemma hd_cycle_slice: "xs \<noteq> [] \<Longrightarrow> hd (cycle_slice xs pos) = xs ! (pos mod length xs)"
  by (simp add: cycle_slice_rotate hd_rotate_conv_nth)

lemma rr_plan_list:
  "fst (rr_make_query_plan iter p) =
     (if iter (live_hosts p) = [] then []
      else cycle_slice (iter (live_hosts p)) (position p mod length (iter (live_hosts p))))"
  "snd (rr_make_query_plan iter p) = p\<lparr>position := position p + 1\<rparr>"
  by (simp_all add: rr_make_query_plan_def Let_def)

lemma rr_plans_nth:
  assumes "iter (live_hosts p) = xs" "xs \<noteq> []"
  shows "rr_plans iter n p = map (\<lambda>i. cycle_slice xs ((position p + i) mod length xs)) [0..<n]"
  using assms
proof (induction n arbitrary: p)
  case (Suc n)
  let ?p = "p\<lparr>position := position p + 1\<rparr>"
  have "rr_plans iter n ?p = map (\<lambda>i. cycle_slice xs ((position p + Suc i) mod length xs)) [0..<n]"
    using Suc.IH [of ?p] Suc.prems by simp
  moreover have "rr_plans iter (Suc n) p = cycle_slice xs (position p mod length xs) # rr_plans iter n ?p"
    using Suc.prems rr_plan_list [of iter p] by (simp add: split_beta)
  ultimately show ?case by (simp only: map_upt_Suc add_0_right)
qed simp

text \<open>Each run of \<open>len(xs)\<close> positions visits each index once.\<close>

lemma mset_round:
  "mset (map (\<lambda>i. xs ! ((pos + i) mod length xs)) [0..<k * length xs]) = repeat_mset k (mset xs)"
proof (induction k)
  case (Suc k)
  let ?f = "\<lambda>i. xs ! ((pos + i) mod length xs)"
  have "[0..<Suc k * length xs] = [0..<k * length xs] @ [k * length xs..<k * length xs + length xs]"
    using upt_add_eq_append [of 0 "k * length xs" "length xs"] by (simp add: add.commute)
  then have "mset (map ?f [0..<Suc k * length xs])
      = mset (map ?f [0..<k * length xs]) + mset (map ?f [k * length xs..<k * length xs + length xs])"
    by (simp only: map_append mset_append)
  also have "map ?f [k * length xs..<k * length xs + length xs] = cycle_slice xs (pos + k * length xs)"
    unfolding cycle_slice_def by (rule nth_equalityI) (simp_all add: add.assoc)
  finally show ?case unfolding cycle_slice_mset Suc by simp
qed simp

text \<open>
  C26: round robin is fair. Every plan is a permutation of the live hosts, and while membership
  does not change, \<open>k * n\<close> consecutive plans over \<open>n\<close> live hosts start \<open>k\<close> times with each
  host, whatever the start position and the iteration order of the host set.
\<close>

theorem round_robin_fair:
  assumes "set_iteration iter" "finite (live_hosts p)" "live_hosts p \<noteq> {}"
  shows "mset (map hd (rr_plans iter (k * card (live_hosts p)) p)) = repeat_mset k (mset_set (live_hosts p))
    \<and> (\<forall>pl \<in> set (rr_plans iter n p). mset pl = mset_set (live_hosts p))"
proof -
  let ?xs = "iter (live_hosts p)"
  have xs: "?xs \<noteq> []" "length ?xs = card (live_hosts p)" "mset ?xs = mset_set (live_hosts p)"
    using assms(3) set_iteration.iter_eq_Nil [OF assms(1, 2)] set_iteration.length_iter [OF assms(1, 2)]
      set_iteration.set_iter [OF assms(1, 2)] mset_set_set [OF set_iteration.distinct_iter [OF assms(1, 2)]]
    by simp_all
  note plans = rr_plans_nth [of iter p ?xs, OF refl xs(1)]
  have "map hd (rr_plans iter m p) = map (\<lambda>i. ?xs ! ((position p + i) mod length ?xs)) [0..<m]" for m
    by (simp add: plans hd_cycle_slice xs(1))
  then have "mset (map hd (rr_plans iter (k * length ?xs) p)) = repeat_mset k (mset ?xs)"
    using mset_round [of ?xs "position p" k] by simp
  then show ?thesis by (auto simp: xs(2, 3) plans cycle_slice_mset)
qed

theorem round_robin_fair_witness:
  "mset (map hd (rr_plans sorted_list_of_set (2 * card {4, 7, 9 :: nat})
      \<lparr>live_hosts = {4, 7, 9 :: nat}, position = 5\<rparr>)) = repeat_mset 2 (mset_set {4, 7, 9})"
  using round_robin_fair [OF nat_iter.set_iteration_axioms,
      of "\<lparr>live_hosts = {4, 7, 9}, position = 5\<rparr>" 2 0] by simp

section \<open>The load balancing contract\<close>

sublocale set_iteration \<subseteq> rr: load_balancer
  "\<lambda>p. finite (live_hosts p)" rr_distance "\<lambda>p. fst (rr_make_query_plan iter p)"
proof
  fix p :: "('h, 'z) RoundRobinPolicy_scheme" and h
  assume "finite (live_hosts p)"
  then have "mset (cycle_slice (iter (live_hosts p)) n) = mset_set (live_hosts p)" for n
    by (simp add: cycle_slice_mset set_iter distinct_iter flip: mset_set_set)
  then show "distinct (fst (rr_make_query_plan iter p))"
    by (metis rr_plan_list(1) distinct.simps(1) cycle_slice_rotate distinct_rotate distinct_iter
        \<open>finite (live_hosts p)\<close>)
qed (simp add: rr_distance_def)

definition wl_inv :: "'h WhiteListRoundRobinPolicy \<Rightarrow> bool" where
  "wl_inv p \<longleftrightarrow> finite (live_hosts p) \<and> live_hosts p \<subseteq> set (allowed_hosts_resolved p)"

sublocale set_iteration \<subseteq> wl: load_balancer
  wl_inv wl_distance "\<lambda>p. fst (rr_make_query_plan iter p)"
proof
  fix p :: "'h WhiteListRoundRobinPolicy" and h
  assume "wl_inv p"
  then show "distinct (fst (rr_make_query_plan iter p))"
    using rr.plan_distinct [of p] by (simp add: wl_inv_def)
  assume "h \<in> set (fst (rr_make_query_plan iter p))"
  then have "h \<in> live_hosts p"
    using \<open>wl_inv p\<close> by (auto simp: rr_plan_list cycle_slice_rotate set_iter wl_inv_def split: if_splits)
  then show "wl_distance p h \<noteq> IGNORED"
    using \<open>wl_inv p\<close> by (auto simp: wl_distance_def wl_inv_def)
qed

lemma wl_operations_inv:
  "wl_inv p \<Longrightarrow> wl_inv (wl_populate rnd hosts p)"
  "wl_inv p \<Longrightarrow> wl_inv (wl_on_up h p)"
  "wl_inv p \<Longrightarrow> wl_inv (wl_on_add h p)"
  "wl_inv p \<Longrightarrow> wl_inv (rr_on_down h p)"
  "wl_inv p \<Longrightarrow> wl_inv (rr_on_remove h p)"
  "wl_inv p \<Longrightarrow> wl_inv (snd (rr_make_query_plan iter p))"
  by (auto simp: wl_inv_def wl_populate_def wl_on_up_def wl_on_add_def rr_on_up_def rr_on_add_def
      rr_on_down_def rr_on_remove_def rr_plan_list)

context load_balancer
begin

text \<open>Filtering the plan of a policy by a predicate keeps the contract.\<close>

lemma host_filter:
  "load_balancer inv (\<lambda>s. hf_distance predicate (distance s))
     (\<lambda>s. fst (hf_make_query_plan predicate (plan s, s)))"
  by unfold_locales
    (auto simp: hf_make_query_plan_def hf_distance_def plan_distinct plan_used)

text \<open>Putting the local replicas first keeps the contract, when no replica is listed twice.\<close>

lemma token_aware_distinct:
  assumes "inv s" "\<And>xs. distinct xs \<Longrightarrow> distinct (shuffled xs)"
    "\<And>ks q. fst (child_plan ks q) = plan s"
    "\<And>ks key. distinct (get_replicas ks key)"
  shows "distinct (fst (ta_make_query_plan hs (distance s) child_plan get_replicas shuffle_replicas
      shuffled working_keyspace query))"
  using assms plan_distinct [OF assms(1)]
  by (auto simp: ta_make_query_plan_def Let_def split_beta split: option.splits)

lemma token_aware_used:
  assumes "inv s" "\<And>ks q. fst (child_plan ks q) = plan s"
    "h \<in> set (fst (ta_make_query_plan hs (distance s) child_plan get_replicas shuffle_replicas
      shuffled working_keyspace query))"
  shows "distance s h \<noteq> IGNORED"
  using assms plan_used [OF assms(1), of h]
  by (auto simp: ta_make_query_plan_def Let_def split_beta split: option.splits if_splits)

end


section \<open>DCAwareRoundRobinPolicy: local hosts first\<close>

definition dca_inv :: "'h host_store \<Rightarrow> 'h DCAwareRoundRobinPolicy \<Rightarrow> bool" where
  "dca_inv hs p \<longleftrightarrow>
     local_dc p \<noteq> [] \<and> distinct (map fst (dc_live_hosts p))
     \<and> (\<forall>(dc, l) \<in> set (dc_live_hosts p). l \<noteq> [] \<and> distinct l \<and> (\<forall>h \<in> set l. dca_dc hs p h = dc))"

lemma dca_invD:
  "dca_inv hs p \<Longrightarrow> (d, l) \<in> set (dc_live_hosts p) \<Longrightarrow> g \<in> set l \<Longrightarrow> dca_dc hs p g = d"
  unfolding dca_inv_def by blast

lemma dca_live_inv:
  assumes "dca_inv hs p"
  shows "distinct (dca_live p dc)" "h \<in> set (dca_live p dc) \<Longrightarrow> dca_dc hs p h = dc"
proof -
  have "l \<noteq> [] \<and> distinct l \<and> (\<forall>h \<in> set l. dca_dc hs p h = dc)" if "map_of (dc_live_hosts p) dc = Some l" for l
    using assms map_of_SomeD [OF that] unfolding dca_inv_def by fastforce
  then show "distinct (dca_live p dc)" "h \<in> set (dca_live p dc) \<Longrightarrow> dca_dc hs p h = dc"
    by (cases "map_of (dc_live_hosts p) dc"; simp add: dca_live_def)+
qed

definition other_dcs :: "'h DCAwareRoundRobinPolicy \<Rightarrow> string list" where
  "other_dcs p = filter (\<lambda>dc. dc \<noteq> local_dc p) (map fst (dc_live_hosts p))"

definition remote_plan :: "'h DCAwareRoundRobinPolicy \<Rightarrow> 'h list" where
  "remote_plan p =
     concat (map (\<lambda>dc. take (used_hosts_per_remote_dc p) (dca_live p dc)) (other_dcs p))"

lemma dca_live_position [simp]: "dca_live (p\<lparr>dc_position := n\<rparr>) = dca_live p"
  by (simp add: dca_live_def fun_eq_iff)

lemma dca_plan:
  "fst (dca_make_query_plan p) = rotate (dc_position p) (dca_live p (local_dc p)) @ remote_plan p"
  "snd (dca_make_query_plan p) = p\<lparr>dc_position := dc_position p + 1\<rparr>"
  by (auto simp: dca_make_query_plan_def Let_def cycle_slice_rotate remote_plan_def other_dcs_def
      simp flip: rotate_conv_mod)

lemma distinct_concat_by_key:
  assumes "distinct ks" "\<And>k. k \<in> set ks \<Longrightarrow> distinct (f k)"
    "\<And>k h. k \<in> set ks \<Longrightarrow> h \<in> set (f k) \<Longrightarrow> key h = k"
  shows "distinct (concat (map f ks))"
  using assms
proof (induction ks)
  case (Cons k ks)
  have "set (f k) \<inter> set (concat (map f ks)) = {}"
  proof (rule ccontr)
    assume "\<not> ?thesis"
    then obtain h k' where "h \<in> set (f k)" "k' \<in> set ks" "h \<in> set (f k')" by auto
    with Cons.prems(3) [of k h] Cons.prems(3) [of k' h] Cons.prems(1) show False by auto
  qed
  then show ?case using Cons by auto
qed simp

lemma filter_concat_by_key:
  assumes "distinct ks" "\<And>k h. k \<in> set ks \<Longrightarrow> h \<in> set (f k) \<Longrightarrow> key h = k"
    "\<And>k. k \<in> set ks \<Longrightarrow> length (f k) \<le> n"
  shows "length (filter (\<lambda>h. key h = c) (concat (map f ks))) \<le> n"
  using assms
proof (induction ks)
  case (Cons k ks)
  show ?case
  proof (cases "k = c")
    case True
    have "key h \<noteq> c" if h: "h \<in> set (concat (map f ks))" for h
    proof -
      obtain k' where k': "k' \<in> set ks" "h \<in> set (f k')" using h by auto
      then have "key h = k'" by (intro Cons.prems(2)) simp_all
      moreover have "k' \<noteq> k" using k'(1) Cons.prems(1) by auto
      ultimately show ?thesis using True by simp
    qed
    then have "filter (\<lambda>h. key h = c) (concat (map f ks)) = []"
      by (simp only: filter_empty_conv) blast
    moreover have "length (filter (\<lambda>h. key h = c) (f k)) \<le> n"
      using Cons.prems(3) [of k] length_filter_le order_trans by (metis list.set_intros(1))
    ultimately show ?thesis by simp
  next
    case False
    have "key h = k" if "h \<in> set (f k)" for h
      using that by (intro Cons.prems(2)) simp_all
    with False have "filter (\<lambda>h. key h = c) (f k) = []"
      by (auto simp: filter_empty_conv)
    then show ?thesis using Cons by simp
  qed
qed simp

lemma remote_plan_inv:
  assumes "dca_inv hs p"
  shows "distinct (remote_plan p)"
    and "h \<in> set (remote_plan p) \<Longrightarrow> dca_distance hs p h = REMOTE \<and> dca_dc hs p h \<noteq> local_dc p"
proof -
  have "distinct (other_dcs p)" using assms by (simp add: dca_inv_def other_dcs_def)
  then show "distinct (remote_plan p)"
    unfolding remote_plan_def using dca_live_inv [OF assms]
    by (intro distinct_concat_by_key [where key = "dca_dc hs p"]) (auto dest: in_set_takeD)
  assume "h \<in> set (remote_plan p)"
  then obtain dc where dc: "dc \<noteq> local_dc p" "h \<in> set (take (used_hosts_per_remote_dc p) (dca_live p dc))"
    by (auto simp: remote_plan_def other_dcs_def)
  then have live: "h \<in> set (dca_live p dc)" by (blast dest: in_set_takeD)
  moreover have "used_hosts_per_remote_dc p \<noteq> 0" using dc(2) by (rule contrapos_pn) simp
  ultimately have "dca_dc hs p h = dc" "dca_live p dc \<noteq> []" "used_hosts_per_remote_dc p \<noteq> 0"
    using dca_live_inv(2) [OF assms live] by auto
  with dc show "dca_distance hs p h = REMOTE \<and> dca_dc hs p h \<noteq> local_dc p"
    by (simp add: dca_distance_def)
qed

interpretation dca: load_balancer "dca_inv hs" "dca_distance hs" "\<lambda>p. fst (dca_make_query_plan p)"
  for hs :: "'h host_store"
proof
  fix p :: "'h DCAwareRoundRobinPolicy" and h
  assume inv: "dca_inv hs p"
  have loc: "dca_dc hs p h = local_dc p" if "h \<in> set (dca_live p (local_dc p))" for h
    using dca_live_inv(2) [OF inv that] .
  then show "distinct (fst (dca_make_query_plan p))"
    using remote_plan_inv [OF inv] dca_live_inv(1) [OF inv] by (auto simp: dca_plan)
  assume "h \<in> set (fst (dca_make_query_plan p))"
  then show "dca_distance hs p h \<noteq> IGNORED"
    using loc [of h] remote_plan_inv(2) [OF inv, of h] by (auto simp: dca_plan dca_distance_def)
qed


text \<open>Every operation keeps the invariant.\<close>

lemma update_keys_distinct: "distinct (map fst al) \<Longrightarrow> distinct (map fst (AList.update k v al))"
  by (rule distinct_update)

lemma set_update_subset: "distinct (map fst al) \<Longrightarrow> set (AList.update k v al) \<subseteq> insert (k, v) (set al)"
  by (induction al) auto

lemma set_delete_subset: "set (AList.delete k al) \<subseteq> set al"
  by (auto simp: AList.delete_eq)

lemma dca_dc_live [simp]: "dca_dc hs (p\<lparr>dc_live_hosts := x\<rparr>) = dca_dc hs p"
  by (simp add: dca_dc_def fun_eq_iff)

lemma dca_inv_update:
  assumes "dca_inv hs p" "l \<noteq> []" "distinct l" "\<And>h. h \<in> set l \<Longrightarrow> dca_dc hs p h = dc"
  shows "dca_inv hs (p\<lparr>dc_live_hosts := AList.update dc l (dc_live_hosts p)\<rparr>)"
proof -
  have "distinct (map fst (dc_live_hosts p))" using assms(1) by (simp add: dca_inv_def)
  from set_update_subset [OF this, of dc l] update_keys_distinct [OF this, of dc l] assms
  show ?thesis by (fastforce simp: dca_inv_def)
qed

lemma dca_inv_delete:
  "dca_inv hs p \<Longrightarrow> dca_inv hs (p\<lparr>dc_live_hosts := AList.delete dc (dc_live_hosts p)\<rparr>)"
  using set_delete_subset [of dc "dc_live_hosts p"] distinct_delete [of "dc_live_hosts p" dc]
  by (fastforce simp: dca_inv_def)

lemma dca_on_up_inv:
  assumes "dca_inv hs p"
  shows "dca_inv hs (dca_on_up hs h p)"
proof -
  let ?dc = "dca_dc hs p h" and ?l = "dca_live p (dca_dc hs p h)"
  have dc: "dca_dc hs p g = ?dc" if "g \<in> set (?l @ [h])" for g
    using that dca_live_inv(2) [OF assms, of g ?dc] by (cases "g = h") simp_all
  have "h \<notin> set ?l \<Longrightarrow>
      dca_inv hs (p\<lparr>dc_live_hosts := AList.update ?dc (?l @ [h]) (dc_live_hosts p)\<rparr>)"
    by (rule dca_inv_update [OF assms _ _ dc]) (simp_all add: dca_live_inv(1) [OF assms])
  moreover have "local_dc p \<noteq> []" using assms by (simp add: dca_inv_def)
  ultimately show ?thesis using assms by (simp add: dca_on_up_def Let_def)
qed

lemma dca_on_down_inv:
  assumes "dca_inv hs p"
  shows "dca_inv hs (dca_on_down hs h p)"
proof -
  let ?dc = "dca_dc hs p h" and ?l = "dca_live p (dca_dc hs p h)"
  let ?l' = "filter (\<lambda>g. g \<noteq> h) ?l"
  have dc: "dca_dc hs p g = ?dc" if "g \<in> set ?l'" for g
    using that by (intro dca_live_inv(2) [OF assms]) simp
  have "?l' \<noteq> [] \<Longrightarrow>
      dca_inv hs (p\<lparr>dc_live_hosts := AList.update ?dc ?l' (dc_live_hosts p)\<rparr>)"
    by (rule dca_inv_update [OF assms _ _ dc]) (simp_all add: dca_live_inv(1) [OF assms])
  then show ?thesis
    using assms dca_inv_delete [OF assms, of ?dc] by (simp add: dca_on_down_def Let_def)
qed

lemma dca_on_down_gone:
  assumes "dca_inv hs p"
  shows "(dc, l) \<in> set (dc_live_hosts (dca_on_down hs h p)) \<Longrightarrow> h \<notin> set l"
proof -
  have inv: "dca_inv hs (dca_on_down hs h p)" by (rule dca_on_down_inv [OF assms])
  then have d: "distinct (map fst (dc_live_hosts (dca_on_down hs h p)))" by (simp add: dca_inv_def)
  assume l: "(dc, l) \<in> set (dc_live_hosts (dca_on_down hs h p))"
  show "h \<notin> set l"
  proof
    assume h: "h \<in> set l"
    have "dca_dc hs (dca_on_down hs h p) = dca_dc hs p"
      by (auto simp: dca_on_down_def dca_dc_def Let_def fun_eq_iff)
    moreover have "dca_dc hs (dca_on_down hs h p) h = dc" using inv l h by (auto simp: dca_inv_def)
    ultimately have "dca_live (dca_on_down hs h p) (dca_dc hs p h) = l"
      using map_of_is_SomeI [OF d l] by (simp add: dca_live_def)
    moreover have "h \<notin> set (dca_live (dca_on_down hs h p) (dca_dc hs p h))"
      using assms by (auto simp: dca_on_down_def Let_def dca_live_def update_conv' delete_conv' dca_inv_def)
    ultimately show False using h by simp
  qed
qed

lemma update_location_inv:
  assumes "dca_inv hs p" "update_location_info h dc rk (hs, p) = (b, hs', p')"
  shows "dca_inv hs' p'"
proof (cases "datacenter (hs h) = dc \<and> rack (hs h) = rk")
  case False
  let ?p = "dca_on_down hs h p" and ?hs = "set_location_info h dc rk hs"
  have same: "dca_dc ?hs ?p g = dca_dc hs ?p g" if "g \<noteq> h" for g
    using that by (simp add: dca_dc_def set_location_info_def)
  have inv: "dca_inv hs ?p" by (rule dca_on_down_inv [OF assms(1)])
  have "dca_dc ?hs ?p g = d" if "(d, l) \<in> set (dc_live_hosts ?p)" "g \<in> set l" for d l g
    using dca_on_down_gone [OF assms(1) that(1)] same [of g] dca_invD [OF inv that] that(2) by metis
  with inv have "dca_inv ?hs ?p" unfolding dca_inv_def by blast
  then have "dca_inv ?hs (dca_on_up ?hs h ?p)" by (rule dca_on_up_inv)
  moreover from assms(2) False have "(True, ?hs, dca_on_up ?hs h ?p) = (b, hs', p')"
    by (simp only: update_location_info_def Let_def prod.case if_False)
  ultimately show ?thesis by blast
next
  case True
  with assms show ?thesis by (simp add: update_location_info_def)
qed

lemma groupby_groups:
  "(k, g) \<in> set (groupby f xs) \<Longrightarrow> g \<noteq> [] \<and> set g \<subseteq> set xs \<and> (\<forall>x \<in> set g. f x = k)"
  by (induction xs arbitrary: k g) (auto split: list.splits prod.splits if_splits, force+)


lemma dca_dc_position [simp]: "dca_dc hs (p\<lparr>dc_position := n\<rparr>) = dca_dc hs p"
  by (simp add: dca_dc_def fun_eq_iff)

lemma dca_inv_position [simp]: "dca_inv hs (p\<lparr>dc_position := n\<rparr>) \<longleftrightarrow> dca_inv hs p"
  by (simp add: dca_inv_def)

lemma dca_inv_fold_update:
  assumes "dca_inv hs p" "\<And>k l. (k, l) \<in> set gs \<Longrightarrow> l \<noteq> [] \<and> distinct l \<and> (\<forall>h \<in> set l. dca_dc hs p h = k)"
  shows "dca_inv hs (p\<lparr>dc_live_hosts := fold (\<lambda>(k, l) d. AList.update k l d) gs (dc_live_hosts p)\<rparr>)"
  using assms
proof (induction gs arbitrary: p)
  case (Cons g gs)
  obtain k l where g: "g = (k, l)" by fastforce
  have "l \<noteq> []" "distinct l" "\<And>h. h \<in> set l \<Longrightarrow> dca_dc hs p h = k"
    using Cons.prems(2) [of k l] g by auto
  then have "dca_inv hs (p\<lparr>dc_live_hosts := AList.update k l (dc_live_hosts p)\<rparr>)" (is "dca_inv hs ?p")
    by (rule dca_inv_update [OF Cons.prems(1)])
  then have "dca_inv hs (?p\<lparr>dc_live_hosts := fold (\<lambda>(k, l) d. AList.update k l d) gs (dc_live_hosts ?p)\<rparr>)"
  proof (rule Cons.IH)
    fix k' l' assume "(k', l') \<in> set gs"
    then have "(k', l') \<in> set (g # gs)" by simp
    from Cons.prems(2) [OF this] show "l' \<noteq> [] \<and> distinct l' \<and> (\<forall>h \<in> set l'. dca_dc hs ?p h = k')"
      by simp
  qed
  then show ?case by (simp add: g)
qed simp

lemma dca_populate_inv:
  assumes "set_iteration iter" "dca_inv hs p"
  shows "dca_inv hs (dca_populate iter rnd resolved hs hosts p)"
proof -
  let ?gs = "map (\<lambda>(k, g). (k, iter (set g))) (groupby (dca_dc hs p) hosts)"
  let ?live = "fold (\<lambda>(k, g) d. AList.update k (iter (set g)) d) (groupby (dca_dc hs p) hosts) (dc_live_hosts p)"
  have "fold (\<lambda>(k, g) d. AList.update k (iter (set g)) d) xs d
      = fold (\<lambda>(k, l) d. AList.update k l d) (map (\<lambda>(k, g). (k, iter (set g))) xs) d" for xs d
    by (induction xs arbitrary: d) auto
  moreover have "l \<noteq> [] \<and> distinct l \<and> (\<forall>h \<in> set l. dca_dc hs p h = k)" if kl: "(k, l) \<in> set ?gs" for k l
  proof -
    obtain g where g: "(k, g) \<in> set (groupby (dca_dc hs p) hosts)" "l = iter (set g)" using kl by auto
    have "set l = set g" "distinct l"
      using set_iteration.set_iter [OF assms(1)] set_iteration.distinct_iter [OF assms(1)] g(2) by auto
    with groupby_groups [OF g(1)] show ?thesis by auto
  qed
  ultimately have "dca_inv hs (p\<lparr>dc_live_hosts := ?live\<rparr>)"
    using dca_inv_fold_update [OF assms(2), of ?gs] by metis
  moreover have "local_dc p \<noteq> []" using assms(2) by (simp add: dca_inv_def)
  ultimately show ?thesis by (simp add: dca_populate_def Let_def)
qed

lemma dca_position_inv: "dca_inv hs p \<Longrightarrow> dca_inv hs (snd (dca_make_query_plan p))"
  by (simp add: dca_plan)

text \<open>
  What a driver with a configured \<open>local_dc\<close> can do to the policy and to the host objects: any
  sequence of these operations from a fresh policy.
\<close>

inductive dca_reachable ::
    "('h set \<Rightarrow> 'h list) \<Rightarrow> 'h host_store \<Rightarrow> 'h DCAwareRoundRobinPolicy \<Rightarrow> bool"
  for iter where
  start: "dc \<noteq> [] \<Longrightarrow> dca_reachable iter hs (dca_init dc used)"
| populate: "dca_reachable iter hs p \<Longrightarrow> dca_reachable iter hs (dca_populate iter rnd resolved hs hosts p)"
| up: "dca_reachable iter hs p \<Longrightarrow> dca_reachable iter hs (dca_on_up hs h p)"
| down: "dca_reachable iter hs p \<Longrightarrow> dca_reachable iter hs (dca_on_down hs h p)"
| add: "dca_reachable iter hs p \<Longrightarrow> dca_reachable iter hs (dca_on_add hs h p)"
| remove: "dca_reachable iter hs p \<Longrightarrow> dca_reachable iter hs (dca_on_remove hs h p)"
| location: "dca_reachable iter hs p \<Longrightarrow> update_location_info h dc rk (hs, p) = (b, hs', p')
    \<Longrightarrow> dca_reachable iter hs' p'"
| set_up: "dca_reachable iter hs p \<Longrightarrow> dca_reachable iter (set_up h hs) p"
| set_down: "dca_reachable iter hs p \<Longrightarrow> dca_reachable iter (set_down h hs) p"
| plan: "dca_reachable iter hs p \<Longrightarrow> dca_reachable iter hs (snd (dca_make_query_plan p))"

lemma dca_dc_status [simp]:
  "dca_dc (set_up h hs) p = dca_dc hs p" "dca_dc (set_down h hs) p = dca_dc hs p"
  by (auto simp: dca_dc_def set_up_def set_down_def fun_eq_iff)

lemma dca_reachable_inv:
  assumes "dca_reachable iter hs p" "set_iteration iter"
  shows "dca_inv hs p"
  using assms
proof (induction rule: dca_reachable.induct)
  case (start dc hs used)
  then show ?case by (simp add: dca_inv_def dca_init_def)
next
  case (location hs p h dc rk b hs' p')
  from location.IH [OF location.prems] location.hyps(2) show ?case by (rule update_location_inv)
qed (simp_all add: dca_populate_inv dca_on_up_inv dca_on_down_inv dca_on_add_def dca_on_remove_def
    dca_position_inv, simp_all add: dca_inv_def)



text \<open>
  \<open>populate\<close> groups the hosts with \<open>groupby\<close>, which starts a new group at each change of
  data center, and each group replaces the one before it with the same name. So a host that is
  followed by a host of another data center and then by one of its own is lost: here host 1 of the
  local data center is in no plan after \<open>populate\<close> although it was passed in.
\<close>

theorem dca_populate_loses_hosts:
  "fst (dca_make_query_plan
     (dca_populate sorted_list_of_set 0 [] (\<lambda>h. host_init (Some (if h = 2 then ''dc2'' else ''dc1'')) None)
        [1, 2, 3 :: nat] (dca_init ''dc1'' 1))) = [3, 2]"
  by (simp add: dca_populate_def dca_make_query_plan_def dca_init_def dca_dc_def host_init_def
      dca_live_def cycle_slice_def Let_def)

definition inferred_dc_run :: "nat host_store \<times> nat DCAwareRoundRobinPolicy" where
  "inferred_dc_run =
     (let hs = (\<lambda>_. host_init None None);
          p = dca_populate sorted_list_of_set 0 [1, 2] hs [1, 2] (dca_init [] 1);
          (_, hs1, p1) = update_location_info 1 (Some ''dc1'') (Some ''r1'') (hs, p);
          (_, hs2, p2) = update_location_info 2 (Some ''dc1'') (Some ''r1'') (hs1, p1)
      in (hs2, p2))"

text \<open>
  With \<open>local_dc\<close> left to be inferred, the location updates of two contact points of one data
  center (first 1, then 2) leave the second one listed also under the empty data center name it
  had before: the plan then names host 2 twice, and after host 2 is reported down it still names
  it.
\<close>

theorem dca_inferred_dc_stale_host:
  "fst (dca_make_query_plan (snd inferred_dc_run)) = [1, 2, 2]
     \<and> fst (dca_make_query_plan (dca_on_down (fst inferred_dc_run) 2 (snd inferred_dc_run))) = [1, 2]"
  by (simp add: inferred_dc_run_def update_location_info_def dca_on_down_def dca_on_up_def
      set_location_info_def dca_populate_def dca_make_query_plan_def dca_init_def dca_dc_def host_init_def
      dca_live_def cycle_slice_def Let_def AList.delete_eq)

section \<open>TokenAwarePolicy: replicas first\<close>


definition example_store :: "nat host_store" where
  "example_store = (\<lambda>h. (host_init (Some (if h = 3 then ''dc2'' else ''dc1'')) None)\<lparr>is_up := Some True\<rparr>)"


text \<open>
  A replica that is \<open>LOCAL\<close> and not marked up is in no token aware plan, even when the child
  policy lists it as live, which covers hosts whose state is not known yet (\<open>is_up\<close> is
  \<open>None\<close>).
\<close>

theorem token_aware_skips_unknown_replica:
  assumes "routing_key q = Some key" "ta_keyspace working_keyspace (Some q) = Some ks"
    "h \<in> set (get_replicas ks key)" "distance h = LOCAL" "is_up (hs h) = None"
  shows "h \<notin> set (fst (ta_make_query_plan hs distance child_plan get_replicas False shuffled
                    working_keyspace (Some q)))"
  using assms by (auto simp: ta_make_query_plan_def Let_def split_beta is_up_true_def)

theorem token_aware_skips_unknown_replica_witness:
  "1 \<notin> set (fst (ta_make_query_plan (\<lambda>_. host_init None None) (\<lambda>_. LOCAL) (\<lambda>_ _. ([1 :: nat, 2], ()))
      (\<lambda>_ _. [1]) False id (Some ''ks'') (Some \<lparr>stmt_true = True, stmt_keyspace = None, routing_key = Some []\<rparr>)))"
  by (rule token_aware_skips_unknown_replica [where ks = "''ks''" and key = "[]"])
    (simp_all add: ta_keyspace_def host_init_def)

section \<open>Reconnection and retry\<close>

lemma exponential_state_Some:
  "exponential_state p n =
     (if (case erp_max_attempts p of None \<Rightarrow> True | Some m \<Rightarrow> int n \<le> max 0 m)
      then Some (n, float_base p \<and> 1024 < n) else None)"
proof (induction n)
  case 0
  then show ?case by (simp split: option.splits)
next
  case (Suc n)
  then show ?case
    by (auto simp: exponential_step_def scaled_delay_def split: option.splits)
qed

lemma exponential_new_schedule_eq:
  "exponential_new_schedule p i =
     (if (case erp_max_attempts p of None \<Rightarrow> True | Some m \<Rightarrow> int i < m)
      then Some (if float_base p \<and> 1024 \<le> i then max_delay p
                 else min (base_delay p * 2 ^ i) (max_delay p))
      else None)"
  by (auto simp: exponential_new_schedule_def exponential_state_Some exponential_step_def
      scaled_delay_def split: option.splits)

text \<open>
  C34: the exponential schedule of an accepted policy. It has \<open>max_attempts\<close> delays, or is
  infinite without a limit; the delay before attempt \<open>i\<close> is \<open>base_delay * 2 ** i\<close> capped at
  \<open>max_delay\<close>; from \<open>2 ** 1024\<close> on, where the float product overflows, it is \<open>max_delay\<close>.
  The delays never decrease, are never negative and never above \<open>max_delay\<close>.
\<close>

theorem exponential_schedule:
  assumes "exponential_init base flt mx attempts = Inr p"
  shows "exponential_new_schedule p i =
      (if (case attempts of None \<Rightarrow> True | Some m \<Rightarrow> int i < m)
       then Some (if flt \<and> 1024 \<le> i then mx else min (base * 2 ^ i) mx) else None)
    \<and> (\<forall>d e. exponential_new_schedule p i = Some d \<and> exponential_new_schedule p (i + k) = Some e
         \<longrightarrow> 0 \<le> d \<and> d \<le> e \<and> e \<le> mx)"
proof -
  from assms have p: "base_delay p = base" "float_base p = flt" "max_delay p = mx"
      "erp_max_attempts p = attempts" and b: "0 \<le> base" "base \<le> mx"
    by (auto simp: exponential_init_def split: if_splits)
  have "base * 2 ^ i \<le> base * 2 ^ (i + k)"
    using b by (intro mult_left_mono power_increasing) simp_all
  moreover have "0 \<le> base * 2 ^ i" using b by simp
  ultimately show ?thesis
    using b by (auto simp: exponential_new_schedule_eq p split: if_splits)
qed

theorem exponential_schedule_witness:
  "exponential_new_schedule \<lparr>base_delay = 1, float_base = True, max_delay = 10, erp_max_attempts = Some 5\<rparr> 3
     = Some 8"
  using exponential_schedule [of 1 True 10 "Some 5" _ 3 0] by (simp add: exponential_init_def)


text \<open>
  The constant schedule of an accepted policy has \<open>max_attempts\<close> equal delays, except that
  a limit of \<open>0\<close> attempts, which \<open>__init__\<close> accepts, gives a schedule that never ends.
\<close>

theorem constant_schedule:
  assumes "constant_init delay attempts = Inr p"
  shows "constant_new_schedule p i =
      (if attempts = None \<or> attempts = Some 0 \<or> int i < the attempts then Some delay else None)"
  using assms
  by (cases attempts) (auto simp: constant_init_def constant_new_schedule_def split: if_splits)

theorem constant_schedule_witness:
  "constant_new_schedule \<lparr>crp_delay = 1, crp_max_attempts = Some 0\<rparr> 1000 = Some 1
     \<and> constant_new_schedule \<lparr>crp_delay = 1, crp_max_attempts = Some 3\<rparr> 3 = None"
  using constant_schedule [of 1 "Some 0" _ 1000] constant_schedule [of 1 "Some 3" _ 3]
  by (simp add: constant_init_def)



text \<open>The delays a speculative plan hands out, one for each call.\<close>

fun spec_run :: "nat \<Rightarrow> ConstantSpeculativeExecutionPlan \<Rightarrow> rat list" where
  "spec_run 0 p = []"
| "spec_run (Suc n) p = (let (d, p') = next_execution p in d # spec_run n p')"

lemma spec_run_eq:
  "spec_run n \<lparr>spec_delay = d, remaining = m\<rparr> = replicate (min n (nat m)) d @ replicate (n - nat m) (- 1)"
proof (induction n arbitrary: m)
  case (Suc n)
  show ?case
  proof (cases "m > 0")
    case True
    then have "nat m = Suc (nat (m - 1))" by simp
    with Suc [of "m - 1"] True show ?thesis by (simp add: next_execution_def)
  next
    case False
    with Suc [of m] show ?thesis by (simp add: next_execution_def)
  qed
qed simp

text \<open>
  A constant speculative plan allows exactly \<open>max_attempts\<close> further executions, each after
  \<open>delay\<close>, and then answers \<open>-1\<close> (no more executions) for ever.
\<close>

theorem speculative_plan_bounded:
  "spec_run n (spec_new_plan delay m) = replicate (min n (nat m)) delay @ replicate (n - nat m) (- 1)"
  by (simp add: spec_new_plan_def spec_run_eq)

end
