(* ===== verification/Replication.thy ===== *)
theory Replication
  imports Hosts
begin

text \<open>
  The replication strategies of \<open>cassandra/metadata.py\<close>: from the owner of each token of the
  ring to the list of replicas of each token. A dictionary is an association list in insertion
  order; a token without an owner makes the lookup raise \<open>KeyError\<close>. A set of racks or hosts is
  a list without repetitions (\<open>List.insert\<close>), of which only the membership and the length are
  used. Tokens are of a type \<open>'t\<close>, hosts of a type \<open>'h\<close>.
\<close>

section \<open>SimpleStrategy\<close>

text \<open>The inner loop: \<open>j\<close> counts the ring positions looked at.\<close>

function simple_loop ::
    "('t \<Rightarrow> 'h option) \<Rightarrow> 't list \<Rightarrow> int \<Rightarrow> nat \<Rightarrow> nat \<Rightarrow> 'h list \<Rightarrow> 'h list res" where
  "simple_loop owner ring rf i j hosts =
     (if int (length hosts) < rf \<and> j < length ring
      then case owner (ring ! ((i + j) mod length ring)) of
             None \<Rightarrow> Inl KeyError
           | Some host \<Rightarrow>
               simple_loop owner ring rf i (j + 1)
                 (if host \<notin> set hosts then hosts @ [host] else hosts)
      else Inr hosts)"
  by auto
termination
  by (relation "measure (\<lambda>(owner, ring, rf, i, j, hosts). length ring - j)") auto

declare simple_loop.simps [simp del]

text \<open>The loop over the ring, which stores the hosts found for each token.\<close>

fun simple_map ::
    "('t \<Rightarrow> 'h option) \<Rightarrow> 't list \<Rightarrow> int \<Rightarrow> nat list \<Rightarrow> ('t \<times> 'h list) list
       \<Rightarrow> ('t \<times> 'h list) list res" where
  "simple_map owner ring rf [] replica_map = Inr replica_map"
| "simple_map owner ring rf (i # is) replica_map =
     res_bind (simple_loop owner ring rf i 0 [])
       (\<lambda>hosts. simple_map owner ring rf is (AList.update (ring ! i) hosts replica_map))"

definition simple_make_token_replica_map ::
    "int \<Rightarrow> ('t \<Rightarrow> 'h option) \<Rightarrow> 't list \<Rightarrow> ('t \<times> 'h list) list res" where
  "simple_make_token_replica_map rf owner ring = simple_map owner ring rf [0..<length ring] []"

section \<open>NetworkTopologyStrategy\<close>

type_synonym dc_name = "string option"

text \<open>
  The tables built from the ring: for each data center the indexes of its tokens, its racks and
  its hosts. \<open>upd d dc f\<close> is \<open>d[dc]\<close> of a \<open>defaultdict\<close> changed by \<open>f\<close>.
\<close>

definition dd_get :: "('k \<times> 'a list) list \<Rightarrow> 'k \<Rightarrow> 'a list" where
  "dd_get d k = (case map_of d k of Some xs \<Rightarrow> xs | None \<Rightarrow> [])"

definition dd_upd :: "('k \<times> 'a list) list \<Rightarrow> 'k \<Rightarrow> ('a list \<Rightarrow> 'a list) \<Rightarrow> ('k \<times> 'a list) list" where
  "dd_upd d k f = AList.update k (f (dd_get d k)) d"

record 'h nts_tables =
  dc_to_token_offset :: "(dc_name \<times> nat list) list"
  dc_racks :: "(dc_name \<times> string option list) list"
  hosts_per_dc :: "(dc_name \<times> 'h list) list"

definition nts_add_token ::
    "'h host_store \<Rightarrow> nat \<times> 'h \<Rightarrow> 'h nts_tables \<Rightarrow> 'h nts_tables" where
  "nts_add_token hs = (\<lambda>(i, host) t.
     (let dc = datacenter (hs host);
          t' = t\<lparr>dc_to_token_offset := dd_upd (dc_to_token_offset t) dc (\<lambda>l. l @ [i])\<rparr>
      in if truthy dc \<and> truthy (rack (hs host))
         then t'\<lparr>dc_racks := dd_upd (dc_racks t') dc (List.insert (rack (hs host))),
                 hosts_per_dc := dd_upd (hosts_per_dc t') dc (List.insert host)\<rparr>
         else t'))"

definition nts_build :: "'h host_store \<Rightarrow> 'h list \<Rightarrow> 'h nts_tables" where
  "nts_build hs owners =
     fold (nts_add_token hs) (zip [0..<length owners] owners)
       \<lparr>dc_to_token_offset = [], dc_racks = [], hosts_per_dc = []\<rparr>"

text \<open>The state of the loop over the tokens of one data center.\<close>

record 'h nts_state =
  replicas :: "'h list"
  replicas_remaining :: nat
  replicas_this_dc :: nat
  skipped_hosts :: "'h list"
  racks_placed :: "string option list"

text \<open>\<open>for host in skipped_hosts: ...\<close>, then \<open>del skipped_hosts[:]\<close>.\<close>

definition nts_flush :: "'h nts_state \<Rightarrow> 'h nts_state" where
  "nts_flush s =
     s\<lparr>replicas := replicas s @ take (replicas_remaining s) (skipped_hosts s),
       replicas_remaining := replicas_remaining s - length (skipped_hosts s),
       skipped_hosts := []\<rparr>"

definition nts_place :: "'h host_store \<Rightarrow> nat \<Rightarrow> 'h \<Rightarrow> 'h nts_state \<Rightarrow> 'h nts_state" where
  "nts_place hs racks_this_dc host s =
     (let s' = s\<lparr>replicas := replicas s @ [host],
                 replicas_this_dc := replicas_this_dc s + 1,
                 replicas_remaining := replicas_remaining s - 1,
                 racks_placed := List.insert (rack (hs host)) (racks_placed s)\<rparr>
      in if length (racks_placed s') = racks_this_dc then nts_flush s' else s')"

fun nts_dc_loop ::
    "'h host_store \<Rightarrow> nat \<Rightarrow> nat \<Rightarrow> 'h list \<Rightarrow> 'h nts_state \<Rightarrow> 'h nts_state" where
  "nts_dc_loop hs racks_this_dc hosts_this_dc [] s = s"
| "nts_dc_loop hs racks_this_dc hosts_this_dc (host # hosts) s =
     (if replicas_remaining s = 0 \<or> replicas_this_dc s = hosts_this_dc then s
      else if host \<in> set (replicas s) then nts_dc_loop hs racks_this_dc hosts_this_dc hosts s
      else if rack (hs host) \<in> set (racks_placed s) \<and> length (racks_placed s) < racks_this_dc
      then nts_dc_loop hs racks_this_dc hosts_this_dc hosts
             (s\<lparr>skipped_hosts := skipped_hosts s @ [host]\<rparr>)
      else nts_dc_loop hs racks_this_dc hosts_this_dc hosts (nts_place hs racks_this_dc host s))"

text \<open>\<open>while index < num_tokens and token_offsets[index] < i: index += 1\<close>\<close>

function advance_index :: "nat list \<Rightarrow> nat \<Rightarrow> nat \<Rightarrow> nat" where
  "advance_index token_offsets i index =
     (if index < length token_offsets \<and> token_offsets ! index < i
      then advance_index token_offsets i (index + 1) else index)"
  by auto
termination
  by (relation "measure (\<lambda>(token_offsets, i, index). length token_offsets - index)") auto

declare advance_index.simps [simp del]

type_synonym dc_index = "dc_name \<Rightarrow> nat"

text \<open>The body of the loop over the data centers, for the ring position \<open>i\<close>.\<close>

definition nts_dc_step ::
    "'h host_store \<Rightarrow> (string \<times> int) list \<Rightarrow> 'h list \<Rightarrow> 'h nts_tables \<Rightarrow> nat \<Rightarrow> dc_name
       \<Rightarrow> 'h list \<times> dc_index \<Rightarrow> 'h list \<times> dc_index" where
  "nts_dc_step hs dc_rf_map owners t i dc = (\<lambda>(reps, current).
     case (case dc of Some d \<Rightarrow> map_of dc_rf_map d | None \<Rightarrow> None) of
       None \<Rightarrow> (reps, current)
     | Some rf \<Rightarrow>
         (let token_offsets = dd_get (dc_to_token_offset t) dc;
              index = advance_index token_offsets i (current dc);
              current' = current(dc := index);
              hosts = map (\<lambda>k. owners ! k) (cycle_slice token_offsets index);
              s = nts_dc_loop hs (length (dd_get (dc_racks t) dc)) (length (dd_get (hosts_per_dc t) dc))
                    hosts \<lparr>replicas = reps, replicas_remaining = nat rf, replicas_this_dc = 0,
                           skipped_hosts = [], racks_placed = []\<rparr>
          in (replicas s, current')))"

definition nts_ring_step ::
    "'h host_store \<Rightarrow> (string \<times> int) list \<Rightarrow> 'h list \<Rightarrow> 'h nts_tables \<Rightarrow> nat
       \<Rightarrow> 'h list \<Rightarrow> dc_index \<Rightarrow> 'h list \<times> dc_index" where
  "nts_ring_step hs dc_rf_map owners t i reps current =
     fold (nts_dc_step hs dc_rf_map owners t i) (map fst (dc_to_token_offset t)) (reps, current)"

fun nts_ring_loop ::
    "'h host_store \<Rightarrow> (string \<times> int) list \<Rightarrow> 'h list \<Rightarrow> 'h nts_tables \<Rightarrow> 't list \<Rightarrow> nat list
       \<Rightarrow> ('t \<times> 'h list) list \<Rightarrow> dc_index \<Rightarrow> ('t \<times> 'h list) list" where
  "nts_ring_loop hs dc_rf_map owners t ring [] replica_map current = replica_map"
| "nts_ring_loop hs dc_rf_map owners t ring (i # is) replica_map current =
     (let (reps, current') =
            nts_ring_step hs dc_rf_map owners t i (dd_get replica_map (ring ! i)) current
      in nts_ring_loop hs dc_rf_map owners t ring is
           (AList.update (ring ! i) reps replica_map) current')"

definition nts_make_token_replica_map ::
    "'h host_store \<Rightarrow> (string \<times> int) list \<Rightarrow> ('t \<Rightarrow> 'h option) \<Rightarrow> 't list
       \<Rightarrow> ('t \<times> 'h list) list res" where
  "nts_make_token_replica_map hs dc_replication_factors owner ring =
     (let dc_rf_map = filter (\<lambda>(dc, rf). rf > 0) dc_replication_factors
      in res_bind
           (res_map (\<lambda>t. case owner t of Some h \<Rightarrow> Inr h | None \<Rightarrow> Inl KeyError) ring)
           (\<lambda>owners. Inr (nts_ring_loop hs dc_rf_map owners (nts_build hs owners) ring
                              [0..<length ring] [] (\<lambda>_. 0))))"

section \<open>SimpleStrategy: the first distinct hosts clockwise\<close>

text \<open>The first occurrence of each element.\<close>

definition dedup :: "'a list \<Rightarrow> 'a list" where
  "dedup xs = rev (remdups (rev xs))"

lemma dedup_simps [simp]:
  "dedup [] = []"
  "dedup (xs @ [x]) = (if x \<in> set xs then dedup xs else dedup xs @ [x])"
  "set (dedup xs) = set xs" "distinct (dedup xs)"
  by (simp_all add: dedup_def)

lemma length_dedup: "length (dedup xs) = card (set xs)"
  by (simp add: dedup_def length_remdups_card_conv)

lemma dedup_append: "\<exists>zs. dedup (xs @ ys) = dedup xs @ zs"
proof (induction ys rule: rev_induct)
  case (snoc y ys)
  then show ?case using dedup_simps(2) [of "xs @ ys" y] by auto
qed simp

lemma take_dedup_append: "n \<le> length (dedup xs) \<Longrightarrow> take n (dedup (xs @ ys)) = take n (dedup xs)"
  using dedup_append [of xs ys] by auto

lemma take_rotate_Suc:
  assumes "j < length ring"
  shows "take (Suc j) (rotate i ring) = take j (rotate i ring) @ [ring ! ((i + j) mod length ring)]"
  using assms by (simp add: take_Suc_conv_app_nth nth_rotate)

lemma simple_loop_result:
  assumes "\<And>t. t \<in> set ring \<Longrightarrow> owner t \<noteq> None" "j \<le> length ring"
    "hosts = dedup (map (\<lambda>t. the (owner t)) (take j (rotate i ring)))" "length hosts \<le> nat rf"
  shows "simple_loop owner ring rf i j hosts
    = Inr (take (nat rf) (dedup (map (\<lambda>t. the (owner t)) (rotate i ring))))"
  using assms
proof (induction owner ring rf i j hosts rule: simple_loop.induct)
  case (1 owner ring rf i j hosts)
  let ?t = "ring ! ((i + j) mod length ring)"
  show ?case
  proof (cases "int (length hosts) < rf \<and> j < length ring")
    case True
    then have j: "j < length ring" by simp
    then have "?t \<in> set ring" by (intro nth_mem mod_less_divisor) linarith
    with 1(2) obtain h where h: "owner ?t = Some h" by fastforce
    let ?hosts = "if h \<notin> set hosts then hosts @ [h] else hosts"
    have "?hosts = dedup (map (\<lambda>t. the (owner t)) (take (j + 1) (rotate i ring)))"
      using 1(4) h by (simp add: take_rotate_Suc [OF j])
    moreover have "length ?hosts \<le> nat rf" using True by auto
    ultimately show ?thesis
      using 1(1) [OF True h] 1(2) j h True by (subst simple_loop.simps) simp
  next
    case False
    then have "take (nat rf) (dedup (map (\<lambda>t. the (owner t)) (rotate i ring))) = hosts"
    proof (cases "j < length ring")
      case True
      with False 1(5) have n: "nat rf = length hosts" by simp
      have "map (\<lambda>t. the (owner t)) (rotate i ring)
          = map (\<lambda>t. the (owner t)) (take j (rotate i ring)) @ map (\<lambda>t. the (owner t)) (drop j (rotate i ring))"
        by (simp flip: map_append)
      then show ?thesis
        using take_dedup_append [of "nat rf" "map (\<lambda>t. the (owner t)) (take j (rotate i ring))"
            "map (\<lambda>t. the (owner t)) (drop j (rotate i ring))"] 1(4) n by simp
    next
      case False
      with 1(3) have "j = length ring" by simp
      then show ?thesis using 1(4, 5) by simp
    qed
    then show ?thesis using False by (subst simple_loop.simps) (simp only: if_False)
  qed
qed


lemma simple_map_result:
  assumes "\<And>i. i \<in> set is \<Longrightarrow> simple_loop owner ring rf i 0 [] = Inr (f i)"
  shows "simple_map owner ring rf is m
    = Inr (fold (\<lambda>i. AList.update (ring ! i) (f i)) is m)"
  using assms by (induction "is" arbitrary: m) auto

lemma map_of_fold_update:
  assumes "distinct (map g is)" "i \<in> set is"
  shows "map_of (fold (\<lambda>i. AList.update (g i) (f i)) is m) (g i) = Some (f i)"
  using assms
proof (induction "is" rule: rev_induct)
  case (snoc j js)
  then show ?case by (cases "i = j") (auto simp: update_conv' rev_image_eqI)
qed simp

text \<open>
  C21: \<open>SimpleStrategy\<close> maps each token to the first \<open>replication_factor\<close> distinct owners found
  walking the ring clockwise from it. The list has no repetition, and it has
  \<open>replication_factor\<close> hosts, or all the hosts of the ring when there are fewer.
\<close>

theorem simple_strategy_replicas:
  assumes "distinct ring" "\<And>t. t \<in> set ring \<Longrightarrow> owner t \<noteq> None" "i < length ring"
  shows "\<exists>m r. simple_make_token_replica_map rf owner ring = Inr m \<and> map_of m (ring ! i) = Some r
    \<and> r = take (nat rf) (dedup (map (\<lambda>t. the (owner t)) (rotate i ring)))
    \<and> distinct r \<and> length r = min (nat rf) (card ((\<lambda>t. the (owner t)) ` set ring))"
proof -
  let ?f = "\<lambda>i. take (nat rf) (dedup (map (\<lambda>t. the (owner t)) (rotate i ring)))"
  have loop: "simple_loop owner ring rf i 0 [] = Inr (?f i)" for i
    using simple_loop_result [of ring owner 0 "[]" i rf] assms(2) by simp
  let ?m = "fold (\<lambda>i. AList.update (ring ! i) (?f i)) [0..<length ring] []"
  have "simple_make_token_replica_map rf owner ring = Inr ?m"
    unfolding simple_make_token_replica_map_def by (rule simple_map_result) (rule loop)
  moreover have "distinct (map ((!) ring) [0..<length ring])" using assms(1) by (simp add: map_nth)
  then have "map_of ?m (ring ! i) = Some (?f i)" by (rule map_of_fold_update) (simp add: assms(3))
  moreover have "length (?f i) = min (nat rf) (card ((\<lambda>t. the (owner t)) ` set ring))"
    by (simp add: length_dedup min.commute)
  moreover have "distinct (?f i)" by simp
  ultimately show ?thesis by blast
qed

theorem simple_strategy_replicas_witness:
  "\<exists>m r. simple_make_token_replica_map 2 (map_of [(10 :: int, ''a''), (20, ''a''), (30, ''b'')]) [10, 20, 30] = Inr m
     \<and> map_of m ([10, 20, 30] ! 0) = Some r \<and> r = [''a'', ''b'']"
proof -
  let ?o = "map_of [(10 :: int, ''a''), (20, ''a''), (30, ''b'')]"
  have "\<And>t. t \<in> set [10, 20, 30] \<Longrightarrow> ?o t \<noteq> None" by auto
  from simple_strategy_replicas [of "[10, 20, 30]" ?o 0 2, OF _ this]
  show ?thesis by (auto simp: dedup_def)
qed

section \<open>NetworkTopologyStrategy: the loop of one data center\<close>

text \<open>
  The invariant of \<open>nts_dc_loop\<close> after the hosts \<open>P\<close>, none of which was listed before: what
  has been added to the replicas \<open>reps\<close> of the other data centers, for a replication factor
  \<open>rf\<close> and \<open>n\<close> racks.
\<close>

definition nts_loop_inv ::
    "'h host_store \<Rightarrow> 'h list \<Rightarrow> nat \<Rightarrow> nat \<Rightarrow> 'h list \<Rightarrow> 'h list \<Rightarrow> 'h nts_state \<Rightarrow> bool" where
  "nts_loop_inv hs reps rf n P added s \<longleftrightarrow>
     replicas s = reps @ added \<and> distinct added \<and> set added \<subseteq> set P
     \<and> length added + replicas_remaining s = rf
     \<and> replicas_this_dc s \<le> length added
     \<and> distinct (racks_placed s) \<and> set (racks_placed s) = (\<lambda>h. rack (hs h)) ` set added
     \<and> (length (racks_placed s) < n \<longrightarrow> length added = length (racks_placed s))
     \<and> (length (racks_placed s) = n \<longrightarrow> skipped_hosts s = [])
     \<and> distinct (skipped_hosts s) \<and> set added \<inter> set (skipped_hosts s) = {}
     \<and> set (skipped_hosts s) \<subseteq> set P
     \<and> (\<lambda>h. rack (hs h)) ` set (skipped_hosts s) \<subseteq> set (racks_placed s)
     \<and> (replicas_remaining s = 0 \<or> set added \<union> set (skipped_hosts s) = set P)"

lemma nts_inv_skip:
  assumes "nts_loop_inv hs reps rf n P added s" "h \<notin> set P" "rack (hs h) \<in> set (racks_placed s)"
    "length (racks_placed s) < n"
  shows "nts_loop_inv hs reps rf n (P @ [h]) added (s\<lparr>skipped_hosts := skipped_hosts s @ [h]\<rparr>)"
  using assms unfolding nts_loop_inv_def by auto

lemma nts_inv_place:
  assumes inv: "nts_loop_inv hs reps rf n P added s" and h: "h \<notin> set P" "h \<notin> set reps"
    and remaining: "replicas_remaining s \<noteq> 0"
    and racks: "rack (hs h) \<notin> set (racks_placed s) \<or> \<not> length (racks_placed s) < n"
    and bound: "length (List.insert (rack (hs h)) (racks_placed s)) \<le> n"
  shows "\<exists>added'. nts_loop_inv hs reps rf n (P @ [h]) added' (nts_place hs n h s)"
proof -
  let ?rp = "List.insert (rack (hs h)) (racks_placed s)"
  let ?s = "s\<lparr>replicas := replicas s @ [h], replicas_this_dc := replicas_this_dc s + 1,
      replicas_remaining := replicas_remaining s - 1, racks_placed := ?rp\<rparr>"
  from inv have I: "replicas s = reps @ added" "distinct added" "set added \<subseteq> set P"
      "length added + replicas_remaining s = rf" "replicas_this_dc s \<le> length added"
      "distinct (racks_placed s)" "set (racks_placed s) = (\<lambda>h. rack (hs h)) ` set added"
      "length (racks_placed s) < n \<Longrightarrow> length added = length (racks_placed s)"
      "distinct (skipped_hosts s)" "set added \<inter> set (skipped_hosts s) = {}"
      "set (skipped_hosts s) \<subseteq> set P"
      "(\<lambda>h. rack (hs h)) ` set (skipped_hosts s) \<subseteq> set (racks_placed s)"
      "replicas_remaining s = 0 \<or> set added \<union> set (skipped_hosts s) = set P"
    unfolding nts_loop_inv_def by blast+
  have hn: "h \<notin> set added" "h \<notin> set (skipped_hosts s)" using inv h by (auto simp: nts_loop_inv_def)
  show ?thesis
  proof (cases "length ?rp = n")
    case True
    let ?more = "take (replicas_remaining s - 1) (skipped_hosts s)"
    have more: "set ?more \<subseteq> set (skipped_hosts s)" by (rule set_take_subset)
    have eq: "nts_place hs n h s = nts_flush ?s" using True by (simp add: nts_place_def)
    have all: "set ?more = set (skipped_hosts s)"
      if "replicas_remaining s - 1 - length (skipped_hosts s) \<noteq> 0" using that by simp
    have "nts_loop_inv hs reps rf n (P @ [h]) (added @ h # ?more) (nts_flush ?s)"
      unfolding nts_loop_inv_def nts_flush_def
    proof (intro conjI, goal_cases)
      case 2
      show ?case using I(2, 9, 10) hn more by (auto simp: distinct_take)
    next
      case 3
      show ?case using I(3, 11) more by auto
    next
      case 4
      show ?case using I(4) remaining by (simp add: min_def)
    next
      case 7
      have "(\<lambda>h. rack (hs h)) ` set ?more \<subseteq> set (racks_placed s)" using I(12) more by blast
      then show ?case using I(7) by auto
    next
      case 14
      show ?case using I(13) remaining all by auto
    qed (use I True in simp_all)
    with eq show ?thesis by metis
  next
    case False
    have "nts_place hs n h s = ?s" using False by (simp add: nts_place_def Let_def)
    moreover have "nts_loop_inv hs reps rf n (P @ [h]) (added @ [h]) ?s"
      unfolding nts_loop_inv_def
    proof (intro conjI, goal_cases)
      case 7
      show ?case using I(7) by auto
    next
      case 8
      show ?case using I(8) racks bound False by (auto simp: List.insert_def)
    next
      case 14
      show ?case using I(13) remaining by auto
    qed (use I hn remaining False in \<open>auto\<close>)
    ultimately show ?thesis by metis
  qed
qed


lemma nts_dc_loop_inv:
  assumes "nts_loop_inv hs reps rf n P added s" "distinct (P @ Q)" "set (P @ Q) \<inter> set reps = {}"
    "finite RS" "card RS = n" "\<And>h. h \<in> set (P @ Q) \<Longrightarrow> rack (hs h) \<in> RS"
  shows "\<exists>P' Q' added'. P @ Q = P' @ Q' \<and> nts_loop_inv hs reps rf n P' added' (nts_dc_loop hs n nH Q s)
    \<and> (replicas_remaining (nts_dc_loop hs n nH Q s) = 0 \<or> replicas_this_dc (nts_dc_loop hs n nH Q s) = nH \<or> Q' = [])"
  using assms(1 - 3, 6)
proof (induction Q arbitrary: P added s)
  case Nil
  then show ?case by auto
next
  case (Cons h Q)
  have h: "h \<notin> set P" "h \<notin> set reps" "h \<notin> set (replicas s)"
    using Cons.prems(1 - 3) by (auto simp: nts_loop_inv_def)
  have next_step: ?case
    if "nts_loop_inv hs reps rf n (P @ [h]) added' s'" "nts_dc_loop hs n nH (h # Q) s = nts_dc_loop hs n nH Q s'"
    for added' s'
    using Cons.IH [OF that(1)] Cons.prems(2 - 4) that(2) by simp
  consider (stop) "replicas_remaining s = 0 \<or> replicas_this_dc s = nH"
    | (skip) "replicas_remaining s \<noteq> 0" "replicas_this_dc s \<noteq> nH"
        "rack (hs h) \<in> set (racks_placed s) \<and> length (racks_placed s) < n"
    | (place) "replicas_remaining s \<noteq> 0" "replicas_this_dc s \<noteq> nH"
        "\<not> (rack (hs h) \<in> set (racks_placed s) \<and> length (racks_placed s) < n)"
    by blast
  then show ?case
  proof cases
    case stop
    then show ?thesis using Cons.prems(1) by (intro exI [of _ P] exI [of _ "h # Q"] exI [of _ added]) auto
  next
    case skip
    then show ?thesis
      using next_step [OF nts_inv_skip [OF Cons.prems(1) h(1)]] h(3) by simp
  next
    case place
    have "set (List.insert (rack (hs h)) (racks_placed s)) \<subseteq> RS"
      using Cons.prems(1, 4) by (auto simp: nts_loop_inv_def)
    moreover have "distinct (List.insert (rack (hs h)) (racks_placed s))"
      using Cons.prems(1) by (simp add: nts_loop_inv_def)
    ultimately have "length (List.insert (rack (hs h)) (racks_placed s)) \<le> n"
      using card_mono [OF assms(4)] assms(5) distinct_card by metis
    with place nts_inv_place [OF Cons.prems(1) h(1, 2) place(1)] obtain added' where
      "nts_loop_inv hs reps rf n (P @ [h]) added' (nts_place hs n h s)" by blast
    then show ?thesis using next_step place h(3) by auto
  qed
qed

lemma nts_loop_invD:
  assumes "nts_loop_inv hs reps rf n P added s"
  shows "replicas s = reps @ added" "distinct added" "set added \<subseteq> set P"
    "length added + replicas_remaining s = rf" "replicas_this_dc s \<le> length added"
    "length (racks_placed s) = card ((\<lambda>h. rack (hs h)) ` set added)"
    "set (racks_placed s) = (\<lambda>h. rack (hs h)) ` set added"
    "length (racks_placed s) < n \<Longrightarrow> length added = length (racks_placed s)"
    "length (racks_placed s) = n \<Longrightarrow> skipped_hosts s = []"
    "(\<lambda>h. rack (hs h)) ` set (skipped_hosts s) \<subseteq> set (racks_placed s)"
    "replicas_remaining s = 0 \<or> set added \<union> set (skipped_hosts s) = set P"
proof -
  have "distinct (racks_placed s)" "set (racks_placed s) = (\<lambda>h. rack (hs h)) ` set added"
    using assms unfolding nts_loop_inv_def by blast+
  then show "length (racks_placed s) = card ((\<lambda>h. rack (hs h)) ` set added)"
    using distinct_card by metis
qed (use assms in \<open>unfold nts_loop_inv_def, blast+\<close>)

text \<open>When replicas are still wanted at the end, every host of the data center is one.\<close>

lemma nts_loop_all:
  assumes inv: "nts_loop_inv hs reps rf n P added s" and Q: "Q = P @ Q'" "distinct Q"
    and stop: "replicas_this_dc s = length Q \<or> Q' = []" and remaining: "replicas_remaining s \<noteq> 0"
    and n: "n = card ((\<lambda>h. rack (hs h)) ` set Q)"
  shows "set added = set Q"
proof (cases "replicas_this_dc s = length Q")
  note I = nts_loop_invD [OF inv]
  have sub: "set added \<subseteq> set Q" using I(3) Q by auto
  case True
  then have "card (set added) = card (set Q)"
    using I(2, 5) Q(2) card_mono [OF finite_set sub] by (simp add: distinct_card)
  then show ?thesis by (intro card_subset_eq) (simp_all add: sub)
next
  note I = nts_loop_invD [OF inv]
  case False
  then have *: "set added \<union> set (skipped_hosts s) = set Q" using stop remaining Q I(11) by simp
  have "(\<lambda>h. rack (hs h)) ` set Q \<subseteq> set (racks_placed s)" unfolding * [symmetric] using I(7, 10) by auto
  then have "n \<le> card (set (racks_placed s))" unfolding n by (intro card_mono) simp_all
  then have "n \<le> length (racks_placed s)" using card_length le_trans by blast
  moreover have "length (racks_placed s) \<le> n"
    unfolding I(6) n using I(3) Q by (intro card_mono) auto
  ultimately show ?thesis using * I(9) by simp
qed

text \<open>The replicas of one data center whose hosts \<open>Q\<close> each own one token.\<close>

lemma nts_loop_end:
  assumes inv: "nts_loop_inv hs reps rf n P added s" and Q: "Q = P @ Q'" "distinct Q"
    and stop: "replicas_remaining s = 0 \<or> replicas_this_dc s = length Q \<or> Q' = []"
    and n: "n = card ((\<lambda>h. rack (hs h)) ` set Q)"
  shows "length added = min rf (length Q) \<and> card ((\<lambda>h. rack (hs h)) ` set added) = min rf n"
proof -
  note I = nts_loop_invD [OF inv]
  have sub: "set added \<subseteq> set Q" using I(3) Q by auto
  have len: "length added \<le> length Q"
    using card_mono [OF finite_set sub] I(2) Q(2) by (simp add: distinct_card)
  have le: "card ((\<lambda>h. rack (hs h)) ` set added) \<le> n"
    unfolding n using sub by (intro card_mono) auto
  have le': "card ((\<lambda>h. rack (hs h)) ` set added) \<le> length added"
    using card_image_le [of "set added"] I(2) by (simp add: distinct_card)
  show ?thesis
  proof (cases "replicas_remaining s = 0")
    case True
    then have "length added = rf" using I(4) by simp
    then show ?thesis using I(6, 8) le le' len by (cases "length (racks_placed s) < n") auto
  next
    case False
    then have all: "set added = set Q" using stop by (intro nts_loop_all [OF inv Q _ _ n]) auto
    then have "length added = length Q" "card ((\<lambda>h. rack (hs h)) ` set added) = n"
      using I(2) Q(2) n distinct_card by metis+
    then show ?thesis using I(4) le' by simp
  qed
qed

lemma nts_dc_loop_result:
  assumes "distinct Q" "set Q \<inter> set reps = {}" "n = card ((\<lambda>h. rack (hs h)) ` set Q)"
  shows "\<exists>added. replicas (nts_dc_loop hs n (length Q) Q
             \<lparr>replicas = reps, replicas_remaining = rf, replicas_this_dc = 0, skipped_hosts = [],
              racks_placed = []\<rparr>) = reps @ added
    \<and> distinct added \<and> set added \<subseteq> set Q \<and> length added = min rf (length Q)
    \<and> card ((\<lambda>h. rack (hs h)) ` set added) = min rf n"
proof -
  let ?s = "\<lparr>replicas = reps, replicas_remaining = rf, replicas_this_dc = 0, skipped_hosts = [],
      racks_placed = []\<rparr>"
  let ?t = "nts_dc_loop hs n (length Q) Q ?s"
  have "nts_loop_inv hs reps rf n [] [] ?s" by (simp add: nts_loop_inv_def)
  from nts_dc_loop_inv [OF this, of Q "(\<lambda>h. rack (hs h)) ` set Q" "length Q"] assms
  have "\<exists>P Q' added. Q = P @ Q' \<and> nts_loop_inv hs reps rf n P added ?t
      \<and> (replicas_remaining ?t = 0 \<or> replicas_this_dc ?t = length Q \<or> Q' = [])" by simp
  then obtain P Q' added where Q: "Q = P @ Q'" and inv: "nts_loop_inv hs reps rf n P added ?t"
    and stop: "replicas_remaining ?t = 0 \<or> replicas_this_dc ?t = length Q \<or> Q' = []"
    by blast
  from nts_loop_invD(1 - 3) [OF inv] nts_loop_end [OF inv Q assms(1) stop assms(3)] Q
  show ?thesis by (intro exI [of _ added]) auto
qed

section \<open>NetworkTopologyStrategy: the tables\<close>

lemma dd_get_upd: "dd_get (dd_upd d k f) k' = (if k' = k then f (dd_get d k) else dd_get d k')"
  by (simp add: dd_get_def dd_upd_def update_conv')

lemma zip_upt_snoc: "zip [0..<length (xs @ [x])] (xs @ [x]) = zip [0..<length xs] xs @ [(length xs, x)]"
  by simp

lemma nts_build_snoc: "nts_build hs (xs @ [x]) = nts_add_token hs (length xs, x) (nts_build hs xs)"
  unfolding nts_build_def zip_upt_snoc by simp

lemma nts_offset_keys:
  "distinct (map fst (dc_to_token_offset (nts_build hs owners)))
   \<and> set (map fst (dc_to_token_offset (nts_build hs owners))) = (\<lambda>h. datacenter (hs h)) ` set owners"
proof (induction owners rule: rev_induct)
  case Nil
  then show ?case by (simp add: nts_build_def)
next
  case (snoc x xs)
  have "dc_to_token_offset (nts_build hs (xs @ [x]))
      = dd_upd (dc_to_token_offset (nts_build hs xs)) (datacenter (hs x)) (\<lambda>l. l @ [length xs])"
    by (simp add: nts_build_snoc nts_add_token_def Let_def)
  with snoc show ?case
    by (simp add: dd_upd_def distinct_update dom_update)
qed

lemma nts_offsets:
  "dd_get (dc_to_token_offset (nts_build hs owners)) dc
     = filter (\<lambda>i. datacenter (hs (owners ! i)) = dc) [0..<length owners]"
proof (induction owners rule: rev_induct)
  case Nil
  then show ?case by (simp add: nts_build_def dd_get_def)
next
  case (snoc x xs)
  have "filter (\<lambda>i. datacenter (hs ((xs @ [x]) ! i)) = dc) [0..<length xs]
      = filter (\<lambda>i. datacenter (hs (xs ! i)) = dc) [0..<length xs]"
    by (intro filter_cong) (auto simp: nth_append)
  with snoc show ?case
    by (simp add: nts_build_snoc nts_add_token_def Let_def dd_get_upd)
qed

lemma nts_racks_hosts:
  "distinct (dd_get (dc_racks (nts_build hs owners)) dc)
   \<and> distinct (dd_get (hosts_per_dc (nts_build hs owners)) dc)
   \<and> set (dd_get (hosts_per_dc (nts_build hs owners)) dc)
       = {h \<in> set owners. datacenter (hs h) = dc \<and> truthy dc \<and> truthy (rack (hs h))}
   \<and> set (dd_get (dc_racks (nts_build hs owners)) dc)
       = (\<lambda>h. rack (hs h)) ` {h \<in> set owners. datacenter (hs h) = dc \<and> truthy dc \<and> truthy (rack (hs h))}"
proof (induction owners rule: rev_induct)
  case Nil
  then show ?case by (simp add: nts_build_def dd_get_def)
next
  case (snoc x xs)
  have eq: "{h \<in> set (xs @ [x]). datacenter (hs h) = dc \<and> truthy dc \<and> truthy (rack (hs h))}
      = (if datacenter (hs x) = dc \<and> truthy dc \<and> truthy (rack (hs x)) then {x} else {})
        \<union> {h \<in> set xs. datacenter (hs h) = dc \<and> truthy dc \<and> truthy (rack (hs h))}"
    by auto
  show ?case unfolding eq
    using snoc
    by (cases "datacenter (hs x) = dc"; cases "truthy dc"; cases "truthy (rack (hs x))")
      (auto simp: nts_build_snoc nts_add_token_def Let_def dd_get_upd)
qed

text \<open>The hosts of a data center, in the order the loop visits them.\<close>

definition dc_hosts :: "'h host_store \<Rightarrow> 'h list \<Rightarrow> dc_name \<Rightarrow> 'h set" where
  "dc_hosts hs owners dc = {h \<in> set owners. datacenter (hs h) = dc}"

lemma nts_visited:
  assumes "distinct owners"
    and Q_def: "Q = map ((!) owners) (cycle_slice (dd_get (dc_to_token_offset (nts_build hs owners)) dc) index)"
  shows "distinct Q" "set Q = dc_hosts hs owners dc" "length Q = card (dc_hosts hs owners dc)"
proof -
  let ?off = "filter (\<lambda>i. datacenter (hs (owners ! i)) = dc) [0..<length owners]"
  have Q: "Q = map ((!) owners) (rotate index ?off)"
    by (simp add: Q_def nts_offsets cycle_slice_rotate)
  have "inj_on ((!) owners) (set ?off)" using assms(1) by (auto simp: inj_on_def nth_eq_iff_index_eq)
  then show d: "distinct Q" by (simp add: Q distinct_map)
  show s: "set Q = dc_hosts hs owners dc"
    by (auto simp: Q dc_hosts_def in_set_conv_nth image_iff)
  from d show "length Q = card (dc_hosts hs owners dc)" by (simp add: s [symmetric] distinct_card)
qed

lemma nts_dc_step_result:
  assumes "distinct owners" "\<And>h. h \<in> set owners \<Longrightarrow> truthy (datacenter (hs h)) \<and> truthy (rack (hs h))"
    "dc = Some d" "map_of rfs d = Some rf" "set reps \<inter> dc_hosts hs owners dc = {}"
  shows "\<exists>added current'. nts_dc_step hs rfs owners (nts_build hs owners) i dc (reps, current) = (reps @ added, current')
    \<and> distinct added \<and> set added \<subseteq> dc_hosts hs owners dc
    \<and> length added = min (nat rf) (card (dc_hosts hs owners dc))
    \<and> card ((\<lambda>h. rack (hs h)) ` set added) = min (nat rf) (card ((\<lambda>h. rack (hs h)) ` dc_hosts hs owners dc))"
proof -
  let ?t = "nts_build hs owners"
  let ?index = "advance_index (dd_get (dc_to_token_offset ?t) dc) i (current dc)"
  let ?Q = "map ((!) owners) (cycle_slice (dd_get (dc_to_token_offset ?t) dc) ?index)"
  note Q = nts_visited [OF assms(1) refl, where hs = hs and dc = dc and index = ?index]
  have "{h \<in> set owners. datacenter (hs h) = dc \<and> truthy dc \<and> truthy (rack (hs h))} = dc_hosts hs owners dc"
    using assms(2) by (auto simp: dc_hosts_def)
  then have "length (dd_get (hosts_per_dc ?t) dc) = length ?Q"
    "length (dd_get (dc_racks ?t) dc) = card ((\<lambda>h. rack (hs h)) ` set ?Q)"
    using nts_racks_hosts [of hs owners dc] Q by (metis distinct_card)+
  then show ?thesis
    using nts_dc_loop_result [OF Q(1), of reps _ hs "nat rf"] Q(2, 3) assms(3 - 5)
    by (auto simp: nts_dc_step_def Let_def)
qed


text \<open>What the replicas of one token satisfy for the data centers \<open>ks\<close> looked at so far.\<close>

definition nts_ok ::
    "'h host_store \<Rightarrow> (string \<times> int) list \<Rightarrow> 'h list \<Rightarrow> dc_name set \<Rightarrow> 'h list \<Rightarrow> bool" where
  "nts_ok hs rfs owners ks reps \<longleftrightarrow>
     distinct reps \<and> set reps \<subseteq> set owners
     \<and> (\<forall>h \<in> set reps. datacenter (hs h) \<in> ks
          \<and> (\<exists>d rf. datacenter (hs h) = Some d \<and> map_of rfs d = Some rf))
     \<and> (\<forall>d rf. Some d \<in> ks \<and> map_of rfs d = Some rf \<longrightarrow>
          card {h \<in> set reps. datacenter (hs h) = Some d} = min (nat rf) (card (dc_hosts hs owners (Some d)))
          \<and> card ((\<lambda>h. rack (hs h)) ` {h \<in> set reps. datacenter (hs h) = Some d})
              = min (nat rf) (card ((\<lambda>h. rack (hs h)) ` dc_hosts hs owners (Some d))))"

lemma nts_ok_add:
  assumes ok: "nts_ok hs rfs owners ks reps" and k: "Some d \<notin> ks" "map_of rfs d = Some rf"
    and added: "distinct added" "set added \<subseteq> dc_hosts hs owners (Some d)"
      "length added = min (nat rf) (card (dc_hosts hs owners (Some d)))"
      "card ((\<lambda>h. rack (hs h)) ` set added) = min (nat rf) (card ((\<lambda>h. rack (hs h)) ` dc_hosts hs owners (Some d)))"
  shows "nts_ok hs rfs owners (insert (Some d) ks) (reps @ added)"
proof -
  have dc: "datacenter (hs h) = Some d" if "h \<in> set added" for h
    using that added(2) by (auto simp: dc_hosts_def)
  have old: "datacenter (hs h) \<noteq> Some d" if "h \<in> set reps" for h
    using that ok k(1) by (auto simp: nts_ok_def)
  have new: "{h \<in> set (reps @ added). datacenter (hs h) = Some d} = set added"
    using dc old by auto
  have other: "{h \<in> set (reps @ added). datacenter (hs h) = Some e} = {h \<in> set reps. datacenter (hs h) = Some e}"
    if "e \<noteq> d" for e using dc that by auto
  have counts: "card {h \<in> set (reps @ added). datacenter (hs h) = Some e} = min (nat r) (card (dc_hosts hs owners (Some e)))
      \<and> card ((\<lambda>h. rack (hs h)) ` {h \<in> set (reps @ added). datacenter (hs h) = Some e})
          = min (nat r) (card ((\<lambda>h. rack (hs h)) ` dc_hosts hs owners (Some e)))"
    if "Some e \<in> insert (Some d) ks" "map_of rfs e = Some r" for e r
  proof (cases "e = d")
    case True
    then show ?thesis using new added k(2) that(2) by (simp add: distinct_card)
  next
    case False
    then show ?thesis using that ok other [OF False] unfolding nts_ok_def by auto
  qed
  moreover have "distinct (reps @ added)" using ok added(1) dc old by (auto simp: nts_ok_def)
  moreover have "set (reps @ added) \<subseteq> set owners" using ok added(2) by (auto simp: nts_ok_def dc_hosts_def)
  moreover have "datacenter (hs h) \<in> insert (Some d) ks
      \<and> (\<exists>d rf. datacenter (hs h) = Some d \<and> map_of rfs d = Some rf)" if "h \<in> set (reps @ added)" for h
    using that ok dc k(2) by (cases "h \<in> set added") (auto simp: nts_ok_def)
  ultimately show ?thesis unfolding nts_ok_def by blast
qed

lemma nts_ok_skip:
  "nts_ok hs rfs owners ks reps \<Longrightarrow> (case k of Some d \<Rightarrow> map_of rfs d | None \<Rightarrow> None) = None
     \<Longrightarrow> nts_ok hs rfs owners (insert k ks) reps"
  by (cases k) (auto simp: nts_ok_def)

lemma nts_ok_fold:
  assumes "distinct owners" "\<And>h. h \<in> set owners \<Longrightarrow> truthy (datacenter (hs h)) \<and> truthy (rack (hs h))"
    "distinct ks" "set ks \<inter> seen = {}" "nts_ok hs rfs owners seen reps"
  shows "nts_ok hs rfs owners (seen \<union> set ks)
    (fst (fold (nts_dc_step hs rfs owners (nts_build hs owners) i) ks (reps, current)))"
  using assms(3 - 5)
proof (induction ks arbitrary: seen reps current)
  case (Cons k ks)
  let ?step = "nts_dc_step hs rfs owners (nts_build hs owners) i"
  have "\<exists>reps' current'. ?step k (reps, current) = (reps', current') \<and> nts_ok hs rfs owners (insert k seen) reps'"
  proof (cases "case k of Some d \<Rightarrow> map_of rfs d | None \<Rightarrow> None")
    case None
    then have "?step k (reps, current) = (reps, current)" by (simp add: nts_dc_step_def)
    then show ?thesis using nts_ok_skip [OF Cons.prems(3) None] by simp
  next
    case (Some rf)
    then obtain d where d: "k = Some d" "map_of rfs d = Some rf" by (cases k) auto
    have dis: "set reps \<inter> dc_hosts hs owners k = {}"
      using Cons.prems(2, 3) by (auto simp: nts_ok_def dc_hosts_def)
    from nts_dc_step_result [where i = i and current = current, OF assms(1, 2) d dis] obtain added current' where
      s: "?step k (reps, current) = (reps @ added, current')" and
      a: "distinct added" "set added \<subseteq> dc_hosts hs owners k"
      "length added = min (nat rf) (card (dc_hosts hs owners k))"
      "card ((\<lambda>h. rack (hs h)) ` set added) = min (nat rf) (card ((\<lambda>h. rack (hs h)) ` dc_hosts hs owners k))"
      by blast
    have "Some d \<notin> seen" using Cons.prems(2) d by auto
    from nts_ok_add [OF Cons.prems(3) this d(2) a [unfolded d(1)]] s show ?thesis by (simp add: d(1))
  qed
  then obtain reps' current' where s: "?step k (reps, current) = (reps', current')"
    "nts_ok hs rfs owners (insert k seen) reps'" by blast
  have "nts_ok hs rfs owners (insert k seen \<union> set ks) (fst (fold ?step ks (reps', current')))"
    using Cons.prems(1, 2) s(2) by (intro Cons.IH) auto
  then show ?case by (simp add: s(1))
qed simp


lemma nts_ring_loop_result:
  assumes "distinct owners" "\<And>h. h \<in> set owners \<Longrightarrow> truthy (datacenter (hs h)) \<and> truthy (rack (hs h))"
    "distinct (map ((!) ring) idx)" "\<And>i. i \<in> set idx \<Longrightarrow> map_of m (ring ! i) = None"
  defines "dcs \<equiv> (\<lambda>h. datacenter (hs h)) ` set owners"
  shows "(\<forall>i \<in> set idx. \<exists>R. map_of (nts_ring_loop hs rfs owners (nts_build hs owners) ring idx m current) (ring ! i) = Some R
            \<and> nts_ok hs rfs owners dcs R)
    \<and> (\<forall>t. t \<notin> (!) ring ` set idx \<longrightarrow>
          map_of (nts_ring_loop hs rfs owners (nts_build hs owners) ring idx m current) t = map_of m t)"
  using assms(3, 4)
proof (induction idx arbitrary: m current)
  case (Cons i idx)
  let ?t = "nts_build hs owners"
  obtain R current' where R: "nts_ring_step hs rfs owners ?t i [] current = (R, current')" by fastforce
  have "nts_ok hs rfs owners {} []" by (simp add: nts_ok_def)
  from nts_ok_fold [OF assms(1, 2) conjunct1 [OF nts_offset_keys] _ this]
  have ok: "nts_ok hs rfs owners dcs R"
    using R nts_offset_keys [of hs owners] unfolding nts_ring_step_def dcs_def by (metis Un_empty_left Int_empty_right fst_conv)
  have "dd_get m (ring ! i) = []" using Cons.prems(2) [of i] by (simp add: dd_get_def)
  then have eq: "nts_ring_loop hs rfs owners ?t ring (i # idx) m current
      = nts_ring_loop hs rfs owners ?t ring idx (AList.update (ring ! i) R m) current'"
    by (simp add: R)
  have "map_of (AList.update (ring ! i) R m) (ring ! j) = None" if "j \<in> set idx" for j
  proof -
    have "ring ! j \<in> (!) ring ` set idx" using that by blast
    then have "ring ! j \<noteq> ring ! i" using Cons.prems(1) by auto
    then show ?thesis using Cons.prems(2) [of j] that by (simp add: update_conv')
  qed
  with Cons.IH [of "AList.update (ring ! i) R m" current'] Cons.prems(1) ok
  show ?case unfolding eq by (auto simp: update_conv')
qed simp

lemma nts_ok_counts:
  assumes ok: "nts_ok hs rfs owners ((\<lambda>h. datacenter (hs h)) ` set owners) R" and d: "map_of rfs d = Some rf"
  shows "card {h \<in> set R. datacenter (hs h) = Some d} = min (nat rf) (card (dc_hosts hs owners (Some d)))
    \<and> card ((\<lambda>h. rack (hs h)) ` {h \<in> set R. datacenter (hs h) = Some d})
        = min (nat rf) (card ((\<lambda>h. rack (hs h)) ` dc_hosts hs owners (Some d)))"
proof (cases "Some d \<in> (\<lambda>h. datacenter (hs h)) ` set owners")
  case True
  with ok d show ?thesis unfolding nts_ok_def by blast
next
  case False
  then have "datacenter (hs h) \<noteq> Some d" if "h \<in> set owners" for h using that by force
  then have "dc_hosts hs owners (Some d) = {}" "{h \<in> set R. datacenter (hs h) = Some d} = {}"
    using ok by (auto simp: nts_ok_def dc_hosts_def)
  then show ?thesis by simp
qed

lemma res_map_owner:
  "(\<And>t. t \<in> set ring \<Longrightarrow> owner t \<noteq> None) \<Longrightarrow>
     res_map (\<lambda>t. case owner t of Some h \<Rightarrow> Inr h | None \<Rightarrow> Inl KeyError) ring
       = Inr (map (\<lambda>t. the (owner t)) ring)"
proof (induction ring)
  case (Cons t ring)
  then obtain h where "owner t = Some h" by fastforce
  with Cons show ?case by simp
qed simp

text \<open>
  C20: \<open>NetworkTopologyStrategy\<close>, when each host owns one token and has a data center and a rack.
  The replicas of every token are distinct, belong only to data centers with a positive
  replication factor, and in each such data center there are \<open>min(rf, hosts)\<close> of them, spread
  over \<open>min(rf, racks)\<close> racks, which is as many as there can be.
\<close>

theorem nts_replicas:
  assumes "distinct ring" "\<And>t. t \<in> set ring \<Longrightarrow> owner t \<noteq> None" "inj_on owner (set ring)"
    "\<And>t h. t \<in> set ring \<Longrightarrow> owner t = Some h \<Longrightarrow> truthy (datacenter (hs h)) \<and> truthy (rack (hs h))"
    "i < length ring"
  shows "\<exists>m R. nts_make_token_replica_map hs rfs owner ring = Inr m \<and> map_of m (ring ! i) = Some R
    \<and> distinct R
    \<and> (\<forall>h \<in> set R. \<exists>d rf. datacenter (hs h) = Some d \<and> map_of (filter (\<lambda>(dc, rf). rf > 0) rfs) d = Some rf)
    \<and> (\<forall>d rf. map_of (filter (\<lambda>(dc, rf). rf > 0) rfs) d = Some rf \<longrightarrow>
         (let H = {h. Some h \<in> owner ` set ring \<and> datacenter (hs h) = Some d}
          in card {h \<in> set R. datacenter (hs h) = Some d} = min (nat rf) (card H)
             \<and> card ((\<lambda>h. rack (hs h)) ` {h \<in> set R. datacenter (hs h) = Some d})
                 = min (nat rf) (card ((\<lambda>h. rack (hs h)) ` H))))"
proof -
  let ?rfs = "filter (\<lambda>(dc, rf). rf > 0) rfs"
  let ?own = "map (\<lambda>t. the (owner t)) ring"
  let ?m = "nts_ring_loop hs ?rfs ?own (nts_build hs ?own) ring [0..<length ring] [] (\<lambda>_. 0)"
  have m: "nts_make_token_replica_map hs rfs owner ring = Inr ?m"
    by (simp add: nts_make_token_replica_map_def Let_def res_map_owner [OF assms(2)])
  have "inj_on (\<lambda>t. the (owner t)) (set ring)"
    using assms(2, 3) unfolding inj_on_def by (metis option.expand)
  then have own: "distinct ?own" using assms(1) by (simp add: distinct_map)
  have loc: "truthy (datacenter (hs h)) \<and> truthy (rack (hs h))" if h: "h \<in> set ?own" for h
  proof -
    obtain t where "t \<in> set ring" "owner t = Some h" using h assms(2) by fastforce
    then show ?thesis by (rule assms(4))
  qed
  have "distinct (map ((!) ring) [0..<length ring])" using assms(1) by (simp add: map_nth)
  with nts_ring_loop_result [OF own loc, where ring = ring and m = "[]" and idx = "[0..<length ring]"]
  obtain R where R: "map_of ?m (ring ! i) = Some R"
    and ok: "nts_ok hs ?rfs ?own ((\<lambda>h. datacenter (hs h)) ` set ?own) R"
    using assms(5) by fastforce
  have H: "dc_hosts hs ?own (Some d) = {h. Some h \<in> owner ` set ring \<and> datacenter (hs h) = Some d}" for d
    using assms(2) by (force simp: dc_hosts_def)
  note counts = nts_ok_counts [OF ok, unfolded H]
  have "distinct R"
    "\<forall>h \<in> set R. \<exists>d rf. datacenter (hs h) = Some d \<and> map_of ?rfs d = Some rf"
    using ok unfolding nts_ok_def by blast+
  with m R counts show ?thesis unfolding Let_def by blast
qed


definition example_location :: "nat host_store" where
  "example_location h = host_init (Some ''dc1'') (Some (if h = 30 then ''r2'' else ''r1''))"

definition example_owner :: "int \<Rightarrow> nat option" where
  "example_owner = map_of [(1, 10), (2, 20), (3, 30)]"

theorem nts_replicas_witness:
  "\<exists>m R. nts_make_token_replica_map example_location [(''dc1'', 2)] example_owner [1, 2, 3] = Inr m
     \<and> map_of m ([1, 2, 3] ! 0) = Some R \<and> distinct R
     \<and> card {h \<in> set R. datacenter (example_location h) = Some ''dc1''} = 2"
proof -
  have own: "\<And>t. t \<in> set [1, 2, 3] \<Longrightarrow> example_owner t \<noteq> None" and inj: "inj_on example_owner (set [1, 2, 3])"
    by (auto simp: example_owner_def)
  have loc: "truthy (datacenter (example_location h)) \<and> truthy (rack (example_location h))" for h
    by (simp add: example_location_def host_init_def)
  have H: "{h. Some h \<in> example_owner ` set [1, 2, 3] \<and> datacenter (example_location h) = Some ''dc1''} = {10, 20, 30}"
    by (auto simp: example_owner_def example_location_def host_init_def)
  have dist: "distinct [1, 2, 3 :: int]" and len: "0 < length [1, 2, 3 :: int]" by simp_all
  have rf: "map_of (filter (\<lambda>(dc, rf). rf > 0) [(''dc1'', 2 :: int)]) ''dc1'' = Some 2" by simp
  from nts_replicas [of "[1, 2, 3]" example_owner example_location 0 "[(''dc1'', 2)]", OF dist own inj loc len]
  obtain m R where m: "nts_make_token_replica_map example_location [(''dc1'', 2)] example_owner [1, 2, 3] = Inr m"
    and R: "map_of m ([1, 2, 3] ! 0) = Some R" and d: "distinct R"
    and c: "\<forall>d rf. map_of (filter (\<lambda>(dc, rf). rf > 0) [(''dc1'', 2 :: int)]) d = Some rf \<longrightarrow>
      (let H = {h. Some h \<in> example_owner ` set [1, 2, 3] \<and> datacenter (example_location h) = Some d}
       in card {h \<in> set R. datacenter (example_location h) = Some d} = min (nat rf) (card H)
        \<and> card ((\<lambda>h. rack (example_location h)) ` {h \<in> set R. datacenter (example_location h) = Some d})
            = min (nat rf) (card ((\<lambda>h. rack (example_location h)) ` H)))"
    by blast
  from c [rule_format, OF rf] have "card {h \<in> set R. datacenter (example_location h) = Some ''dc1''} = min (nat 2) (card {10, 20, 30 :: nat})"
    unfolding Let_def H by (rule conjunct1)
  also have "\<dots> = 2" by simp
  finally show ?thesis using m R d by (intro exI conjI)
qed

definition vnode_location :: "string host_store" where
  "vnode_location h = host_init (Some ''dc1'') (Some (if h = ''C'' then ''r2'' else ''r1''))"

definition vnode_owner :: "int \<Rightarrow> string option" where
  "vnode_owner = map_of [(1, ''A''), (2, ''B''), (3, ''B''), (4, ''C''), (5, ''D'')]"


end
