(* ===== verification/Py_Strings.thy ===== *)
theory Py_Strings
  imports Prelude
begin

text \<open>
  What the driver uses of Python's text methods: \<open>int()\<close> and \<open>'%d'\<close>, \<open>startswith\<close>,
  \<open>endswith\<close>, \<open>join\<close>, \<open>lower\<close> and the hexadecimal conversions of \<open>binascii\<close>.
  A text whose characters are below 256 is a \<open>string\<close>; the character classes are those
  Python uses in that range.
\<close>

section \<open>Prefixes, suffixes, joining\<close>

definition startswith :: "string \<Rightarrow> string \<Rightarrow> bool" where
  "startswith s p \<longleftrightarrow> take (length p) s = p"

definition endswith :: "string \<Rightarrow> string \<Rightarrow> bool" where
  "endswith s p \<longleftrightarrow> length p \<le> length s \<and> drop (length s - length p) s = p"

fun join :: "string \<Rightarrow> string list \<Rightarrow> string" where
  "join sep [] = []"
| "join sep [x] = x"
| "join sep (x # y # xs) = x @ sep @ join sep (y # xs)"

lemma startswith_append [simp]: "startswith (p @ s) p"
  by (simp add: startswith_def)

lemma endswith_append [simp]: "endswith (s @ p) p"
  by (simp add: endswith_def)

section \<open>Decimal integers\<close>

definition is_space :: "char \<Rightarrow> bool" where
  "is_space c \<longleftrightarrow> (let n = (of_char c :: nat) in n \<in> {9, 10, 11, 12, 13, 28, 29, 30, 31, 32, 133, 160})"

definition strip :: "string \<Rightarrow> string" where
  "strip s = rev (dropWhile is_space (rev (dropWhile is_space s)))"

definition is_digit :: "char \<Rightarrow> bool" where
  "is_digit c \<longleftrightarrow> (let n = (of_char c :: nat) in 48 \<le> n \<and> n \<le> 57)"

definition digit_value :: "char \<Rightarrow> int" where
  "digit_value c = int (of_char c) - 48"

definition digit_char :: "int \<Rightarrow> char" where
  "digit_char d = char_of (nat (d + 48))"

text \<open>The digits after the first one; an underscore may stand between two digits.\<close>

fun more_digits :: "int \<Rightarrow> string \<Rightarrow> int res" where
  "more_digits acc [] = Inr acc"
| "more_digits acc (c # cs) =
     (if is_digit c then more_digits (acc * 10 + digit_value c) cs
      else if c = CHR ''_'' then
        (case cs of
           d # cs' \<Rightarrow> if is_digit d then more_digits (acc * 10 + digit_value d) cs' else Inl ValueError
         | [] \<Rightarrow> Inl ValueError)
      else Inl ValueError)"

fun unsigned_int :: "string \<Rightarrow> int res" where
  "unsigned_int [] = Inl ValueError"
| "unsigned_int (c # cs) = (if is_digit c then more_digits (digit_value c) cs else Inl ValueError)"

definition py_int :: "string \<Rightarrow> int res" where
  "py_int s =
     (case strip s of
        [] \<Rightarrow> Inl ValueError
      | c # cs \<Rightarrow>
          if c = CHR ''-'' then res_bind (unsigned_int cs) (\<lambda>n. Inr (- n))
          else if c = CHR ''+'' then unsigned_int cs
          else unsigned_int (c # cs))"

function nat_text :: "nat \<Rightarrow> string" where
  "nat_text n = (if n < 10 then [digit_char (int n)] else nat_text (n div 10) @ [digit_char (int (n mod 10))])"
  by auto
termination
  by (relation "measure id") auto

declare nat_text.simps [simp del]

text \<open>\<open>'%d' % n\<close>\<close>

definition int_text :: "int \<Rightarrow> string" where
  "int_text n = (if n < 0 then CHR ''-'' # nat_text (nat (- n)) else nat_text (nat n))"

lemma of_char_digit_char: "0 \<le> d \<Longrightarrow> d < 10 \<Longrightarrow> (of_char (digit_char d) :: nat) = nat (d + 48)"
  by (simp add: digit_char_def)

lemma digit_char_props:
  assumes "0 \<le> d" "d < 10"
  shows "is_digit (digit_char d)" "digit_value (digit_char d) = d" "\<not> is_space (digit_char d)"
    "digit_char d \<noteq> CHR ''-''" "digit_char d \<noteq> CHR ''+''"
proof -
  have n: "(of_char (digit_char d) :: nat) = nat (d + 48)" by (rule of_char_digit_char [OF assms])
  with assms show "is_digit (digit_char d)" "\<not> is_space (digit_char d)"
    by (auto simp: is_digit_def is_space_def Let_def)
  from n assms show "digit_value (digit_char d) = d" by (simp add: digit_value_def)
  show "digit_char d \<noteq> CHR ''-''" "digit_char d \<noteq> CHR ''+''"
    using n assms by auto
qed

lemma more_digits_append:
  assumes "\<forall>c \<in> set (xs @ ys). is_digit c"
  shows "more_digits acc (xs @ ys) = res_bind (more_digits acc xs) (\<lambda>n. more_digits n ys)"
  using assms by (induction xs arbitrary: acc) auto

lemma nat_text_digits: "c \<in> set (nat_text n) \<Longrightarrow> is_digit c \<and> \<not> is_space c"
  by (induction n rule: nat_text.induct)
    (subst (asm) (2) nat_text.simps, auto simp: digit_char_props split: if_splits)

lemma nat_text_Cons: "\<exists>c cs. nat_text n = c # cs \<and> is_digit c \<and> more_digits (digit_value c) cs = Inr (int n)"
proof (induction n rule: nat_text.induct)
  case (1 n)
  show ?case
  proof (cases "n < 10")
    case True
    then show ?thesis by (subst nat_text.simps) (simp add: digit_char_props)
  next
    case False
    then obtain c cs where IH: "nat_text (n div 10) = c # cs" "is_digit c"
      "more_digits (digit_value c) cs = Inr (int (n div 10))" using 1 by blast
    have "\<forall>d \<in> set (cs @ [digit_char (int (n mod 10))]). is_digit d"
      using nat_text_digits [of _ "n div 10"] IH(1) by (auto simp: digit_char_props)
    then have "more_digits (digit_value c) (cs @ [digit_char (int (n mod 10))]) = Inr (int n)"
      using IH(3) by (simp add: more_digits_append digit_char_props) presburger
    moreover have "nat_text n = c # cs @ [digit_char (int (n mod 10))]"
      using False IH(1) by (subst nat_text.simps) simp
    ultimately show ?thesis using IH(2) by blast
  qed
qed

lemma dropWhile_none: "\<forall>x \<in> set xs. \<not> P x \<Longrightarrow> dropWhile P xs = xs"
  by (cases xs) auto

lemma strip_none: "\<forall>c \<in> set s. \<not> is_space c \<Longrightarrow> strip s = s"
  by (simp add: strip_def dropWhile_none)

lemma int_text_no_space: "c \<in> set (int_text n) \<Longrightarrow> \<not> is_space c"
  by (auto simp: int_text_def is_space_def dest: nat_text_digits split: if_splits)

text \<open>\<open>int('%d' % n) == n\<close>\<close>

lemma py_int_int_text [simp]: "py_int (int_text n) = Inr n"
proof -
  obtain c cs where n: "nat_text (nat \<bar>n\<bar>) = c # cs" "is_digit c"
    "more_digits (digit_value c) cs = Inr (int (nat \<bar>n\<bar>))" using nat_text_Cons by blast
  then have "c \<noteq> CHR ''-''" "c \<noteq> CHR ''+''" by (auto simp: is_digit_def)
  moreover have "strip (int_text n) = int_text n" using int_text_no_space strip_none by blast
  ultimately show ?thesis using n by (cases "n < 0") (auto simp: py_int_def int_text_def)
qed

section \<open>Hexadecimal\<close>

definition hex_value :: "char \<Rightarrow> int res" where
  "hex_value c =
     (let n = int (of_char c) in
      if 48 \<le> n \<and> n \<le> 57 then Inr (n - 48)
      else if 65 \<le> n \<and> n \<le> 70 then Inr (n - 55)
      else if 97 \<le> n \<and> n \<le> 102 then Inr (n - 87)
      else Inl ValueError)"

text \<open>\<open>binascii.unhexlify\<close>; its \<open>binascii.Error\<close> is a \<open>ValueError\<close>.\<close>

fun unhexlify :: "string \<Rightarrow> bytes res" where
  "unhexlify [] = Inr []"
| "unhexlify [c] = Inl ValueError"
| "unhexlify (c # d # cs) =
     res_bind (hex_value c) (\<lambda>h. res_bind (hex_value d) (\<lambda>l.
       res_bind (unhexlify cs) (\<lambda>bs. Inr (word_of_int (16 * h + l) # bs))))"

definition hex_digit :: "int \<Rightarrow> char" where
  "hex_digit n = char_of (nat (if n < 10 then n + 48 else n + 87))"

fun hexlify :: "bytes \<Rightarrow> string" where
  "hexlify [] = []"
| "hexlify (b # bs) = hex_digit (uint b div 16) # hex_digit (uint b mod 16) # hexlify bs"

lemma hex_value_digit: "0 \<le> n \<Longrightarrow> n < 16 \<Longrightarrow> hex_value (hex_digit n) = Inr n"
  by (auto simp: hex_value_def hex_digit_def Let_def)

lemma unhexlify_hexlify [simp]: "unhexlify (hexlify bs) = Inr bs"
proof (induction bs)
  case (Cons b bs)
  have "hex_value (hex_digit (uint b div 16)) = Inr (uint b div 16)"
    "hex_value (hex_digit (uint b mod 16)) = Inr (uint b mod 16)"
    using uint_byte_bounds [of b] by (intro hex_value_digit; linarith | simp)+
  moreover have "(word_of_int (16 * (uint b div 16) + uint b mod 16) :: byte) = b"
    by (simp only: mult_div_mod_eq word_of_int_uint_byte)
  ultimately show ?case using Cons by (simp del: of_int_add of_int_mult)
qed simp

section \<open>ASCII\<close>

definition is_ascii :: "string \<Rightarrow> bool" where
  "is_ascii s \<longleftrightarrow> (\<forall>c \<in> set s. (of_char c :: nat) < 128)"

text \<open>\<open>lower\<close>: the capital letters, accented ones included, lie 32 below the small ones.\<close>

definition lower_char :: "char \<Rightarrow> char" where
  "lower_char c = (let n = (of_char c :: nat) in
     if 65 \<le> n \<and> n \<le> 90 \<or> 192 \<le> n \<and> n \<le> 222 \<and> n \<noteq> 215 then char_of (n + 32) else c)"

definition lower :: "string \<Rightarrow> string" where
  "lower = map lower_char"

end
