(* ===== verification/Metadata.thy ===== *)
theory Metadata
  imports Replication Murmur3 Marshal Py_Strings "HOL-Library.List_Lexorder"
begin

text \<open>
  The cluster metadata of \<open>cassandra/metadata.py\<close>: the tokens, the token map with its cache of
  replica maps, the schema of the keyspaces and the registry of hosts. Objects that the source
  shares and mutates in place (the tables of a keyspace, the views of a table) are values here:
  an update replaces the only reference that is kept. A dictionary is an association list. What
  the schema parser read from the server is an argument of the operations that install it.
\<close>

section \<open>Tokens\<close>

datatype token_class = MD5Token | Murmur3Token | BytesToken

datatype token = IntToken int | KeyToken bytes

instantiation token :: linorder
begin

fun less_eq_token :: "token \<Rightarrow> token \<Rightarrow> bool" where
  "less_eq_token (IntToken a) (IntToken b) = (a \<le> b)"
| "less_eq_token (IntToken a) (KeyToken b) = True"
| "less_eq_token (KeyToken a) (IntToken b) = False"
| "less_eq_token (KeyToken a) (KeyToken b) = (a \<le> b)"

definition less_token :: "token \<Rightarrow> token \<Rightarrow> bool" where
  "less_token a b \<longleftrightarrow> a \<le> b \<and> \<not> b \<le> a"

instance
proof
  fix a b c :: token
  show "a < b \<longleftrightarrow> a \<le> b \<and> \<not> b \<le> a" by (rule less_token_def)
  show "a \<le> a" by (cases a) simp_all
  show "a \<le> b \<Longrightarrow> b \<le> c \<Longrightarrow> a \<le> c" by (cases a; cases b; cases c) auto
  show "a \<le> b \<Longrightarrow> b \<le> a \<Longrightarrow> a = b" by (cases a; cases b) auto
  show "a \<le> b \<or> b \<le> a" by (cases a; cases b) auto
qed

end

definition MIN_LONG :: int where "MIN_LONG = - (2 ^ 63)"
definition MAX_LONG :: int where "MAX_LONG = 2 ^ 63 - 1"

text \<open>
  The token of a partition key. \<open>murmur3\<close> is the hash function that was imported, if any;
  \<open>md5\<close> is the digest of \<open>hashlib\<close>.
\<close>

definition from_key ::
    "(bytes \<Rightarrow> int) option \<Rightarrow> (bytes \<Rightarrow> bytes) \<Rightarrow> token_class \<Rightarrow> bytes \<Rightarrow> token res" where
  "from_key murmur3 md5 cls key =
     (case cls of
        Murmur3Token \<Rightarrow>
          (case murmur3 of
             Some f \<Rightarrow> let h = f key in Inr (IntToken (if h \<noteq> MIN_LONG then h else MAX_LONG))
           | None \<Rightarrow> Inl NoMurmur3)
      | MD5Token \<Rightarrow> res_bind (varint_unpack (md5 key)) (\<lambda>n. Inr (IntToken \<bar>n\<bar>))
      | BytesToken \<Rightarrow> Inr (KeyToken key))"

definition token_from_string :: "token_class \<Rightarrow> string \<Rightarrow> token res" where
  "token_from_string cls s =
     (case cls of
        BytesToken \<Rightarrow>
          if is_ascii s then res_bind (unhexlify s) (\<lambda>bs. Inr (KeyToken bs)) else Inl UnicodeEncodeError
      | _ \<Rightarrow> res_bind (py_int s) (\<lambda>n. Inr (IntToken n)))"

section \<open>Replication strategies as values\<close>

datatype strategy =
    SimpleStrategy int
  | NetworkTopologyStrategy "(string \<times> int) list"
  | LocalStrategy
  | UnknownStrategy string "(string \<times> string) list"

definition trim_if_startswith :: "string \<Rightarrow> string \<Rightarrow> string" where
  "trim_if_startswith s prefix = (if startswith s prefix then drop (length prefix) s else s)"

definition strategy_prefix :: string where
  "strategy_prefix = ''org.apache.cassandra.locator.''"

text \<open>The class looked up by name, called on the options; a missing dictionary raises.\<close>

definition simple_init :: "(string \<times> string) list option \<Rightarrow> strategy res" where
  "simple_init options_map =
     (case options_map of
        None \<Rightarrow> Inl ValueError
      | Some opts \<Rightarrow>
          (case map_of opts ''replication_factor'' of
             None \<Rightarrow> Inl ValueError
           | Some v \<Rightarrow> (case py_int v of Inl e \<Rightarrow> Inl ValueError | Inr n \<Rightarrow> Inr (SimpleStrategy n))))"

definition nts_init :: "(string \<times> string) list option \<Rightarrow> strategy res" where
  "nts_init options_map =
     (case options_map of
        None \<Rightarrow> Inl AttributeError
      | Some opts \<Rightarrow>
          res_bind (res_map (\<lambda>(k, v). res_bind (py_int v) (\<lambda>n. Inr (k, n))) opts)
            (\<lambda>rfs. Inr (NetworkTopologyStrategy (fold (\<lambda>(k, n). AList.update k n) rfs []))))"

definition unknown_init :: "string \<Rightarrow> (string \<times> string) list option \<Rightarrow> strategy" where
  "unknown_init name options_map =
     UnknownStrategy name (AList.update ''class'' name (case options_map of Some opts \<Rightarrow> opts | None \<Rightarrow> []))"

definition strategy_create ::
    "string option \<Rightarrow> (string \<times> string) list option \<Rightarrow> strategy option" where
  "strategy_create strategy_class options_map =
     (case strategy_class of
        None \<Rightarrow> None
      | Some [] \<Rightarrow> None
      | Some cls \<Rightarrow>
          (let name = trim_if_startswith cls strategy_prefix;
               r = (if name = ''SimpleStrategy'' then simple_init options_map
                    else if name = ''NetworkTopologyStrategy'' then nts_init options_map
                    else if name = ''LocalStrategy'' then Inr LocalStrategy
                    else Inr (unknown_init name options_map))
           in case r of Inl e \<Rightarrow> None | Inr s \<Rightarrow> Some s))"

text \<open>\<open>__eq__\<close>; dictionaries are equal when they hold the same values under the same keys.\<close>

definition dict_eq :: "('k \<times> 'v) list \<Rightarrow> ('k \<times> 'v) list \<Rightarrow> bool" where
  "dict_eq a b \<longleftrightarrow> (\<forall>k \<in> set (map fst a @ map fst b). map_of a k = map_of b k)"

fun strategy_eq :: "strategy \<Rightarrow> strategy \<Rightarrow> bool" where
  "strategy_eq (SimpleStrategy a) (SimpleStrategy b) \<longleftrightarrow> a = b"
| "strategy_eq (NetworkTopologyStrategy a) (NetworkTopologyStrategy b) \<longleftrightarrow> dict_eq a b"
| "strategy_eq LocalStrategy LocalStrategy \<longleftrightarrow> True"
| "strategy_eq (UnknownStrategy a x) (UnknownStrategy b y) \<longleftrightarrow> a = b \<and> dict_eq x y"
| "strategy_eq _ _ \<longleftrightarrow> False"

fun strategy_opt_eq :: "strategy option \<Rightarrow> strategy option \<Rightarrow> bool" where
  "strategy_opt_eq None None \<longleftrightarrow> True"
| "strategy_opt_eq (Some a) (Some b) \<longleftrightarrow> strategy_eq a b"
| "strategy_opt_eq _ _ \<longleftrightarrow> False"

type_synonym ('t, 'h) replica_map = "('t \<times> 'h list) list"

fun make_token_replica_map ::
    "'h host_store \<Rightarrow> strategy \<Rightarrow> ('t \<Rightarrow> 'h option) \<Rightarrow> 't list \<Rightarrow> ('t, 'h) replica_map res" where
  "make_token_replica_map hs (SimpleStrategy rf) owner ring = simple_make_token_replica_map rf owner ring"
| "make_token_replica_map hs (NetworkTopologyStrategy rfs) owner ring =
     nts_make_token_replica_map hs rfs owner ring"
| "make_token_replica_map hs LocalStrategy owner ring = Inr []"
| "make_token_replica_map hs (UnknownStrategy name opts) owner ring = Inr []"

section \<open>Keyspaces\<close>

record IndexMetadata =
  index_keyspace_name :: string
  index_table_name :: string
  index_name :: string
  index_kind :: string

record MaterializedViewMetadata =
  view_keyspace_name :: string
  view_name :: string
  base_table_name :: string

record TableMetadata =
  table_keyspace_name :: string
  table_name :: string
  table_indexes :: "(string \<times> IndexMetadata) list"
  table_views :: "(string \<times> MaterializedViewMetadata) list"

record UserType =
  type_keyspace :: string
  type_name :: string
  field_names :: "string list"
  field_types :: "string list"

record Function =
  function_keyspace :: string
  function_name :: string
  argument_types :: "string list"
  return_type :: string

record KeyspaceMetadata =
  ks_name :: string
  durable_writes :: bool
  replication_strategy :: "strategy option"
  tables :: "(string \<times> TableMetadata) list"
  indexes :: "(string \<times> IndexMetadata) list"
  user_types :: "(string \<times> UserType) list"
  ks_functions :: "(string \<times> Function) list"
  aggregates :: "(string \<times> Function) list"
  views :: "(string \<times> MaterializedViewMetadata) list"

definition signature :: "Function \<Rightarrow> string" where
  "signature f = function_name f @ ''('' @ join '','' (argument_types f) @ '')''"

definition keyspace_init ::
    "string \<Rightarrow> bool \<Rightarrow> string option \<Rightarrow> (string \<times> string) list option \<Rightarrow> KeyspaceMetadata" where
  "keyspace_init name durable strategy_class strategy_options =
     \<lparr>ks_name = name, durable_writes = durable,
      replication_strategy = strategy_create strategy_class strategy_options,
      tables = [], indexes = [], user_types = [], ks_functions = [], aggregates = [], views = []\<rparr>"

text \<open>\<open>d.pop(k, None)\<close> for each key of a list\<close>

definition pop_all :: "'k list \<Rightarrow> ('k \<times> 'v) list \<Rightarrow> ('k \<times> 'v) list" where
  "pop_all ks d = fold AList.delete ks d"

definition add_table_metadata :: "TableMetadata \<Rightarrow> KeyspaceMetadata \<Rightarrow> KeyspaceMetadata" where
  "add_table_metadata t ks =
     (let (t', old_indexes) =
            (case map_of (tables ks) (table_name t) of
               Some old \<Rightarrow> (t\<lparr>table_views := table_views old\<rparr>, table_indexes old)
             | None \<Rightarrow> (t, []));
          added = fold (\<lambda>(n, i). AList.update n i) (table_indexes t') (indexes ks);
          stale = filter (\<lambda>n. n \<notin> fst ` set (table_indexes t')) (map fst old_indexes)
      in ks\<lparr>indexes := pop_all stale added,
            tables := AList.update (table_name t') t' (tables ks)\<rparr>)"

definition drop_table_metadata :: "string \<Rightarrow> KeyspaceMetadata \<Rightarrow> KeyspaceMetadata" where
  "drop_table_metadata name ks =
     (case map_of (tables ks) name of
        Some t \<Rightarrow>
          ks\<lparr>tables := AList.delete name (tables ks),
             indexes := pop_all (map fst (table_indexes t)) (indexes ks),
             views := pop_all (map fst (table_views t)) (views ks)\<rparr>
      | None \<Rightarrow>
          (case map_of (views ks) name of
             None \<Rightarrow> ks
           | Some v \<Rightarrow>
               (let ks' = ks\<lparr>views := AList.delete name (views ks)\<rparr>
                in case map_of (tables ks') (base_table_name v) of
                     None \<Rightarrow> ks'
                   | Some t \<Rightarrow>
                       ks'\<lparr>tables := AList.update (base_table_name v)
                              (t\<lparr>table_views := AList.delete name (table_views t)\<rparr>) (tables ks')\<rparr>)))"

definition add_view_metadata :: "MaterializedViewMetadata \<Rightarrow> KeyspaceMetadata \<Rightarrow> KeyspaceMetadata" where
  "add_view_metadata v ks =
     (case map_of (tables ks) (base_table_name v) of
        None \<Rightarrow> ks
      | Some t \<Rightarrow>
          ks\<lparr>tables := AList.update (base_table_name v)
                (t\<lparr>table_views := AList.update (view_name v) v (table_views t)\<rparr>) (tables ks),
             views := AList.update (view_name v) v (views ks)\<rparr>)"

section \<open>The token map\<close>

text \<open>\<open>bisect.bisect_right(a, x)\<close>\<close>

function bisect_right_loop :: "'a::linorder list \<Rightarrow> 'a \<Rightarrow> nat \<Rightarrow> nat \<Rightarrow> nat" where
  "bisect_right_loop a x lo hi =
     (if lo < hi
      then let mid = (lo + hi) div 2
           in if x < a ! mid then bisect_right_loop a x lo mid else bisect_right_loop a x (mid + 1) hi
      else lo)"
  by auto
termination
  by (relation "measure (\<lambda>(a, x, lo, hi). hi - lo)") auto

declare bisect_right_loop.simps [simp del]

definition bisect_right :: "'a::linorder list \<Rightarrow> 'a \<Rightarrow> nat" where
  "bisect_right a x = bisect_right_loop a x 0 (length a)"

text \<open>
  A cached replica map may be \<open>None\<close>, which is what a keyspace without a strategy gets; it is
  looked up like an absent one. The ring of a token map never changes, so the tokens that
  \<open>get_replicas\<close> looks up are always keys of the cached map.
\<close>

record 'h TokenMap =
  tm_token_class :: token_class
  token_to_host_owner :: "(token \<times> 'h) list"
  tokens_to_hosts_by_ks :: "(string \<times> (token, 'h) replica_map option) list"
  ring :: "token list"

type_synonym keyspace_dict = "(string \<times> KeyspaceMetadata) list"

definition tokenmap_init ::
    "token_class \<Rightarrow> (token \<times> 'h) list \<Rightarrow> token list \<Rightarrow> 'h TokenMap" where
  "tokenmap_init cls owners all_tokens =
     \<lparr>tm_token_class = cls, token_to_host_owner = owners, tokens_to_hosts_by_ks = [], ring = all_tokens\<rparr>"

definition replica_map_for_keyspace ::
    "'h host_store \<Rightarrow> 'h TokenMap \<Rightarrow> KeyspaceMetadata \<Rightarrow> (token, 'h) replica_map option res" where
  "replica_map_for_keyspace hs tm ks =
     (case replication_strategy ks of
        Some s \<Rightarrow> res_bind (make_token_replica_map hs s (map_of (token_to_host_owner tm)) (ring tm))
                    (\<lambda>m. Inr (Some m))
      | None \<Rightarrow> Inr None)"

definition cached :: "'h TokenMap \<Rightarrow> string \<Rightarrow> (token, 'h) replica_map option" where
  "cached tm keyspace =
     (case map_of (tokens_to_hosts_by_ks tm) keyspace of Some m \<Rightarrow> m | None \<Rightarrow> None)"

definition rebuild_keyspace ::
    "'h host_store \<Rightarrow> keyspace_dict \<Rightarrow> string \<Rightarrow> bool \<Rightarrow> 'h TokenMap \<Rightarrow> 'h TokenMap" where
  "rebuild_keyspace hs keyspaces keyspace build_if_absent tm =
     (let current = cached tm keyspace
      in if build_if_absent \<and> current = None \<or> \<not> build_if_absent \<and> current \<noteq> None
         then case map_of keyspaces keyspace of
                None \<Rightarrow> tm
              | Some ks_meta \<Rightarrow>
                  (let m = (case replica_map_for_keyspace hs tm ks_meta of
                              Inr replica_map \<Rightarrow> replica_map
                            | Inl e \<Rightarrow> Some [])
                   in tm\<lparr>tokens_to_hosts_by_ks := AList.update keyspace m (tokens_to_hosts_by_ks tm)\<rparr>)
         else tm)"

definition tokenmap_remove_keyspace :: "string \<Rightarrow> 'h TokenMap \<Rightarrow> 'h TokenMap" where
  "tokenmap_remove_keyspace keyspace tm =
     tm\<lparr>tokens_to_hosts_by_ks := AList.delete keyspace (tokens_to_hosts_by_ks tm)\<rparr>"

definition lookup_replicas :: "'h TokenMap \<Rightarrow> string \<Rightarrow> token \<Rightarrow> 'h list res" where
  "lookup_replicas tm keyspace token =
     (case cached tm keyspace of
        None \<Rightarrow> Inr []
      | Some [] \<Rightarrow> Inr []
      | Some m \<Rightarrow>
          (let point = bisect_right (ring tm) token;
               i = (if point = length (ring tm) then 0 else point)
           in if ring tm = [] then Inl IndexError
              else case map_of m (ring tm ! i) of None \<Rightarrow> Inl KeyError | Some hosts \<Rightarrow> Inr hosts))"

definition tokenmap_get_replicas ::
    "'h host_store \<Rightarrow> keyspace_dict \<Rightarrow> string \<Rightarrow> token \<Rightarrow> 'h TokenMap \<Rightarrow> 'h list res \<times> 'h TokenMap" where
  "tokenmap_get_replicas hs keyspaces keyspace token tm =
     (let tm' = (if cached tm keyspace = None then rebuild_keyspace hs keyspaces keyspace True tm else tm)
      in (lookup_replicas tm' keyspace token, tm'))"

section \<open>Metadata\<close>

text \<open>
  \<open>Metadata\<close>. Hosts registered are objects of a type \<open>'h\<close>; \<open>addr\<close> reads
  the address of one, which is the key of the registry.
\<close>

record ('a, 'h) Metadata =
  keyspaces :: keyspace_dict
  registered :: "('a \<times> 'h) list"
  partitioner :: "string option"
  token_map :: "'h TokenMap option"

definition metadata_init :: "('a, 'h) Metadata" where
  "metadata_init = \<lparr>keyspaces = [], registered = [], partitioner = None, token_map = None\<rparr>"

definition keyspace_rebuilt ::
    "'h host_store \<Rightarrow> string \<Rightarrow> ('a, 'h) Metadata \<Rightarrow> ('a, 'h) Metadata" where
  "keyspace_rebuilt hs ksname md =
     (case token_map md of
        Some t \<Rightarrow> md\<lparr>token_map := Some (rebuild_keyspace hs (keyspaces md) ksname False t)\<rparr>
      | None \<Rightarrow> md)"

definition keyspace_removed :: "string \<Rightarrow> ('a, 'h) Metadata \<Rightarrow> ('a, 'h) Metadata" where
  "keyspace_removed ksname md =
     (case token_map md of
        Some t \<Rightarrow> md\<lparr>token_map := Some (tokenmap_remove_keyspace ksname t)\<rparr>
      | None \<Rightarrow> md)"

text \<open>
  \<open>_keyspace_added\<close> and \<open>_keyspace_updated\<close> have the same body, \<open>keyspace_rebuilt\<close>, so the
  two branches of the loop of \<open>_rebuild_all\<close> are one.
\<close>

definition rebuild_all_step ::
    "'h host_store \<Rightarrow> KeyspaceMetadata \<Rightarrow> ('a, 'h) Metadata \<Rightarrow> ('a, 'h) Metadata" where
  "rebuild_all_step hs ks md =
     keyspace_rebuilt hs (ks_name ks) (md\<lparr>keyspaces := AList.update (ks_name ks) ks (keyspaces md)\<rparr>)"

definition rebuild_all ::
    "'h host_store \<Rightarrow> KeyspaceMetadata list \<Rightarrow> ('a, 'h) Metadata \<Rightarrow> ('a, 'h) Metadata" where
  "rebuild_all hs all_keyspaces md =
     (let md1 = fold (rebuild_all_step hs) all_keyspaces md;
          current = map ks_name all_keyspaces;
          removed = filter (\<lambda>n. n \<notin> set current) (map fst (keyspaces md1));
          md2 = md1\<lparr>keyspaces := filter (\<lambda>(n, m). n \<in> set current) (keyspaces md1)\<rparr>
      in fold keyspace_removed removed md2)"

definition update_keyspace ::
    "'h host_store \<Rightarrow> KeyspaceMetadata \<Rightarrow> (string \<times> UserType) list option
       \<Rightarrow> ('a, 'h) Metadata \<Rightarrow> ('a, 'h) Metadata" where
  "update_keyspace hs ks new_user_types md =
     (case map_of (keyspaces md) (ks_name ks) of
        Some old \<Rightarrow>
          (let ks' = ks\<lparr>tables := tables old,
                        user_types := (case new_user_types of Some u \<Rightarrow> u | None \<Rightarrow> user_types old),
                        indexes := indexes old, ks_functions := ks_functions old,
                        aggregates := aggregates old, views := views old\<rparr>;
               md' = md\<lparr>keyspaces := AList.update (ks_name ks) ks' (keyspaces md)\<rparr>
           in if \<not> strategy_opt_eq (replication_strategy ks') (replication_strategy old)
              then keyspace_rebuilt hs (ks_name ks) md' else md')
      | None \<Rightarrow>
          keyspace_rebuilt hs (ks_name ks)
            (md\<lparr>keyspaces := AList.update (ks_name ks) ks (keyspaces md)\<rparr>))"

definition drop_keyspace :: "string \<Rightarrow> ('a, 'h) Metadata \<Rightarrow> ('a, 'h) Metadata" where
  "drop_keyspace ksname md =
     (case map_of (keyspaces md) ksname of
        None \<Rightarrow> md
      | Some _ \<Rightarrow> keyspace_removed ksname (md\<lparr>keyspaces := AList.delete ksname (keyspaces md)\<rparr>))"

text \<open>
  An operation on one keyspace; nothing happens when the keyspace has disappeared
  (\<open>except KeyError: pass\<close>).
\<close>

definition on_keyspace ::
    "string \<Rightarrow> (KeyspaceMetadata \<Rightarrow> KeyspaceMetadata) \<Rightarrow> ('a, 'h) Metadata \<Rightarrow> ('a, 'h) Metadata" where
  "on_keyspace ksname f md =
     (case map_of (keyspaces md) ksname of
        None \<Rightarrow> md
      | Some ks \<Rightarrow> md\<lparr>keyspaces := AList.update ksname (f ks) (keyspaces md)\<rparr>)"

datatype table_or_view = TableResult TableMetadata | ViewResult MaterializedViewMetadata

fun update_table :: "table_or_view \<Rightarrow> ('a, 'h) Metadata \<Rightarrow> ('a, 'h) Metadata" where
  "update_table (TableResult t) md = on_keyspace (table_keyspace_name t) (add_table_metadata t) md"
| "update_table (ViewResult v) md = on_keyspace (view_keyspace_name v) (add_view_metadata v) md"

definition drop_table :: "string \<Rightarrow> string \<Rightarrow> ('a, 'h) Metadata \<Rightarrow> ('a, 'h) Metadata" where
  "drop_table ksname name = on_keyspace ksname (drop_table_metadata name)"

definition update_type :: "UserType \<Rightarrow> ('a, 'h) Metadata \<Rightarrow> ('a, 'h) Metadata" where
  "update_type u = on_keyspace (type_keyspace u)
     (\<lambda>ks. ks\<lparr>user_types := AList.update (type_name u) u (user_types ks)\<rparr>)"

definition drop_type :: "string \<Rightarrow> string \<Rightarrow> ('a, 'h) Metadata \<Rightarrow> ('a, 'h) Metadata" where
  "drop_type ksname name = on_keyspace ksname
     (\<lambda>ks. ks\<lparr>user_types := AList.delete name (user_types ks)\<rparr>)"

definition update_function :: "Function \<Rightarrow> ('a, 'h) Metadata \<Rightarrow> ('a, 'h) Metadata" where
  "update_function f = on_keyspace (function_keyspace f)
     (\<lambda>ks. ks\<lparr>ks_functions := AList.update (signature f) f (ks_functions ks)\<rparr>)"

definition drop_function :: "string \<Rightarrow> string \<Rightarrow> ('a, 'h) Metadata \<Rightarrow> ('a, 'h) Metadata" where
  "drop_function ksname sig = on_keyspace ksname
     (\<lambda>ks. ks\<lparr>ks_functions := AList.delete sig (ks_functions ks)\<rparr>)"

definition update_aggregate :: "Function \<Rightarrow> ('a, 'h) Metadata \<Rightarrow> ('a, 'h) Metadata" where
  "update_aggregate f = on_keyspace (function_keyspace f)
     (\<lambda>ks. ks\<lparr>aggregates := AList.update (signature f) f (aggregates ks)\<rparr>)"

definition drop_aggregate :: "string \<Rightarrow> string \<Rightarrow> ('a, 'h) Metadata \<Rightarrow> ('a, 'h) Metadata" where
  "drop_aggregate ksname sig = on_keyspace ksname
     (\<lambda>ks. ks\<lparr>aggregates := AList.delete sig (aggregates ks)\<rparr>)"

section \<open>The ring and the hosts\<close>

definition token_class_of :: "string \<Rightarrow> token_class option" where
  "token_class_of p =
     (if endswith p ''RandomPartitioner'' then Some MD5Token
      else if endswith p ''Murmur3Partitioner'' then Some Murmur3Token
      else if endswith p ''ByteOrderedPartitioner'' then Some BytesToken
      else None)"

fun build_ring ::
    "token_class \<Rightarrow> ('h \<times> string) list \<Rightarrow> (token \<times> 'h) list \<Rightarrow> token list
       \<Rightarrow> ((token \<times> 'h) list \<times> token list) res" where
  "build_ring cls [] owners tokens = Inr (owners, tokens)"
| "build_ring cls ((host, s) # rest) owners tokens =
     res_bind (token_from_string cls s)
       (\<lambda>token. build_ring cls rest (AList.update token host owners) (tokens @ [token]))"

text \<open>An exception leaves the new partitioner name and the old token map behind.\<close>

definition rebuild_token_map ::
    "string \<Rightarrow> ('h \<times> string list) list \<Rightarrow> ('a, 'h) Metadata \<Rightarrow> unit res \<times> ('a, 'h) Metadata" where
  "rebuild_token_map p token_strings md =
     (let md' = md\<lparr>partitioner := Some p\<rparr>
      in case token_class_of p of
           None \<Rightarrow> (Inr (), md'\<lparr>token_map := None\<rparr>)
         | Some cls \<Rightarrow>
             (case build_ring cls (concat (map (\<lambda>(h, ss). map (Pair h) ss) token_strings)) [] [] of
                Inl e \<Rightarrow> (Inl e, md')
              | Inr (owners, tokens) \<Rightarrow>
                  (Inr (), md'\<lparr>token_map := Some (tokenmap_init cls owners (sort tokens))\<rparr>)))"

definition metadata_get_replicas ::
    "(bytes \<Rightarrow> int) option \<Rightarrow> (bytes \<Rightarrow> bytes) \<Rightarrow> 'h host_store \<Rightarrow> string \<Rightarrow> bytes
       \<Rightarrow> ('a, 'h) Metadata \<Rightarrow> 'h list res \<times> ('a, 'h) Metadata" where
  "metadata_get_replicas murmur3 md5 hs keyspace key md =
     (case token_map md of
        None \<Rightarrow> (Inr [], md)
      | Some t \<Rightarrow>
          (case from_key murmur3 md5 (tm_token_class t) key of
             Inl e \<Rightarrow> (if e = NoMurmur3 then Inr [] else Inl e, md)
           | Inr token \<Rightarrow>
               (let (r, t') = tokenmap_get_replicas hs (keyspaces md) keyspace token t
                in (r, md\<lparr>token_map := Some t'\<rparr>))))"

definition can_support_partitioner :: "(bytes \<Rightarrow> int) option \<Rightarrow> ('a, 'h) Metadata \<Rightarrow> bool res" where
  "can_support_partitioner murmur3 md =
     (case partitioner md of
        None \<Rightarrow> Inl AttributeError
      | Some p \<Rightarrow> Inr (\<not> (endswith p ''Murmur3Partitioner'' \<and> murmur3 = None)))"

definition add_or_return_host ::
    "('h \<Rightarrow> 'a) \<Rightarrow> 'h \<Rightarrow> ('a, 'h) Metadata \<Rightarrow> ('h \<times> bool) \<times> ('a, 'h) Metadata" where
  "add_or_return_host addr host md =
     (case map_of (registered md) (addr host) of
        Some h \<Rightarrow> ((h, False), md)
      | None \<Rightarrow> ((host, True), md\<lparr>registered := AList.update (addr host) host (registered md)\<rparr>))"

definition remove_host ::
    "('h \<Rightarrow> 'a) \<Rightarrow> 'h \<Rightarrow> ('a, 'h) Metadata \<Rightarrow> bool \<times> ('a, 'h) Metadata" where
  "remove_host addr host md =
     (map_of (registered md) (addr host) \<noteq> None,
      md\<lparr>registered := AList.delete (addr host) (registered md)\<rparr>)"

definition get_host :: "'a \<Rightarrow> ('a, 'h) Metadata \<Rightarrow> 'h option" where
  "get_host address md = map_of (registered md) address"

definition all_hosts :: "('a, 'h) Metadata \<Rightarrow> 'h list" where
  "all_hosts md = map snd (registered md)"

section \<open>What the schema parser installs\<close>

text \<open>
  A keyspace as the parser assembles it from the rows of the schema tables. An exception while
  a row is read ends the loop, so what is installed is built from the rows before it.
\<close>

record keyspace_rows =
  row_name :: string
  row_durable_writes :: bool
  row_strategy_class :: "string option"
  row_strategy_options :: "(string \<times> string) list option"
  row_tables :: "TableMetadata list"
  row_types :: "UserType list"
  row_functions :: "Function list"
  row_aggregates :: "Function list"
  row_views :: "MaterializedViewMetadata list"

definition build_keyspace_metadata :: "keyspace_rows \<Rightarrow> KeyspaceMetadata" where
  "build_keyspace_metadata r =
     keyspace_init (row_name r) (row_durable_writes r) (row_strategy_class r) (row_strategy_options r)"

definition assemble_keyspace :: "keyspace_rows \<Rightarrow> KeyspaceMetadata" where
  "assemble_keyspace r =
     (let ks1 = fold add_table_metadata (row_tables r) (build_keyspace_metadata r);
          ks2 = ks1\<lparr>user_types := fold (\<lambda>u. AList.update (type_name u) u) (row_types r) (user_types ks1)\<rparr>;
          ks3 = ks2\<lparr>ks_functions := fold (\<lambda>f. AList.update (signature f) f) (row_functions r) (ks_functions ks2)\<rparr>;
          ks4 = ks3\<lparr>aggregates := fold (\<lambda>f. AList.update (signature f) f) (row_aggregates r) (aggregates ks3)\<rparr>
      in fold add_view_metadata (row_views r) ks4)"

text \<open>
  The operations that reach the metadata. \<open>refresh\<close> calls the update method for what the parser
  found and the drop method when it found nothing.
\<close>

datatype ('h, 'k) metadata_op =
    RebuildAll "keyspace_rows list"
  | UpdateKeyspace keyspace_rows "(string \<times> UserType) list option"
  | DropKeyspace string
  | UpdateTable table_or_view
  | DropTable string string
  | UpdateType UserType
  | DropType string string
  | UpdateFunction Function
  | DropFunction string string
  | UpdateAggregate Function
  | DropAggregate string string
  | RebuildTokenMap string "('h \<times> string list) list"
  | GetReplicas string 'k
  | AddHost 'h
  | RemoveHost 'h

fun metadata_step ::
    "(bytes \<Rightarrow> int) option \<Rightarrow> (bytes \<Rightarrow> bytes) \<Rightarrow> 'h host_store \<Rightarrow> ('h \<Rightarrow> 'a)
       \<Rightarrow> ('h, bytes) metadata_op \<Rightarrow> ('a, 'h) Metadata \<Rightarrow> ('a, 'h) Metadata" where
  "metadata_step murmur3 md5 hs addr (RebuildAll rows) md = rebuild_all hs (map assemble_keyspace rows) md"
| "metadata_step murmur3 md5 hs addr (UpdateKeyspace row types) md =
     update_keyspace hs (build_keyspace_metadata row) types md"
| "metadata_step murmur3 md5 hs addr (DropKeyspace ks) md = drop_keyspace ks md"
| "metadata_step murmur3 md5 hs addr (UpdateTable t) md = update_table t md"
| "metadata_step murmur3 md5 hs addr (DropTable ks t) md = drop_table ks t md"
| "metadata_step murmur3 md5 hs addr (UpdateType u) md = update_type u md"
| "metadata_step murmur3 md5 hs addr (DropType ks n) md = drop_type ks n md"
| "metadata_step murmur3 md5 hs addr (UpdateFunction f) md = update_function f md"
| "metadata_step murmur3 md5 hs addr (DropFunction ks s) md = drop_function ks s md"
| "metadata_step murmur3 md5 hs addr (UpdateAggregate f) md = update_aggregate f md"
| "metadata_step murmur3 md5 hs addr (DropAggregate ks s) md = drop_aggregate ks s md"
| "metadata_step murmur3 md5 hs addr (RebuildTokenMap p ts) md = snd (rebuild_token_map p ts md)"
| "metadata_step murmur3 md5 hs addr (GetReplicas ks key) md =
     snd (metadata_get_replicas murmur3 md5 hs ks key md)"
| "metadata_step murmur3 md5 hs addr (AddHost h) md = snd (add_or_return_host addr h md)"
| "metadata_step murmur3 md5 hs addr (RemoveHost h) md = snd (remove_host addr h md)"

definition metadata_run ::
    "(bytes \<Rightarrow> int) option \<Rightarrow> (bytes \<Rightarrow> bytes) \<Rightarrow> 'h host_store \<Rightarrow> ('h \<Rightarrow> 'a)
       \<Rightarrow> ('h, bytes) metadata_op list \<Rightarrow> ('a, 'h) Metadata" where
  "metadata_run murmur3 md5 hs addr ops = fold (metadata_step murmur3 md5 hs addr) ops metadata_init"

section \<open>The position in the ring\<close>

definition right_rank :: "'a::linorder list \<Rightarrow> 'a \<Rightarrow> nat" where
  "right_rank a x = length (takeWhile (\<lambda>y. y \<le> x) a)"

lemma right_rank_le: "right_rank a x \<le> length a"
  by (simp add: right_rank_def length_takeWhile_le)

lemma right_rank_less: "i < right_rank a x \<Longrightarrow> a ! i \<le> x"
  by (metis right_rank_def nth_mem set_takeWhileD takeWhile_nth)

lemma right_rank_ge:
  assumes "sorted a" "right_rank a x \<le> i" "i < length a"
  shows "x < a ! i"
proof -
  have r: "right_rank a x < length a" using assms by simp
  then have "\<not> a ! right_rank a x \<le> x" unfolding right_rank_def by (rule nth_length_takeWhile)
  moreover have "a ! right_rank a x \<le> a ! i" using assms by (simp add: sorted_nth_mono)
  ultimately show ?thesis by simp
qed

lemma bisect_right_loop_rank:
  assumes "sorted a" "lo \<le> right_rank a x" "right_rank a x \<le> hi" "hi \<le> length a"
  shows "bisect_right_loop a x lo hi = right_rank a x"
  using assms
proof (induction a x lo hi rule: bisect_right_loop.induct)
  case (1 a x lo hi)
  show ?case
  proof (cases "lo < hi")
    case True
    let ?mid = "(lo + hi) div 2"
    have m: "?mid < hi" "lo \<le> ?mid" using True by auto
    show ?thesis
    proof (cases "x < a ! ?mid")
      case less: True
      then have "right_rank a x \<le> ?mid" using right_rank_less [of ?mid a x] by (meson leD not_le)
      then show ?thesis
        using 1 True less m by (subst bisect_right_loop.simps) (simp add: Let_def)
    next
      case ge: False
      then have "\<not> right_rank a x \<le> ?mid" using right_rank_ge [of a x ?mid] 1(3, 6) m
        by (meson less_le_trans)
      then show ?thesis
        using 1 True ge by (subst bisect_right_loop.simps) (simp add: Let_def)
    qed
  qed (use 1 in \<open>simp add: bisect_right_loop.simps\<close>)
qed

lemma bisect_right_rank: "sorted a \<Longrightarrow> bisect_right a x = right_rank a x"
  by (simp add: bisect_right_def bisect_right_loop_rank right_rank_le)

text \<open>The first token of the ring after \<open>x\<close>, around the end of the ring if need be.\<close>

definition ring_next :: "'a::linorder list \<Rightarrow> 'a \<Rightarrow> 'a" where
  "ring_next tokens x = (case filter (\<lambda>t. x < t) tokens of t # _ \<Rightarrow> t | [] \<Rightarrow> hd tokens)"

lemma filter_right_rank:
  assumes "sorted a"
  shows "filter (\<lambda>t. x < t) a = drop (right_rank a x) a"
  using assms
proof (induction a)
  case (Cons y ys)
  then show ?case
  proof (cases "y \<le> x")
    case False
    with Cons.prems have "filter (\<lambda>t. x < t) ys = ys" by (auto simp: filter_id_conv)
    with False show ?thesis by (simp add: right_rank_def)
  qed (simp add: right_rank_def leD)
qed (simp add: right_rank_def)

lemma ring_next_point:
  assumes "sorted a" "a \<noteq> []"
  shows "a ! (if bisect_right a x = length a then 0 else bisect_right a x) = ring_next a x"
proof (cases "right_rank a x = length a")
  case True
  with assms show ?thesis by (simp add: bisect_right_rank ring_next_def filter_right_rank hd_conv_nth)
next
  case False
  then have "right_rank a x < length a" using right_rank_le [of a x] by linarith
  then have "drop (right_rank a x) a = a ! right_rank a x # drop (Suc (right_rank a x)) a"
    by (simp add: Cons_nth_drop_Suc)
  with False assms show ?thesis by (simp add: bisect_right_rank ring_next_def filter_right_rank)
qed

lemma ring_next_in: "sorted a \<Longrightarrow> a \<noteq> [] \<Longrightarrow> ring_next a x \<in> set a"
  by (cases "filter (\<lambda>t. x < t) a") (auto simp: ring_next_def dest: filter_eq_ConsD)

section \<open>Replica maps\<close>

lemma fold_update_dom: "dom (map_of (fold (\<lambda>i. AList.update (g i) (f i)) is m)) = g ` set is \<union> dom (map_of m)"
  by (induction "is" arbitrary: m) (auto simp: update_conv')

lemma simple_map_total:
  assumes "\<And>t. t \<in> set rg \<Longrightarrow> owner t \<noteq> None"
  shows "\<exists>m. simple_make_token_replica_map rf owner rg = Inr m \<and> dom (map_of m) = set rg"
proof -
  let ?f = "\<lambda>i. take (nat rf) (dedup (map (\<lambda>t. the (owner t)) (rotate i rg)))"
  have loop: "simple_loop owner rg rf i 0 [] = Inr (?f i)" for i
    using simple_loop_result [of rg owner 0 "[]" i rf] assms by simp
  let ?m = "fold (\<lambda>i. AList.update (rg ! i) (?f i)) [0..<length rg] []"
  have "simple_make_token_replica_map rf owner rg = Inr ?m"
    unfolding simple_make_token_replica_map_def by (rule simple_map_result) (rule loop)
  moreover have "(!) rg ` {0..<length rg} = set rg" by (simp add: nth_image)
  ultimately show ?thesis by (simp add: fold_update_dom)
qed

lemma nts_ring_loop_dom:
  "dom (map_of (nts_ring_loop hs rfs owners t rg idx m current)) = (!) rg ` set idx \<union> dom (map_of m)"
  by (induction idx arbitrary: m current) (auto simp: update_conv' split: prod.splits)

lemma nts_map_total:
  assumes "\<And>t. t \<in> set rg \<Longrightarrow> owner t \<noteq> None"
  shows "\<exists>m. nts_make_token_replica_map hs rfs owner rg = Inr m \<and> dom (map_of m) = set rg"
proof -
  have "(!) rg ` {0..<length rg} = set rg" by (simp add: nth_image)
  then show ?thesis
    by (simp add: nts_make_token_replica_map_def Let_def res_map_owner [OF assms] nts_ring_loop_dom)
qed

lemma replica_map_total:
  assumes "\<And>t. t \<in> set rg \<Longrightarrow> owner t \<noteq> None"
  shows "\<exists>m. make_token_replica_map hs s owner rg = Inr m \<and> (m = [] \<or> dom (map_of m) = set rg)"
proof (cases s)
  case (SimpleStrategy rf)
  with simple_map_total [of rg owner rf, OF assms] show ?thesis by auto
next
  case (NetworkTopologyStrategy rfs)
  with nts_map_total [of rg owner hs rfs, OF assms] show ?thesis by auto
qed simp_all

text \<open>Equal strategies give equal replica maps.\<close>

lemma dict_eq_map_of: "dict_eq a b \<Longrightarrow> map_of a = map_of b"
proof
  fix k
  assume "dict_eq a b"
  then show "map_of a k = map_of b k"
    by (cases "k \<in> set (map fst a @ map fst b)") (simp_all add: dict_eq_def map_of_eq_None_iff [THEN iffD2])
qed

lemma map_of_filter_distinct:
  assumes "distinct (map fst a)"
  shows "map_of (filter P a) k = (case map_of a k of None \<Rightarrow> None | Some v \<Rightarrow> if P (k, v) then Some v else None)"
  using assms by (induction a) (auto simp: map_of_eq_None_iff rev_image_eqI split: option.splits)

fun strategy_wf :: "strategy option \<Rightarrow> bool" where
  "strategy_wf (Some (NetworkTopologyStrategy rfs)) = distinct (map fst rfs)"
| "strategy_wf _ = True"

lemma distinct_fold_update:
  "distinct (map fst m) \<Longrightarrow> distinct (map fst (fold (\<lambda>(k, n). AList.update k n) xs m))"
  by (induction xs arbitrary: m) (auto simp: distinct_update)

lemma nts_init_wf: "nts_init opts = Inr s \<Longrightarrow> strategy_wf (Some s)"
  by (auto simp: nts_init_def distinct_fold_update elim!: res_bindE split: option.splits)

lemma simple_init_wf: "simple_init opts = Inr s \<Longrightarrow> strategy_wf (Some s)"
  by (auto simp: simple_init_def split: option.splits sum.splits)

lemma strategy_create_wf: "strategy_wf (strategy_create cls opts)"
  by (auto simp: strategy_create_def Let_def unknown_init_def nts_init_wf simple_init_wf
      split: option.split list.split sum.split if_splits)

lemma nts_dc_step_cong: "map_of r1 = map_of r2 \<Longrightarrow> nts_dc_step hs r1 = nts_dc_step hs r2"
  by (intro ext) (simp only: nts_dc_step_def)

lemma nts_ring_loop_cong:
  "map_of r1 = map_of r2 \<Longrightarrow>
     nts_ring_loop hs r1 owners t rg idx m current = nts_ring_loop hs r2 owners t rg idx m current"
  by (induction idx arbitrary: m current) (simp_all add: nts_ring_step_def nts_dc_step_cong [of r1 r2] split: prod.split)

lemma strategy_eq_replica_map:
  assumes "strategy_eq a b" "strategy_wf (Some a)" "strategy_wf (Some b)"
  shows "make_token_replica_map hs a owner rg = make_token_replica_map hs b owner rg"
proof (cases "\<exists>x y. a = NetworkTopologyStrategy x \<and> b = NetworkTopologyStrategy y")
  case True
  then obtain x y where ab: "a = NetworkTopologyStrategy x" "b = NetworkTopologyStrategy y" by blast
  with assms have "map_of x = map_of y" "distinct (map fst x)" "distinct (map fst y)"
    by (simp_all add: dict_eq_map_of)
  then have "map_of (filter P x) = map_of (filter P y)" for P
    by (intro ext) (simp add: map_of_filter_distinct)
  note eq = nts_ring_loop_cong [OF this [of "\<lambda>(dc, rf). rf > 0"]]
  show ?thesis unfolding ab make_token_replica_map.simps nts_make_token_replica_map_def Let_def eq ..
next
  case False
  with assms(1) show ?thesis by (cases a; cases b) auto
qed

section \<open>The cache of replica maps\<close>

definition ring_ok :: "'h TokenMap \<Rightarrow> bool" where
  "ring_ok tm \<longleftrightarrow> sorted (ring tm) \<and> (\<forall>t \<in> set (ring tm). map_of (token_to_host_owner tm) t \<noteq> None)"

definition cache_ok :: "'h host_store \<Rightarrow> keyspace_dict \<Rightarrow> 'h TokenMap \<Rightarrow> string \<Rightarrow> bool" where
  "cache_ok hs kss tm n \<longleftrightarrow>
     (\<forall>m. cached tm n = Some m \<longrightarrow>
        (\<exists>ks. map_of kss n = Some ks \<and> replica_map_for_keyspace hs tm ks = Inr (Some m)))"

definition coherent :: "'h host_store \<Rightarrow> ('a, 'h) Metadata \<Rightarrow> bool" where
  "coherent hs md \<longleftrightarrow>
     (\<forall>n ks. map_of (keyspaces md) n = Some ks \<longrightarrow> strategy_wf (replication_strategy ks))
     \<and> (\<forall>tm. token_map md = Some tm \<longrightarrow> ring_ok tm \<and> (\<forall>n. cache_ok hs (keyspaces md) tm n))"

lemma replica_map_frame [simp]:
  "replica_map_for_keyspace hs (tm\<lparr>tokens_to_hosts_by_ks := c\<rparr>) ks = replica_map_for_keyspace hs tm ks"
  by (simp add: replica_map_for_keyspace_def split: option.split)

lemma replica_map_for_keyspace_total:
  assumes "ring_ok tm"
  shows "\<exists>m. replica_map_for_keyspace hs tm ks = Inr m"
proof (cases "replication_strategy ks")
  case (Some s)
  have "\<And>t. t \<in> set (ring tm) \<Longrightarrow> map_of (token_to_host_owner tm) t \<noteq> None"
    using assms by (simp add: ring_ok_def)
  from replica_map_total [where owner = "map_of (token_to_host_owner tm)", OF this]
  obtain m where "make_token_replica_map hs s (map_of (token_to_host_owner tm)) (ring tm) = Inr m" by blast
  with Some show ?thesis by (simp add: replica_map_for_keyspace_def)
qed (simp add: replica_map_for_keyspace_def)

lemma cached_update: "cached (tm\<lparr>tokens_to_hosts_by_ks := AList.update n m (tokens_to_hosts_by_ks tm)\<rparr>) k
    = (if k = n then m else cached tm k)"
  by (simp add: cached_def update_conv')

lemma ring_ok_frame [simp]: "ring_ok (tm\<lparr>tokens_to_hosts_by_ks := c\<rparr>) = ring_ok tm"
  by (simp add: ring_ok_def)

lemma ring_ok_rebuild [simp]: "ring_ok (rebuild_keyspace hs kss n b tm) = ring_ok tm"
  by (simp add: rebuild_keyspace_def Let_def split: option.split)

text \<open>Rebuilding the entry of one keyspace makes it right and leaves the others alone.\<close>

lemma rebuild_keyspace_other: "k \<noteq> n \<Longrightarrow> cache_ok hs kss (rebuild_keyspace hs kss n b tm) k = cache_ok hs kss tm k"
  by (simp add: rebuild_keyspace_def cache_ok_def Let_def cached_update split: option.split)

lemma rebuild_keyspace_same:
  assumes "ring_ok tm" "map_of kss n = Some ks" "b \<Longrightarrow> cache_ok hs kss tm n"
  shows "cache_ok hs kss (rebuild_keyspace hs kss n b tm) n"
  using assms replica_map_for_keyspace_total [OF assms(1), of hs ks]
  by (auto simp: rebuild_keyspace_def cache_ok_def Let_def cached_update)

lemma rebuild_keyspace_build:
  assumes "ring_ok tm" "cache_ok hs kss tm n" "cached tm n = None"
  shows "cached (rebuild_keyspace hs kss n True tm) n =
    (case map_of kss n of None \<Rightarrow> None | Some ks \<Rightarrow> projr (replica_map_for_keyspace hs tm ks))"
proof (cases "map_of kss n")
  case (Some ks)
  obtain m where "replica_map_for_keyspace hs tm ks = Inr m"
    using replica_map_for_keyspace_total [OF assms(1)] by blast
  with Some assms(3) show ?thesis by (simp add: rebuild_keyspace_def Let_def cached_update)
qed (use assms(3) in \<open>simp add: rebuild_keyspace_def\<close>)

text \<open>Coherence up to the keyspaces of a set.\<close>

definition coherent_out :: "string set \<Rightarrow> 'h host_store \<Rightarrow> ('a, 'h) Metadata \<Rightarrow> bool" where
  "coherent_out S hs md \<longleftrightarrow>
     (\<forall>n ks. map_of (keyspaces md) n = Some ks \<longrightarrow> strategy_wf (replication_strategy ks))
     \<and> (\<forall>tm. token_map md = Some tm \<longrightarrow> ring_ok tm \<and> (\<forall>n. n \<notin> S \<longrightarrow> cache_ok hs (keyspaces md) tm n))"

lemma coherent_out_empty: "coherent hs md = coherent_out {} hs md"
  by (simp add: coherent_def coherent_out_def)

lemma coherent_outD:
  assumes "coherent_out S hs md"
  shows "map_of (keyspaces md) n = Some ks \<Longrightarrow> strategy_wf (replication_strategy ks)"
    "token_map md = Some tm \<Longrightarrow> ring_ok tm"
    "token_map md = Some tm \<Longrightarrow> n \<notin> S \<Longrightarrow> cache_ok hs (keyspaces md) tm n"
  using assms unfolding coherent_out_def by blast+

lemma coherent_outI:
  assumes "\<And>n ks. map_of (keyspaces md) n = Some ks \<Longrightarrow> strategy_wf (replication_strategy ks)"
    "\<And>tm. token_map md = Some tm \<Longrightarrow> ring_ok tm"
    "\<And>tm n. token_map md = Some tm \<Longrightarrow> n \<notin> S \<Longrightarrow> cache_ok hs (keyspaces md) tm n"
  shows "coherent_out S hs md"
  using assms unfolding coherent_out_def by blast

lemma coherent_set_keyspace:
  assumes "coherent_out S hs md" "strategy_wf (replication_strategy ks)"
  shows "coherent_out (insert n S) hs (md\<lparr>keyspaces := AList.update n ks (keyspaces md)\<rparr>)"
proof (rule coherent_outI, goal_cases)
  case (1 k ks')
  then show ?case using assms coherent_outD(1) [OF assms(1)] by (auto simp: update_conv' split: if_splits)
next
  case (3 tm k)
  then show ?case using coherent_outD(3) [OF assms(1), of tm k] by (simp add: cache_ok_def update_conv')
qed (use coherent_outD(2) [OF assms(1)] in simp)

lemma coherent_rebuilt:
  assumes "coherent_out (insert n S) hs md" "map_of (keyspaces md) n = Some ks"
  shows "coherent_out S hs (keyspace_rebuilt hs n md)"
proof (cases "token_map md")
  case (Some tm)
  note tm = coherent_outD(2, 3) [OF assms(1) Some]
  show ?thesis
  proof (rule coherent_outI, goal_cases)
    case (3 tm' k)
    then show ?case using tm Some rebuild_keyspace_same [OF tm(1) assms(2)]
      by (cases "k = n") (auto simp: keyspace_rebuilt_def rebuild_keyspace_other)
  qed (use tm Some coherent_outD(1) [OF assms(1)] in \<open>auto simp: keyspace_rebuilt_def\<close>)
next
  case None
  then show ?thesis using assms(1) by (auto simp: keyspace_rebuilt_def coherent_out_def)
qed

lemma coherent_removed:
  assumes "coherent_out (insert n S) hs md"
  shows "coherent_out S hs (keyspace_removed n md)"
proof (cases "token_map md")
  case (Some tm)
  note tm = coherent_outD(2, 3) [OF assms(1) Some]
  show ?thesis
  proof (rule coherent_outI, goal_cases)
    case (3 tm' k)
    then have k: "tm' = tokenmap_remove_keyspace n tm" "k \<notin> S" using Some by (auto simp: keyspace_removed_def)
    show ?case
    proof (cases "k = n")
      case True
      then show ?thesis by (simp add: k tokenmap_remove_keyspace_def cache_ok_def cached_def delete_conv')
    next
      case False
      with tm(2) [of k] k(2) have "cache_ok hs (keyspaces md) tm k" by simp
      with False Some show ?thesis
        by (simp add: k tokenmap_remove_keyspace_def cache_ok_def cached_def delete_conv' keyspace_removed_def)
    qed
  qed (use tm Some coherent_outD(1) [OF assms(1)] in
        \<open>auto simp: keyspace_removed_def tokenmap_remove_keyspace_def\<close>)
next
  case None
  then show ?thesis using assms by (auto simp: keyspace_removed_def coherent_out_def)
qed

lemma coherent_removed_all:
  "coherent_out (set ns \<union> S) hs md \<Longrightarrow> coherent_out S hs (fold keyspace_removed ns md)"
  by (induction ns arbitrary: md) (simp_all add: coherent_removed)

section \<open>Every operation keeps the cache coherent\<close>

lemma add_table_strategy [simp]: "replication_strategy (add_table_metadata t ks) = replication_strategy ks"
  by (simp add: add_table_metadata_def Let_def split: prod.split)

lemma add_view_strategy [simp]: "replication_strategy (add_view_metadata v ks) = replication_strategy ks"
  by (simp add: add_view_metadata_def split: option.split)

lemma drop_table_strategy [simp]: "replication_strategy (drop_table_metadata n ks) = replication_strategy ks"
  by (simp add: drop_table_metadata_def Let_def split: option.split)

lemma fold_strategy:
  "(\<And>x ks. replication_strategy (f x ks) = replication_strategy ks) \<Longrightarrow>
     replication_strategy (fold f xs ks) = replication_strategy ks"
  by (induction xs arbitrary: ks) simp_all

lemma assemble_strategy_wf: "strategy_wf (replication_strategy (assemble_keyspace r))"
  by (simp add: assemble_keyspace_def Let_def fold_strategy build_keyspace_metadata_def keyspace_init_def
      strategy_create_wf)

lemma coherent_rebuild_all_step:
  assumes "coherent_out {} hs md" "strategy_wf (replication_strategy ks)"
  shows "coherent_out {} hs (rebuild_all_step hs ks md)"
  unfolding rebuild_all_step_def
  by (rule coherent_rebuilt [OF coherent_set_keyspace [OF assms]]) (simp add: update_conv')

lemma coherent_rebuild_all:
  assumes "coherent hs md" "\<forall>ks \<in> set kss. strategy_wf (replication_strategy ks)"
  shows "coherent hs (rebuild_all hs kss md)"
proof -
  let ?md1 = "fold (rebuild_all_step hs) kss md"
  let ?cur = "map ks_name kss"
  let ?rem = "filter (\<lambda>n. n \<notin> set ?cur) (map fst (keyspaces ?md1))"
  have md1: "coherent_out {} hs ?md1"
    using assms unfolding coherent_out_empty
    by (induction kss arbitrary: md) (simp_all add: coherent_rebuild_all_step)
  have f: "map_of (filter (\<lambda>(n, m). n \<in> set ?cur) d) n = (if n \<in> set ?cur then map_of d n else None)"
    for d :: keyspace_dict and n
    by (induction d) auto
  have "coherent_out (set ?rem) hs (?md1\<lparr>keyspaces := filter (\<lambda>(n, m). n \<in> set ?cur) (keyspaces ?md1)\<rparr>)"
  proof (rule coherent_outI, goal_cases)
    case (1 n ks)
    then show ?case using coherent_outD(1) [OF md1] by (simp add: f del: set_map split: if_splits)
  next
    case (3 tm n)
    then have c: "cache_ok hs (keyspaces ?md1) tm n" using coherent_outD(3) [OF md1, of tm n] by simp
    show ?case unfolding cache_ok_def
    proof (intro allI impI)
      fix m
      assume "cached tm n = Some m"
      with c obtain ks where ks: "map_of (keyspaces ?md1) n = Some ks"
        "replica_map_for_keyspace hs tm ks = Inr (Some m)" unfolding cache_ok_def by blast
      then have "n \<in> set (map fst (keyspaces ?md1))" by (auto dest!: map_of_SomeD simp: rev_image_eqI)
      with 3(2) have "n \<in> set ?cur" by auto
      with ks f show "\<exists>ks. map_of (keyspaces (?md1\<lparr>keyspaces := filter (\<lambda>(n, m). n \<in> set ?cur) (keyspaces ?md1)\<rparr>)) n
          = Some ks \<and> replica_map_for_keyspace hs tm ks = Inr (Some m)" by simp
    qed
  qed (use coherent_outD(2) [OF md1] in simp)
  then have "coherent_out {} hs (rebuild_all hs kss md)"
    unfolding rebuild_all_def Let_def by (intro coherent_removed_all) simp
  then show ?thesis by (simp add: coherent_out_empty)
qed

lemma replica_map_same_strategy:
  "replication_strategy a = replication_strategy b \<Longrightarrow>
     replica_map_for_keyspace hs tm a = replica_map_for_keyspace hs tm b"
  by (simp add: replica_map_for_keyspace_def)

lemma replica_map_eq_strategy:
  assumes "strategy_opt_eq (replication_strategy a) (replication_strategy b)"
    "strategy_wf (replication_strategy a)" "strategy_wf (replication_strategy b)"
  shows "replica_map_for_keyspace hs tm a = replica_map_for_keyspace hs tm b"
  using assms
  by (cases "replication_strategy a"; cases "replication_strategy b")
    (simp_all add: replica_map_for_keyspace_def strategy_eq_replica_map del: strategy_wf.simps)

text \<open>A keyspace replaced by one whose replica map is the same.\<close>

lemma coherent_replace:
  assumes "coherent hs md" "map_of (keyspaces md) n = Some old" "strategy_wf (replication_strategy ks)"
    "\<And>tm. replica_map_for_keyspace hs tm ks = replica_map_for_keyspace hs tm old"
  shows "coherent hs (md\<lparr>keyspaces := AList.update n ks (keyspaces md)\<rparr>)"
proof -
  note md = assms(1) [unfolded coherent_out_empty]
  note new = coherent_set_keyspace [OF md assms(3), of n]
  show ?thesis unfolding coherent_out_empty
  proof (rule coherent_outI, goal_cases)
    case (3 tm k)
    then show ?case
      using coherent_outD(3) [OF new, of tm k] coherent_outD(3) [OF md, of tm n] assms(2, 4)
      by (cases "k = n") (auto simp: cache_ok_def update_conv')
  qed (use coherent_outD(1, 2) [OF new] in blast)+
qed

lemma coherent_on_keyspace:
  assumes "coherent hs md" "\<And>ks. replication_strategy (f ks) = replication_strategy ks"
  shows "coherent hs (on_keyspace n f md)"
proof (cases "map_of (keyspaces md) n")
  case (Some ks)
  have "strategy_wf (replication_strategy (f ks))"
    using coherent_outD(1) [OF assms(1) [unfolded coherent_out_empty] Some] assms(2) by simp
  from coherent_replace [OF assms(1) Some this replica_map_same_strategy [OF assms(2)]] Some
  show ?thesis by (simp add: on_keyspace_def)
qed (use assms in \<open>simp add: on_keyspace_def\<close>)

lemma coherent_update_keyspace:
  assumes "coherent hs md" "strategy_wf (replication_strategy ks)"
  shows "coherent hs (update_keyspace hs ks types md)"
proof (cases "map_of (keyspaces md) (ks_name ks)")
  case None
  have "coherent_out {} hs (keyspace_rebuilt hs (ks_name ks)
      (md\<lparr>keyspaces := AList.update (ks_name ks) ks (keyspaces md)\<rparr>))"
    by (rule coherent_rebuilt [OF coherent_set_keyspace [OF assms(1) [unfolded coherent_out_empty] assms(2)]])
      (simp add: update_conv')
  with None show ?thesis by (simp add: update_keyspace_def coherent_out_empty)
next
  case (Some old)
  let ?ks = "ks\<lparr>tables := tables old,
      user_types := (case types of Some u \<Rightarrow> u | None \<Rightarrow> user_types old),
      indexes := indexes old, ks_functions := ks_functions old,
      aggregates := aggregates old, views := views old\<rparr>"
  let ?md = "md\<lparr>keyspaces := AList.update (ks_name ks) ?ks (keyspaces md)\<rparr>"
  have wf: "strategy_wf (replication_strategy ?ks)" using assms(2) by simp
  have u: "update_keyspace hs ks types md =
      (if \<not> strategy_opt_eq (replication_strategy ?ks) (replication_strategy old)
       then keyspace_rebuilt hs (ks_name ks) ?md else ?md)"
    by (simp add: update_keyspace_def Some Let_def)
  show ?thesis
  proof (cases "strategy_opt_eq (replication_strategy ?ks) (replication_strategy old)")
    case True
    have "strategy_wf (replication_strategy old)"
      using coherent_outD(1) [OF assms(1) [unfolded coherent_out_empty] Some] .
    from coherent_replace [OF assms(1) Some wf replica_map_eq_strategy [OF True wf this]] True
    show ?thesis by (simp add: u)
  next
    case False
    have "coherent_out {} hs (keyspace_rebuilt hs (ks_name ks) ?md)"
      by (rule coherent_rebuilt [OF coherent_set_keyspace [OF assms(1) [unfolded coherent_out_empty] wf]])
        (simp add: update_conv')
    with False show ?thesis by (simp add: u coherent_out_empty)
  qed
qed

lemma coherent_drop_keyspace:
  assumes "coherent hs md"
  shows "coherent hs (drop_keyspace n md)"
proof (cases "map_of (keyspaces md) n")
  case (Some ks)
  note md = assms [unfolded coherent_out_empty]
  have "coherent_out (insert n {}) hs (md\<lparr>keyspaces := AList.delete n (keyspaces md)\<rparr>)"
  proof (rule coherent_outI, goal_cases)
    case (3 tm k)
    then show ?case using coherent_outD(3) [OF md, of tm k] by (simp add: cache_ok_def delete_conv')
  qed (use coherent_outD(1, 2) [OF md] in \<open>auto simp: delete_conv' split: if_splits\<close>)
  from coherent_removed [OF this] Some show ?thesis by (simp add: drop_keyspace_def coherent_out_empty)
qed (use assms in \<open>simp add: drop_keyspace_def\<close>)

lemma build_ring_owned:
  assumes "build_ring cls rows owners tokens = Inr (owners', tokens')" "set tokens \<subseteq> dom (map_of owners)"
  shows "set tokens' \<subseteq> dom (map_of owners')"
  using assms
proof (induction cls rows owners tokens rule: build_ring.induct)
  case (2 cls host s rest owners tokens)
  then obtain t where t: "token_from_string cls s = Inr t"
    "build_ring cls rest (AList.update t host owners) (tokens @ [t]) = Inr (owners', tokens')"
    by (auto elim: res_bindE)
  have "set (tokens @ [t]) \<subseteq> dom (map_of (AList.update t host owners))"
    using 2(3) by (auto simp: update_conv')
  from 2(1) [OF t this] show ?case .
qed simp

lemma coherent_rebuild_token_map:
  assumes "coherent hs md"
  shows "coherent hs (snd (rebuild_token_map p ts md))"
proof (cases "token_class_of p")
  case (Some cls)
  show ?thesis
  proof (cases "build_ring cls (concat (map (\<lambda>(h, ss). map (Pair h) ss) ts)) [] []")
    case (Inr x)
    obtain owners tokens where x: "x = (owners, tokens)" by force
    have "set tokens \<subseteq> dom (map_of owners)" using build_ring_owned [OF Inr [unfolded x]] by simp
    with Some Inr x assms show ?thesis
      by (auto simp: rebuild_token_map_def coherent_def ring_ok_def tokenmap_init_def cache_ok_def cached_def)
  qed (use Some assms in \<open>auto simp: rebuild_token_map_def coherent_def\<close>)
qed (use assms in \<open>auto simp: rebuild_token_map_def coherent_def\<close>)

lemma coherent_get_replicas:
  assumes "coherent hs md"
  shows "coherent hs (snd (metadata_get_replicas murmur3 md5 hs n key md))"
proof (cases "token_map md")
  case (Some tm)
  note tm = coherent_outD(2, 3) [OF assms [unfolded coherent_out_empty] Some]
  have "cache_ok hs (keyspaces md) (rebuild_keyspace hs (keyspaces md) n True tm) k" for k
  proof (cases "k = n")
    case True
    show ?thesis
    proof (cases "map_of (keyspaces md) n")
      case None
      then have "rebuild_keyspace hs (keyspaces md) n True tm = tm" by (simp add: rebuild_keyspace_def)
      then show ?thesis using tm(2) by simp
    next
      case (Some ks)
      then show ?thesis using rebuild_keyspace_same [OF tm(1) Some] tm(2) True by blast
    qed
  next
    case False
    then show ?thesis using tm(2) by (simp add: rebuild_keyspace_other)
  qed
  with Some assms tm show ?thesis
    by (auto simp: metadata_get_replicas_def tokenmap_get_replicas_def Let_def coherent_def split: sum.split)
qed (use assms in \<open>simp add: metadata_get_replicas_def\<close>)

lemma coherent_step: "coherent hs md \<Longrightarrow> coherent hs (metadata_step murmur3 md5 hs addr op md)"
proof (induction op)
  case (RebuildAll rows)
  then show ?case by (auto intro!: coherent_rebuild_all assemble_strategy_wf)
next
  case (UpdateKeyspace row types)
  then show ?case
    by (auto intro!: coherent_update_keyspace strategy_create_wf simp: build_keyspace_metadata_def keyspace_init_def)
next
  case (UpdateTable t)
  then show ?case by (cases t) (simp_all add: coherent_on_keyspace)
next
  case (AddHost h)
  then show ?case by (auto simp: add_or_return_host_def coherent_def split: option.split)
next
  case (RemoveHost h)
  then show ?case by (auto simp: remove_host_def coherent_def)
qed (simp_all add: coherent_on_keyspace coherent_drop_keyspace coherent_rebuild_token_map
      coherent_get_replicas drop_table_def update_type_def drop_type_def update_function_def
      drop_function_def update_aggregate_def drop_aggregate_def)

lemma coherent_run: "coherent hs (metadata_run murmur3 md5 hs addr ops)"
proof -
  have "coherent hs md \<Longrightarrow> coherent hs (fold (metadata_step murmur3 md5 hs addr) ops md)" for md
    by (induction ops arbitrary: md) (simp_all add: coherent_step)
  moreover have "coherent hs metadata_init" by (simp add: coherent_def metadata_init_def)
  ultimately show ?thesis unfolding metadata_run_def by blast
qed

text \<open>The replicas of a token, computed from the strategy of the keyspace without any cache.\<close>

definition replicas_spec :: "'h host_store \<Rightarrow> keyspace_dict \<Rightarrow> 'h TokenMap \<Rightarrow> string \<Rightarrow> token \<Rightarrow> 'h list" where
  "replicas_spec hs kss tm n token =
     (case map_of kss n of
        None \<Rightarrow> []
      | Some ks \<Rightarrow>
          (case replication_strategy ks of
             None \<Rightarrow> []
           | Some s \<Rightarrow>
               (case make_token_replica_map hs s (map_of (token_to_host_owner tm)) (ring tm) of
                  Inl e \<Rightarrow> []
                | Inr m \<Rightarrow> (case map_of m (ring_next (ring tm) token) of Some hosts \<Rightarrow> hosts | None \<Rightarrow> []))))"

lemma lookup_replicas_spec:
  assumes ok: "ring_ok tm" and m: "replica_map_for_keyspace hs tm ks = Inr (Some m)"
    and c: "cached tm n = Some m" and ks: "map_of kss n = Some ks"
  shows "lookup_replicas tm n token = Inr (replicas_spec hs kss tm n token)"
proof -
  have own: "\<And>t. t \<in> set (ring tm) \<Longrightarrow> map_of (token_to_host_owner tm) t \<noteq> None"
    and sorted: "sorted (ring tm)" using ok by (simp_all add: ring_ok_def)
  from m obtain s where s: "replication_strategy ks = Some s"
    "make_token_replica_map hs s (map_of (token_to_host_owner tm)) (ring tm) = Inr m"
    by (auto simp: replica_map_for_keyspace_def res_bind_Inr_iff split: option.splits)
  from replica_map_total [where owner = "map_of (token_to_host_owner tm)", OF own] s(2)
  have dom: "m = [] \<or> dom (map_of m) = set (ring tm)" by (metis Inr_inject)
  show ?thesis
  proof (cases m)
    case Nil
    then show ?thesis using c ks s by (simp add: lookup_replicas_def replicas_spec_def)
  next
    case (Cons p ps)
    then have d: "dom (map_of m) = set (ring tm)" and ne: "ring tm \<noteq> []" using dom by auto
    have "ring_next (ring tm) token \<in> dom (map_of m)" using ring_next_in [OF sorted ne] d by simp
    then obtain hosts where "map_of m (ring_next (ring tm) token) = Some hosts" by blast
    then show ?thesis using c ks s ring_next_point [OF sorted ne, of token] Cons ne
      by (auto simp: lookup_replicas_def replicas_spec_def Let_def split: if_splits)
  qed
qed

lemma rebuild_keyspace_frame [simp]:
  "ring (rebuild_keyspace hs kss n b tm) = ring tm"
  "token_to_host_owner (rebuild_keyspace hs kss n b tm) = token_to_host_owner tm"
  by (simp_all add: rebuild_keyspace_def Let_def split: option.split)

lemma tokenmap_get_replicas_spec:
  assumes ok: "ring_ok tm" and c: "cache_ok hs kss tm n"
  shows "fst (tokenmap_get_replicas hs kss n token tm) = Inr (replicas_spec hs kss tm n token)"
proof (cases "cached tm n")
  case (Some m)
  with c obtain ks where "map_of kss n = Some ks" "replica_map_for_keyspace hs tm ks = Inr (Some m)"
    unfolding cache_ok_def by blast
  with lookup_replicas_spec [OF ok _ Some] Some show ?thesis by (simp add: tokenmap_get_replicas_def Let_def)
next
  case None
  let ?tm = "rebuild_keyspace hs kss n True tm"
  have get: "fst (tokenmap_get_replicas hs kss n token tm) = lookup_replicas ?tm n token"
    using None by (simp add: tokenmap_get_replicas_def Let_def)
  note b = rebuild_keyspace_build [OF ok c None]
  have frame: "replicas_spec hs kss ?tm n token = replicas_spec hs kss tm n token"
    unfolding replicas_spec_def rebuild_keyspace_frame ..
  show ?thesis
  proof (cases "map_of kss n")
    case none: None
    then show ?thesis using b by (simp add: get lookup_replicas_def replicas_spec_def)
  next
    case ks: (Some ks)
    obtain x where x: "replica_map_for_keyspace hs tm ks = Inr x"
      using replica_map_for_keyspace_total [OF ok] by blast
    then have cx: "cached ?tm n = x" using b ks by simp
    show ?thesis
    proof (cases x)
      case none: None
      then have "replication_strategy ks = None" using x
        by (auto simp: replica_map_for_keyspace_def res_bind_Inr_iff split: option.splits)
      then show ?thesis using none cx ks by (simp add: get lookup_replicas_def replicas_spec_def)
    next
      case (Some m)
      have "replica_map_for_keyspace hs ?tm ks = Inr (Some m)"
        using x unfolding Some replica_map_for_keyspace_def rebuild_keyspace_frame .
      from lookup_replicas_spec [OF _ this cx [unfolded Some] ks] ok frame show ?thesis by (simp add: get)
    qed
  qed
qed


section \<open>The schema maps of a keyspace\<close>

text \<open>
  Tables and views are filed under their own names, every view of the keyspace is also listed by
  its base table, and every index of the keyspace belongs to one of its tables.
\<close>

definition schema_ok :: "KeyspaceMetadata \<Rightarrow> bool" where
  "schema_ok ks \<longleftrightarrow>
     (\<forall>n t. map_of (tables ks) n = Some t \<longrightarrow> table_name t = n)
     \<and> (\<forall>n v. map_of (views ks) n = Some v \<longrightarrow>
          view_name v = n
          \<and> (\<exists>t. map_of (tables ks) (base_table_name v) = Some t \<and> map_of (table_views t) n = Some v))
     \<and> (\<forall>n i. map_of (indexes ks) n = Some i \<longrightarrow>
          (\<exists>m t. map_of (tables ks) m = Some t \<and> (n, i) \<in> set (table_indexes t)))"

lemma schema_okD:
  assumes "schema_ok ks"
  shows "map_of (tables ks) n = Some t \<Longrightarrow> table_name t = n"
    "map_of (views ks) n = Some v \<Longrightarrow> view_name v = n"
    "map_of (views ks) n = Some v \<Longrightarrow>
       \<exists>t. map_of (tables ks) (base_table_name v) = Some t \<and> map_of (table_views t) n = Some v"
    "map_of (indexes ks) n = Some i \<Longrightarrow>
       \<exists>m t. map_of (tables ks) m = Some t \<and> (n, i) \<in> set (table_indexes t)"
  using assms unfolding schema_ok_def by blast+

lemma schema_okI:
  assumes "\<And>n t. map_of (tables ks) n = Some t \<Longrightarrow> table_name t = n"
    "\<And>n v. map_of (views ks) n = Some v \<Longrightarrow> view_name v = n"
    "\<And>n v. map_of (views ks) n = Some v \<Longrightarrow>
       \<exists>t. map_of (tables ks) (base_table_name v) = Some t \<and> map_of (table_views t) n = Some v"
    "\<And>n i. map_of (indexes ks) n = Some i \<Longrightarrow>
       \<exists>m t. map_of (tables ks) m = Some t \<and> (n, i) \<in> set (table_indexes t)"
  shows "schema_ok ks"
  using assms unfolding schema_ok_def by blast

lemma map_of_pop_all: "map_of (pop_all ns d) k = (if k \<in> set ns then None else map_of d k)"
  unfolding pop_all_def by (induction ns arbitrary: d) (auto simp: delete_conv')

lemma map_of_fold_pairs:
  "map_of (fold (\<lambda>(n, i). AList.update n i) xs d) k = Some v \<Longrightarrow>
     (k, v) \<in> set xs \<or> k \<notin> fst ` set xs \<and> map_of d k = Some v"
proof (induction xs arbitrary: d)
  case (Cons x xs)
  obtain n i where x: "x = (n, i)" by force
  from Cons.prems have "map_of (fold (\<lambda>(n, i). AList.update n i) xs (AList.update n i d)) k = Some v"
    by (simp add: x)
  from Cons.IH [OF this] show ?case by (auto simp: x update_conv' split: if_splits)
qed simp

lemma schema_ok_add_table:
  assumes ok: "schema_ok ks"
  shows "schema_ok (add_table_metadata t ks)"
proof -
  define p where "p = (case map_of (tables ks) (table_name t) of
      Some old \<Rightarrow> (t\<lparr>table_views := table_views old\<rparr>, table_indexes old) | None \<Rightarrow> (t, []))"
  define t' where "t' = fst p"
  have name: "table_name t' = table_name t" and idx: "table_indexes t' = table_indexes t"
    by (simp_all add: t'_def p_def split: option.split)
  have new: "add_table_metadata t ks = ks\<lparr>
      indexes := pop_all (filter (\<lambda>n. n \<notin> fst ` set (table_indexes t)) (map fst (snd p)))
         (fold (\<lambda>(n, i). AList.update n i) (table_indexes t) (indexes ks)),
      tables := AList.update (table_name t) t' (tables ks)\<rparr>"
    unfolding add_table_metadata_def p_def [symmetric] by (simp add: t'_def [symmetric] name idx split_beta Let_def)
  show ?thesis
  proof (rule schema_okI, goal_cases)
    case (1 n u)
    then show ?case using schema_okD(1) [OF ok] name by (auto simp: new update_conv' split: if_splits)
  next
    case (2 n v)
    then show ?case using schema_okD(2) [OF ok] by (simp add: new)
  next
    case (3 n v)
    then obtain u where u: "map_of (tables ks) (base_table_name v) = Some u" "map_of (table_views u) n = Some v"
      using schema_okD(3) [OF ok] by (auto simp: new)
    then show ?case by (auto simp: new update_conv' t'_def p_def)
  next
    case (4 n i)
    then have n: "n \<in> fst ` set (table_indexes t) \<or> n \<notin> fst ` set (snd p)"
      and f: "map_of (fold (\<lambda>(n, i). AList.update n i) (table_indexes t) (indexes ks)) n = Some i"
      by (auto simp: new map_of_pop_all split: if_splits)
    from map_of_fold_pairs [OF f] show ?case
    proof
      assume "(n, i) \<in> set (table_indexes t)"
      then show ?thesis by (intro exI [of _ "table_name t"] exI [of _ t']) (simp add: new update_conv' idx)
    next
      assume a: "n \<notin> fst ` set (table_indexes t) \<and> map_of (indexes ks) n = Some i"
      then obtain m u where u: "map_of (tables ks) m = Some u" "(n, i) \<in> set (table_indexes u)"
        using schema_okD(4) [OF ok] by blast
      have "m \<noteq> table_name t" using a n u by (force simp: p_def)
      with u show ?thesis by (intro exI [of _ m] exI [of _ u]) (simp add: new update_conv')
    qed
  qed
qed

lemma schema_ok_add_view:
  assumes ok: "schema_ok ks"
  shows "schema_ok (add_view_metadata v ks)"
proof (cases "map_of (tables ks) (base_table_name v)")
  case (Some t)
  let ?t = "t\<lparr>table_views := AList.update (view_name v) v (table_views t)\<rparr>"
  have new: "add_view_metadata v ks = ks\<lparr>tables := AList.update (base_table_name v) ?t (tables ks),
      views := AList.update (view_name v) v (views ks)\<rparr>"
    by (simp add: add_view_metadata_def Some)
  show ?thesis
  proof (rule schema_okI, goal_cases)
    case (1 n u)
    then show ?case using schema_okD(1) [OF ok] Some by (auto simp: new update_conv' split: if_splits)
  next
    case (2 n w)
    then show ?case using schema_okD(2) [OF ok] by (auto simp: new update_conv' split: if_splits)
  next
    case (3 n w)
    then show ?case using schema_okD(3) [OF ok, of n w] Some
      by (auto simp: new update_conv' split: if_splits)
  next
    case (4 n i)
    then have "map_of (indexes ks) n = Some i" by (simp add: new)
    then obtain m u where u: "map_of (tables ks) m = Some u" "(n, i) \<in> set (table_indexes u)"
      using schema_okD(4) [OF ok] by blast
    then show ?case using Some
      by (intro exI [of _ m] exI [of _ "if m = base_table_name v then ?t else u"]) (auto simp: new update_conv')
  qed
qed (use ok in \<open>simp add: add_view_metadata_def\<close>)

lemma schema_ok_drop_table:
  assumes ok: "schema_ok ks"
  shows "schema_ok (drop_table_metadata name ks)"
proof (cases "map_of (tables ks) name")
  case (Some t)
  have new: "drop_table_metadata name ks = ks\<lparr>tables := AList.delete name (tables ks),
      indexes := pop_all (map fst (table_indexes t)) (indexes ks),
      views := pop_all (map fst (table_views t)) (views ks)\<rparr>"
    by (simp add: drop_table_metadata_def Some)
  show ?thesis
  proof (rule schema_okI, goal_cases)
    case (1 n u)
    then show ?case using schema_okD(1) [OF ok] by (auto simp: new delete_conv' split: if_splits)
  next
    case (2 n w)
    then show ?case using schema_okD(2) [OF ok] by (auto simp: new map_of_pop_all split: if_splits)
  next
    case (3 n w)
    then have n: "n \<notin> fst ` set (table_views t)" and w: "map_of (views ks) n = Some w"
      by (auto simp: new map_of_pop_all split: if_splits)
    obtain u where u: "map_of (tables ks) (base_table_name w) = Some u" "map_of (table_views u) n = Some w"
      using schema_okD(3) [OF ok w] by blast
    from n have "map_of (table_views t) n = None" by (simp add: map_of_eq_None_iff)
    with u Some have "base_table_name w \<noteq> name" by auto
    with u show ?case by (intro exI [of _ u]) (simp add: new delete_conv')
  next
    case (4 n i)
    then have n: "n \<notin> fst ` set (table_indexes t)" and i: "map_of (indexes ks) n = Some i"
      by (auto simp: new map_of_pop_all split: if_splits)
    obtain m u where u: "map_of (tables ks) m = Some u" "(n, i) \<in> set (table_indexes u)"
      using schema_okD(4) [OF ok i] by blast
    then have "m \<noteq> name" using Some n by (auto simp: rev_image_eqI)
    with u show ?case by (intro exI [of _ m] exI [of _ u]) (simp add: new delete_conv')
  qed
next
  case None
  show ?thesis
  proof (cases "map_of (views ks) name")
    case none: None
    with None ok show ?thesis by (simp add: drop_table_metadata_def)
  next
    case v: (Some v)
    obtain t where t: "map_of (tables ks) (base_table_name v) = Some t"
      using schema_okD(3) [OF ok v] by blast
    let ?t = "t\<lparr>table_views := AList.delete name (table_views t)\<rparr>"
    have new: "drop_table_metadata name ks = ks\<lparr>views := AList.delete name (views ks),
        tables := AList.update (base_table_name v) ?t (tables ks)\<rparr>"
      using None v t by (simp add: drop_table_metadata_def)
    show ?thesis
    proof (rule schema_okI, goal_cases)
      case (1 n u)
      then show ?case using schema_okD(1) [OF ok] t by (auto simp: new update_conv' split: if_splits)
    next
      case (2 n w)
      then show ?case using schema_okD(2) [OF ok] by (auto simp: new delete_conv' split: if_splits)
    next
      case (3 n w)
      then have n: "n \<noteq> name" and w: "map_of (views ks) n = Some w" by (auto simp: new delete_conv' split: if_splits)
      obtain u where "map_of (tables ks) (base_table_name w) = Some u" "map_of (table_views u) n = Some w"
        using schema_okD(3) [OF ok w] by blast
      with n t show ?case by (auto simp: new update_conv' delete_conv')
    next
      case (4 n i)
      then have "map_of (indexes ks) n = Some i" by (simp add: new)
      then obtain m u where u: "map_of (tables ks) m = Some u" "(n, i) \<in> set (table_indexes u)"
        using schema_okD(4) [OF ok] by blast
      then show ?case using t
        by (intro exI [of _ m] exI [of _ "if m = base_table_name v then ?t else u"]) (auto simp: new update_conv')
    qed
  qed
qed

lemma schema_ok_frame [simp]:
  "schema_ok (ks\<lparr>user_types := u\<rparr>) = schema_ok ks"
  "schema_ok (ks\<lparr>ks_functions := f\<rparr>) = schema_ok ks"
  "schema_ok (ks\<lparr>aggregates := a\<rparr>) = schema_ok ks"
  by (simp_all add: schema_ok_def)

lemma schema_ok_fold: "(\<And>x ks. schema_ok ks \<Longrightarrow> schema_ok (f x ks)) \<Longrightarrow> schema_ok ks \<Longrightarrow> schema_ok (fold f xs ks)"
  by (induction xs arbitrary: ks) simp_all

lemma schema_ok_build: "schema_ok (build_keyspace_metadata r)"
  by (simp add: schema_ok_def build_keyspace_metadata_def keyspace_init_def)

lemma schema_ok_assemble: "schema_ok (assemble_keyspace r)"
  unfolding assemble_keyspace_def Let_def
  by (intro schema_ok_fold schema_ok_add_view)
    (simp_all add: schema_ok_fold schema_ok_add_table schema_ok_build)

lemma ks_name_frame:
  "ks_name (add_table_metadata t ks) = ks_name ks" "ks_name (add_view_metadata v ks) = ks_name ks"
  "ks_name (drop_table_metadata n ks) = ks_name ks"
  by (simp_all add: add_table_metadata_def add_view_metadata_def drop_table_metadata_def Let_def split_beta
      split: option.split)

definition schema_inv :: "('h \<Rightarrow> 'a) \<Rightarrow> ('a, 'h) Metadata \<Rightarrow> bool" where
  "schema_inv addr md \<longleftrightarrow>
     (\<forall>n ks. map_of (keyspaces md) n = Some ks \<longrightarrow> ks_name ks = n \<and> schema_ok ks)
     \<and> (\<forall>a h. map_of (registered md) a = Some h \<longrightarrow> addr h = a)"

lemma schema_inv_set_keyspace:
  assumes "schema_inv addr md" "ks_name ks = n" "schema_ok ks"
  shows "schema_inv addr (md\<lparr>keyspaces := AList.update n ks (keyspaces md)\<rparr>)"
  using assms by (auto simp: schema_inv_def update_conv' split: if_splits)

lemma schema_inv_frame [simp]:
  "schema_inv addr (md\<lparr>token_map := t\<rparr>) = schema_inv addr md"
  "schema_inv addr (md\<lparr>partitioner := p\<rparr>) = schema_inv addr md"
  by (simp_all add: schema_inv_def)

lemma schema_inv_rebuilt [simp]: "schema_inv addr (keyspace_rebuilt hs n md) = schema_inv addr md"
  by (simp add: keyspace_rebuilt_def split: option.split)

lemma schema_inv_removed [simp]: "schema_inv addr (keyspace_removed n md) = schema_inv addr md"
  by (simp add: keyspace_removed_def split: option.split)

lemma schema_inv_removed_all [simp]: "schema_inv addr (fold keyspace_removed ns md) = schema_inv addr md"
  by (induction ns arbitrary: md) simp_all

lemma schema_inv_on_keyspace:
  assumes "schema_inv addr md" "\<And>ks. ks_name (f ks) = ks_name ks" "\<And>ks. schema_ok ks \<Longrightarrow> schema_ok (f ks)"
  shows "schema_inv addr (on_keyspace n f md)"
proof (cases "map_of (keyspaces md) n")
  case (Some ks)
  then have "ks_name ks = n" "schema_ok ks" using assms(1) unfolding schema_inv_def by blast+
  with assms Some show ?thesis by (simp add: on_keyspace_def schema_inv_set_keyspace)
qed (use assms(1) in \<open>simp add: on_keyspace_def\<close>)

lemma schema_inv_rebuild_all:
  assumes "schema_inv addr md" "\<forall>ks \<in> set kss. schema_ok ks"
  shows "schema_inv addr (rebuild_all hs kss md)"
proof -
  have "schema_inv addr (fold (rebuild_all_step hs) kss md)"
    using assms
    by (induction kss arbitrary: md) (simp_all add: rebuild_all_step_def schema_inv_set_keyspace)
  moreover have "map_of (filter (\<lambda>(n, m). n \<in> S) d) n = (if n \<in> S then map_of d n else None)"
    for S and d :: keyspace_dict and n
    by (induction d) auto
  ultimately show ?thesis by (simp add: rebuild_all_def Let_def) (simp add: schema_inv_def)
qed

lemma schema_inv_update_keyspace:
  assumes inv: "schema_inv addr md" and ok: "schema_ok ks"
  shows "schema_inv addr (update_keyspace hs ks types md)"
proof (cases "map_of (keyspaces md) (ks_name ks)")
  case None
  then show ?thesis using assms by (simp add: update_keyspace_def schema_inv_set_keyspace)
next
  case (Some old)
  let ?ks = "ks\<lparr>tables := tables old,
      user_types := (case types of Some u \<Rightarrow> u | None \<Rightarrow> user_types old),
      indexes := indexes old, ks_functions := ks_functions old,
      aggregates := aggregates old, views := views old\<rparr>"
  have "schema_ok old" using inv Some unfolding schema_inv_def by blast
  then have "schema_ok ?ks" by (simp add: schema_ok_def)
  then have "schema_inv addr (md\<lparr>keyspaces := AList.update (ks_name ks) ?ks (keyspaces md)\<rparr>)"
    using schema_inv_set_keyspace [OF inv, of ?ks "ks_name ks"] by simp
  with Some show ?thesis by (simp add: update_keyspace_def Let_def)
qed

lemma schema_inv_step: "schema_inv addr md \<Longrightarrow> schema_inv addr (metadata_step murmur3 md5 hs addr op md)"
proof (induction op)
  case (RebuildAll rows)
  then show ?case by (auto intro!: schema_inv_rebuild_all schema_ok_assemble)
next
  case (UpdateKeyspace row types)
  then show ?case by (auto intro!: schema_inv_update_keyspace schema_ok_build)
next
  case (DropKeyspace n)
  then show ?case
    by (auto simp: drop_keyspace_def schema_inv_def keyspace_removed_def delete_conv' split: option.splits if_splits)
next
  case (UpdateTable t)
  then show ?case
    by (cases t) (simp_all add: schema_inv_on_keyspace ks_name_frame schema_ok_add_table schema_ok_add_view)
next
  case (RebuildTokenMap p ts)
  then show ?case by (simp add: rebuild_token_map_def Let_def split: option.split sum.split prod.split)
next
  case (GetReplicas n key)
  then show ?case by (simp add: metadata_get_replicas_def split_beta split: option.split sum.split)
next
  case (AddHost h)
  then show ?case
    by (auto simp: add_or_return_host_def schema_inv_def update_conv' split: option.split if_splits)
next
  case (RemoveHost h)
  then show ?case by (auto simp: remove_host_def schema_inv_def delete_conv' split: if_splits)
qed (simp_all add: schema_inv_on_keyspace ks_name_frame schema_ok_drop_table drop_table_def update_type_def
      drop_type_def update_function_def drop_function_def update_aggregate_def drop_aggregate_def)

lemma schema_inv_run: "schema_inv addr (metadata_run murmur3 md5 hs addr ops)"
proof -
  have "schema_inv addr md \<Longrightarrow> schema_inv addr (fold (metadata_step murmur3 md5 hs addr) ops md)" for md
    by (induction ops arbitrary: md) (simp_all add: schema_inv_step)
  moreover have "schema_inv addr metadata_init" by (simp add: schema_inv_def metadata_init_def)
  ultimately show ?thesis unfolding metadata_run_def by blast
qed



end
