(* ===== verification/CqlTypes.thy ===== *)
theory CqlTypes
  imports Marshal Utf8 Py_Strings
begin

text \<open>
  The CQL types of \<open>cassandra/cqltypes.py\<close>: how a value of each type is written to bytes and
  read back, and how the name of a type is parsed and printed. The class of a type is a
  \<open>tclass\<close>; a type is the class with its subtypes and field names. Python values are
  \<open>pyval\<close>. Reading an IEEE single precision number and reading or writing a \<open>datetime\<close>
  are floating point computations, which give the error \<open>OutOfModel\<close> here, as does a value of
  another kind than the type is documented to take where Python would coerce it.
\<close>

section \<open>Types\<close>

datatype tclass =
    BytesType | DecimalType | UUIDType | BooleanType | ByteType | AsciiType | FloatType | DoubleType
  | LongType | Int32Type | IntegerType | InetAddressType | CounterColumnType | DateType
  | TimestampType | TimeUUIDType | SimpleDateType | ShortType | TimeType | DurationType | UTF8Type
  | VarcharType | ListType | SetType | MapType | TupleType | UserType | CompositeType
  | DynamicCompositeType | ColumnToCollectionType | ReversedType | FrozenType
  | Unrecognized ptext

text \<open>
  \<open>fieldnames\<close> is \<open>None\<close> for a class that has not been applied to parameters, and for
  one that \<open>read_type\<close> applied; \<open>udt\<close> is the keyspace and the name of a user type.
\<close>

datatype ctype =
  CType (ct_class: tclass) (subtypes: "ctype list") (fieldnames: "ptext option list option")
    (udt: "(ptext \<times> ptext) option")

abbreviation plain :: "tclass \<Rightarrow> ctype" where
  "plain c \<equiv> CType c [] None None"

datatype arity = Exactly nat | AnyNumber

fun num_subtypes :: "tclass \<Rightarrow> arity" where
  "num_subtypes ListType = Exactly 1"
| "num_subtypes SetType = Exactly 1"
| "num_subtypes MapType = Exactly 2"
| "num_subtypes ReversedType = Exactly 1"
| "num_subtypes FrozenType = Exactly 1"
| "num_subtypes TupleType = AnyNumber"
| "num_subtypes UserType = AnyNumber"
| "num_subtypes CompositeType = AnyNumber"
| "num_subtypes DynamicCompositeType = AnyNumber"
| "num_subtypes ColumnToCollectionType = AnyNumber"
| "num_subtypes (Unrecognized n) = AnyNumber"
| "num_subtypes _ = Exactly 0"

text \<open>The subclasses of \<open>_ParameterizedType\<close>.\<close>

definition parameterized :: "tclass \<Rightarrow> bool" where
  "parameterized c \<longleftrightarrow> c \<in> {ListType, SetType, MapType, TupleType, UserType, CompositeType,
     DynamicCompositeType, ColumnToCollectionType, ReversedType, FrozenType}"

definition empty_binary_ok :: "tclass \<Rightarrow> bool" where
  "empty_binary_ok c \<longleftrightarrow> c \<in> {BytesType, AsciiType, UTF8Type, VarcharType}"

section \<open>Values\<close>

text \<open>
  \<open>PDecimal sign digits exponent\<close> is the tuple of a \<open>Decimal\<close>, \<open>PDouble\<close> the bits of
  a double, \<open>PInet\<close> the packed form of an address, \<open>PDate\<close> days from the epoch,
  \<open>PTime\<close> nanoseconds of a day. \<open>PSet xs\<close> is the set with the elements \<open>xs\<close>,
  which iterates over them in this order; \<open>PMap\<close> lists the items of an ordered map.
\<close>

datatype pyval =
    PNone
  | PBool bool
  | PInt int
  | PDouble "64 word"
  | PText ptext
  | PBytes bytes
  | PDecimal bool nat int
  | PUUID bytes
  | PInet bytes
  | PDate int
  | PTime int
  | PDuration int int int
  | PList "pyval list"
  | PSet "pyval list"
  | PMap "(pyval \<times> pyval) list"
  | PTuple "pyval list"

definition Time_DAY :: int where
  "Time_DAY = 24 * 60 * 60 * 1000 * 1000 * 1000"

definition EPOCH_OFFSET_DAYS :: int where
  "EPOCH_OFFSET_DAYS = 2 ^ 31"

text \<open>\<open>byts[i:j]\<close>: negative bounds count from the end.\<close>

definition slice_bound :: "nat \<Rightarrow> int \<Rightarrow> nat" where
  "slice_bound n i = nat (if i < 0 then max 0 (i + int n) else min i (int n))"

definition py_slice :: "bytes \<Rightarrow> int \<Rightarrow> int \<Rightarrow> bytes" where
  "py_slice bs i j =
     (let a = slice_bound (length bs) i; b = slice_bound (length bs) j in take (b - a) (drop a bs))"

section \<open>Deserialization\<close>

definition ascii_decode :: "bytes \<Rightarrow> ptext res" where
  "ascii_decode bs =
     (if \<forall>b \<in> set bs. uint b < 128 then Inr (map unat bs) else Inl UnicodeDecodeError)"

definition Time_from_timestamp :: "int \<Rightarrow> int res" where
  "Time_from_timestamp t = (if t \<ge> Time_DAY then Inl ValueError else Inr t)"

definition uuid_of_bytes :: "bytes \<Rightarrow> pyval res" where
  "uuid_of_bytes bs = (if length bs = 16 then Inr (PUUID bs) else Inl ValueError)"

definition decimal_deserialize :: "bytes \<Rightarrow> pyval res" where
  "decimal_deserialize byts =
     res_bind (int32_unpack (take 4 byts)) (\<lambda>scale.
     res_bind (varint_unpack (drop 4 byts)) (\<lambda>unscaled.
       Inr (PDecimal (unscaled < 0) (nat \<bar>unscaled\<bar>) (- scale))))"

definition duration_deserialize :: "bytes \<Rightarrow> pyval res" where
  "duration_deserialize byts =
     res_bind (vints_unpack byts) (\<lambda>vs.
       case vs of [m, d, n] \<Rightarrow> Inr (PDuration m d n) | _ \<Rightarrow> Inl ValueError)"

fun deserialize_simple :: "tclass \<Rightarrow> bytes \<Rightarrow> pyval res" where
  "deserialize_simple DecimalType byts = decimal_deserialize byts"
| "deserialize_simple UUIDType byts = uuid_of_bytes byts"
| "deserialize_simple TimeUUIDType byts = uuid_of_bytes byts"
| "deserialize_simple BooleanType byts = res_bind (int8_unpack byts) (\<lambda>n. Inr (PBool (n \<noteq> 0)))"
| "deserialize_simple ByteType byts = res_bind (int8_unpack byts) (\<lambda>n. Inr (PInt n))"
| "deserialize_simple ShortType byts = res_bind (int16_unpack byts) (\<lambda>n. Inr (PInt n))"
| "deserialize_simple Int32Type byts = res_bind (int32_unpack byts) (\<lambda>n. Inr (PInt n))"
| "deserialize_simple LongType byts = res_bind (int64_unpack byts) (\<lambda>n. Inr (PInt n))"
| "deserialize_simple CounterColumnType byts = res_bind (int64_unpack byts) (\<lambda>n. Inr (PInt n))"
| "deserialize_simple IntegerType byts = res_bind (varint_unpack byts) (\<lambda>n. Inr (PInt n))"
| "deserialize_simple AsciiType byts = res_bind (ascii_decode byts) (\<lambda>s. Inr (PText s))"
| "deserialize_simple UTF8Type byts = res_bind (utf8_decode byts) (\<lambda>s. Inr (PText s))"
| "deserialize_simple VarcharType byts = res_bind (utf8_decode byts) (\<lambda>s. Inr (PText s))"
| "deserialize_simple DoubleType byts =
     (if length byts = 8 then Inr (PDouble (word_of_int (be_uint byts))) else Inl StructError)"
| "deserialize_simple InetAddressType byts =
     (if length byts = 16 \<or> length byts = 4 then Inr (PInet byts) else Inl OSError)"
| "deserialize_simple SimpleDateType byts =
     res_bind (uint32_unpack byts) (\<lambda>n. Inr (PDate (n - EPOCH_OFFSET_DAYS)))"
| "deserialize_simple TimeType byts =
     res_bind (int64_unpack byts) (\<lambda>n. res_bind (Time_from_timestamp n) (\<lambda>t. Inr (PTime t)))"
| "deserialize_simple DurationType byts = duration_deserialize byts"
| "deserialize_simple FloatType byts = Inl OutOfModel"
| "deserialize_simple DateType byts = Inl OutOfModel"
| "deserialize_simple TimestampType byts = Inl OutOfModel"
| "deserialize_simple _ byts = Inr (PBytes byts)"

text \<open>\<open>from_binary\<close>, given the \<open>deserialize\<close> of the class.\<close>

definition from_bin :: "tclass \<Rightarrow> (bytes \<Rightarrow> pyval res) \<Rightarrow> bytes option \<Rightarrow> pyval res" where
  "from_bin c des byts =
     (case byts of
        None \<Rightarrow> Inr PNone
      | Some bs \<Rightarrow> if bs = [] \<and> \<not> empty_binary_ok c then Inr PNone else des bs)"

text \<open>The length fields of a collection: 32 bits signed since version 3, 16 bits unsigned before.\<close>

definition len_unpack :: "int \<Rightarrow> bytes \<Rightarrow> int res" where
  "len_unpack v = (if v \<ge> 3 then int32_unpack else uint16_unpack)"

definition len_size :: "int \<Rightarrow> int" where
  "len_size v = (if v \<ge> 3 then 4 else 2)"

fun items_loop :: "(bytes \<Rightarrow> pyval res) \<Rightarrow> int \<Rightarrow> bytes \<Rightarrow> nat \<Rightarrow> int \<Rightarrow> pyval list res" where
  "items_loop dec v byts 0 p = Inr []"
| "items_loop dec v byts (Suc n) p =
     res_bind (len_unpack v (py_slice byts p (p + len_size v))) (\<lambda>itemlen.
       let p = p + len_size v
       in res_bind (dec (py_slice byts p (p + itemlen))) (\<lambda>x.
          res_bind (items_loop dec v byts n (p + itemlen)) (\<lambda>xs. Inr (x # xs))))"

definition collection_deserialize :: "(bytes \<Rightarrow> pyval res) \<Rightarrow> int \<Rightarrow> bytes \<Rightarrow> pyval list res" where
  "collection_deserialize dec v byts =
     res_bind (len_unpack v (py_slice byts 0 (len_size v)))
       (\<lambda>n. items_loop dec v byts (nat n) (len_size v))"

fun pairs_loop ::
    "(bytes \<Rightarrow> pyval res) \<Rightarrow> (bytes \<Rightarrow> pyval res) \<Rightarrow> int \<Rightarrow> bytes \<Rightarrow> nat \<Rightarrow> int
       \<Rightarrow> (pyval \<times> pyval) list res" where
  "pairs_loop kdec vdec v byts 0 p = Inr []"
| "pairs_loop kdec vdec v byts (Suc n) p =
     res_bind (len_unpack v (py_slice byts p (p + len_size v))) (\<lambda>key_len.
       let p = p + len_size v;
           keybytes = py_slice byts p (p + key_len);
           p = p + key_len
       in res_bind (len_unpack v (py_slice byts p (p + len_size v))) (\<lambda>val_len.
          let p = p + len_size v;
              valbytes = py_slice byts p (p + val_len);
              p = p + val_len
          in res_bind (kdec keybytes) (\<lambda>key.
             res_bind (vdec valbytes) (\<lambda>val.
             res_bind (pairs_loop kdec vdec v byts n p) (\<lambda>kvs. Inr ((key, val) # kvs))))))"

definition map_deserialize ::
    "(bytes \<Rightarrow> pyval res) \<Rightarrow> (bytes \<Rightarrow> pyval res) \<Rightarrow> int \<Rightarrow> bytes \<Rightarrow> (pyval \<times> pyval) list res" where
  "map_deserialize kdec vdec v byts =
     res_bind (len_unpack v (py_slice byts 0 (len_size v)))
       (\<lambda>n. pairs_loop kdec vdec v byts (nat n) (len_size v))"

fun tuple_loop :: "(bytes option \<Rightarrow> pyval res) list \<Rightarrow> bytes \<Rightarrow> int \<Rightarrow> pyval list res" where
  "tuple_loop [] byts p = Inr []"
| "tuple_loop (dec # decs) byts p =
     (if p = int (length byts) then Inr []
      else res_bind (int32_unpack (py_slice byts p (p + 4))) (\<lambda>itemlen.
        let p = p + 4;
            (item, p) = (if itemlen \<ge> 0 then (Some (py_slice byts p (p + itemlen)), p + itemlen)
                         else (None, p))
        in res_bind (dec item) (\<lambda>x.
           res_bind (tuple_loop decs byts p) (\<lambda>xs. Inr (x # xs)))))"

definition tuple_deserialize :: "(bytes option \<Rightarrow> pyval res) list \<Rightarrow> bytes \<Rightarrow> pyval list res" where
  "tuple_deserialize decs byts =
     res_bind (tuple_loop decs byts 0)
       (\<lambda>values. Inr (values @ replicate (length decs - length values) PNone))"

fun composite_deserialize :: "(bytes option \<Rightarrow> pyval res) list \<Rightarrow> bytes \<Rightarrow> pyval list res" where
  "composite_deserialize [] byts = Inr []"
| "composite_deserialize (dec # decs) byts =
     (if byts = [] then Inr []
      else res_bind (uint16_unpack (take 2 byts)) (\<lambda>n.
        let element = take (nat n) (drop 2 byts);
            byts = drop (2 + nat n + 1) byts
        in res_bind (dec (Some element)) (\<lambda>x.
           res_bind (composite_deserialize decs byts) (\<lambda>xs. Inr (x # xs)))))"

function deserialize :: "ctype \<Rightarrow> int \<Rightarrow> bytes \<Rightarrow> pyval res" where
  "deserialize (CType c subs names u) v byts =
     (if \<not> parameterized c then deserialize_simple c byts
      else if subs = [] then Inl NotImplementedError
      else
        (let decs = map (\<lambda>s. from_bin (ct_class s) (deserialize s (max 3 v))) subs;
             decs_v = map (\<lambda>s. from_bin (ct_class s) (deserialize s v)) subs
         in if c = ListType \<or> c = SetType then
              (case decs of
                 [dec] \<Rightarrow> res_bind (collection_deserialize (\<lambda>b. dec (Some b)) v byts)
                            (\<lambda>xs. Inr (if c = ListType then PList xs else PSet xs))
               | _ \<Rightarrow> Inl ValueError)
            else if c = MapType then
              (case decs of
                 [kdec, vdec] \<Rightarrow>
                   res_bind (map_deserialize (\<lambda>b. kdec (Some b)) (\<lambda>b. vdec (Some b)) v byts)
                     (\<lambda>kvs. Inr (PMap kvs))
               | _ \<Rightarrow> Inl ValueError)
            else if c = TupleType \<or> c = UserType then
              res_bind (tuple_deserialize decs byts) (\<lambda>xs. Inr (PTuple xs))
            else if c = CompositeType then
              res_bind (composite_deserialize decs_v byts) (\<lambda>xs. Inr (PTuple xs))
            else if c = ReversedType \<or> c = FrozenType then
              (case decs_v of [dec] \<Rightarrow> dec (Some byts) | _ \<Rightarrow> Inl ValueError)
            else Inl AttributeError))"
  by pat_completeness auto
termination
  by (relation "measure (\<lambda>(t, v, byts). size t)") (auto simp: less_Suc_eq_le size_list_estimation' intro: trans_le_add1)

definition from_binary :: "ctype \<Rightarrow> int \<Rightarrow> bytes option \<Rightarrow> pyval res" where
  "from_binary t v = from_bin (ct_class t) (deserialize t v)"

section \<open>Serialization\<close>

definition ascii_encode :: "ptext \<Rightarrow> bytes res" where
  "ascii_encode s =
     (if \<forall>c \<in> set s. c < 128 then Inr (map of_nat s) else Inl UnicodeEncodeError)"

definition decimal_serialize :: "bool \<Rightarrow> nat \<Rightarrow> int \<Rightarrow> bytes res" where
  "decimal_serialize sign digits exponent =
     (let unscaled = (if sign then - int digits else int digits)
      in wr_seq [int32_pack (- exponent), Inr (varint_pack unscaled)])"

text \<open>\<open>bytes(val)\<close>: of a number, that many zero bytes.\<close>

fun bytes_serialize :: "pyval \<Rightarrow> bytes res" where
  "bytes_serialize (PBytes bs) = Inr bs"
| "bytes_serialize (PInt n) = (if n < 0 then Inl ValueError else Inr (replicate (nat n) 0))"
| "bytes_serialize (PText s) = Inl TypeError"
| "bytes_serialize PNone = Inl TypeError"
| "bytes_serialize _ = Inl OutOfModel"

fun int_serialize :: "(int \<Rightarrow> bytes res) \<Rightarrow> pyval \<Rightarrow> bytes res" where
  "int_serialize pack (PInt n) = pack n"
| "int_serialize pack (PBool b) = pack (if b then 1 else 0)"
| "int_serialize pack _ = Inl StructError"

fun text_serialize :: "(ptext \<Rightarrow> bytes res) \<Rightarrow> pyval \<Rightarrow> bytes res" where
  "text_serialize encode (PText s) = encode s"
| "text_serialize encode _ = Inl AttributeError"

fun serialize_simple :: "tclass \<Rightarrow> pyval \<Rightarrow> bytes res" where
  "serialize_simple BytesType val = bytes_serialize val"
| "serialize_simple DecimalType val =
     (case val of PDecimal s d e \<Rightarrow> decimal_serialize s d e | _ \<Rightarrow> Inl OutOfModel)"
| "serialize_simple UUIDType val = (case val of PUUID bs \<Rightarrow> Inr bs | _ \<Rightarrow> Inl TypeError)"
| "serialize_simple TimeUUIDType val = (case val of PUUID bs \<Rightarrow> Inr bs | _ \<Rightarrow> Inl TypeError)"
| "serialize_simple BooleanType val = int_serialize int8_pack val"
| "serialize_simple ByteType val = int_serialize int8_pack val"
| "serialize_simple ShortType val = int_serialize int16_pack val"
| "serialize_simple Int32Type val = int_serialize int32_pack val"
| "serialize_simple LongType val = int_serialize int64_pack val"
| "serialize_simple CounterColumnType val = int_serialize int64_pack val"
| "serialize_simple IntegerType val = (case val of PInt n \<Rightarrow> Inr (varint_pack n) | _ \<Rightarrow> Inl OutOfModel)"
| "serialize_simple AsciiType val = text_serialize ascii_encode val"
| "serialize_simple UTF8Type val = text_serialize utf8_encode val"
| "serialize_simple VarcharType val = text_serialize utf8_encode val"
| "serialize_simple DoubleType val =
     (case val of PDouble w \<Rightarrow> Inr (be_bytes 8 (uint w)) | _ \<Rightarrow> Inl OutOfModel)"
| "serialize_simple InetAddressType val = (case val of PInet bs \<Rightarrow> Inr bs | _ \<Rightarrow> Inl OutOfModel)"
| "serialize_simple SimpleDateType val =
     (case val of
        PDate d \<Rightarrow> uint32_pack (d + EPOCH_OFFSET_DAYS)
      | PInt n \<Rightarrow> uint32_pack n
      | _ \<Rightarrow> Inl OutOfModel)"
| "serialize_simple TimeType val =
     (case val of
        PTime t \<Rightarrow> int64_pack t
      | PInt n \<Rightarrow> res_bind (Time_from_timestamp n) int64_pack
      | _ \<Rightarrow> Inl OutOfModel)"
| "serialize_simple DurationType val =
     (case val of PDuration m d n \<Rightarrow> vints_pack [m, d, n] | _ \<Rightarrow> Inl TypeError)"
| "serialize_simple FloatType val = Inl OutOfModel"
| "serialize_simple DateType val = Inl OutOfModel"
| "serialize_simple TimestampType val = Inl OutOfModel"
| "serialize_simple _ val = (case val of PBytes bs \<Rightarrow> Inr bs | _ \<Rightarrow> Inl OutOfModel)"

definition to_bin :: "(pyval \<Rightarrow> bytes res) \<Rightarrow> pyval \<Rightarrow> bytes res" where
  "to_bin ser val = (if val = PNone then Inr [] else ser val)"

definition len_pack :: "int \<Rightarrow> int \<Rightarrow> bytes res" where
  "len_pack v = (if v \<ge> 3 then int32_pack else uint16_pack)"

definition sized_bytes :: "(int \<Rightarrow> bytes res) \<Rightarrow> bytes res \<Rightarrow> bytes res" where
  "sized_bytes pack r = res_bind r (\<lambda>bs. wr_seq [pack (int (length bs)), Inr bs])"

text \<open>The elements a collection is written from; text is refused.\<close>

fun seq_items :: "pyval \<Rightarrow> pyval list res" where
  "seq_items (PList xs) = Inr xs"
| "seq_items (PSet xs) = Inr xs"
| "seq_items (PTuple xs) = Inr xs"
| "seq_items (PMap kvs) = Inr (map fst kvs)"
| "seq_items (PBytes bs) = Inl OutOfModel"
| "seq_items _ = Inl TypeError"

definition collection_serialize :: "(pyval \<Rightarrow> bytes res) \<Rightarrow> int \<Rightarrow> pyval list \<Rightarrow> bytes res" where
  "collection_serialize enc v items =
     wr_seq (len_pack v (int (length items)) # map (\<lambda>x. sized_bytes (len_pack v) (enc x)) items)"

text \<open>Both halves of a pair are encoded before either is written.\<close>

definition pair_serialize ::
    "(pyval \<Rightarrow> bytes res) \<Rightarrow> (pyval \<Rightarrow> bytes res) \<Rightarrow> int \<Rightarrow> pyval \<times> pyval \<Rightarrow> bytes res" where
  "pair_serialize kenc venc v = (\<lambda>(key, val).
     res_bind (kenc key) (\<lambda>keybytes. res_bind (venc val) (\<lambda>valbytes.
       wr_seq [sized_bytes (len_pack v) (Inr keybytes), sized_bytes (len_pack v) (Inr valbytes)])))"

definition map_serialize ::
    "(pyval \<Rightarrow> bytes res) \<Rightarrow> (pyval \<Rightarrow> bytes res) \<Rightarrow> int \<Rightarrow> (pyval \<times> pyval) list \<Rightarrow> bytes res" where
  "map_serialize kenc venc v kvs =
     wr_seq (len_pack v (int (length kvs)) # map (pair_serialize kenc venc v) kvs)"

text \<open>One item of a tuple or user type, with the length -1 for \<open>None\<close>.\<close>

definition field_serialize :: "(pyval \<Rightarrow> bytes res) \<Rightarrow> pyval \<Rightarrow> bytes res" where
  "field_serialize enc item =
     (if item \<noteq> PNone then sized_bytes int32_pack (enc item) else int32_pack (- 1))"

fun tuple_items :: "pyval \<Rightarrow> pyval list res" where
  "tuple_items (PTuple xs) = Inr xs"
| "tuple_items (PList xs) = Inr xs"
| "tuple_items (PInt n) = Inl TypeError"
| "tuple_items PNone = Inl TypeError"
| "tuple_items _ = Inl OutOfModel"

text \<open>An object without indexing is asked for the attribute of each field.\<close>

fun udt_items :: "pyval \<Rightarrow> pyval list res" where
  "udt_items (PTuple xs) = Inr xs"
| "udt_items (PList xs) = Inr xs"
| "udt_items (PInt n) = Inl AttributeError"
| "udt_items PNone = Inl AttributeError"
| "udt_items _ = Inl OutOfModel"

definition tuple_serialize :: "(pyval \<Rightarrow> bytes res) list \<Rightarrow> pyval list \<Rightarrow> bytes res" where
  "tuple_serialize encs xs =
     (if length xs > length encs then Inl ValueError
      else wr_seq (map (\<lambda>(item, enc). field_serialize enc item) (zip xs encs)))"

text \<open>A user type indexes the value once per field; surplus items are not looked at.\<close>

fun udt_serialize :: "(pyval \<Rightarrow> bytes res) list \<Rightarrow> pyval list \<Rightarrow> bytes res" where
  "udt_serialize [] xs = Inr []"
| "udt_serialize (enc # encs) [] = Inl IndexError"
| "udt_serialize (enc # encs) (x # xs) = wr_seq [field_serialize enc x, udt_serialize encs xs]"

function serialize :: "ctype \<Rightarrow> int \<Rightarrow> pyval \<Rightarrow> bytes res" where
  "serialize (CType c subs names u) v val =
     (if \<not> parameterized c then serialize_simple c val
      else if subs = [] then Inl NotImplementedError
      else
        (let encs = map (\<lambda>s. to_bin (serialize s (max 3 v))) subs;
             encs_v = map (\<lambda>s. to_bin (serialize s v)) subs
         in if c = ListType \<or> c = SetType then
              res_bind (seq_items val) (\<lambda>items.
                case encs of [enc] \<Rightarrow> collection_serialize enc v items | _ \<Rightarrow> Inl ValueError)
            else if c = MapType then
              (case (encs, val) of
                 ([kenc, venc], PMap kvs) \<Rightarrow> map_serialize kenc venc v kvs
               | ([kenc, venc], _) \<Rightarrow> Inl TypeError
               | _ \<Rightarrow> Inl ValueError)
            else if c = TupleType then res_bind (tuple_items val) (tuple_serialize encs)
            else if c = UserType then
              res_bind (udt_items val)
                (udt_serialize (take (case names of Some ns \<Rightarrow> length ns | None \<Rightarrow> 0) encs))
            else if c = ReversedType \<or> c = FrozenType then
              (case encs_v of [enc] \<Rightarrow> enc val | _ \<Rightarrow> Inl ValueError)
            else Inl AttributeError))"
  by pat_completeness auto
termination
  by (relation "measure (\<lambda>(t, v, val). size t)") (auto simp: less_Suc_eq_le size_list_estimation' intro: trans_le_add1)

definition to_binary :: "ctype \<Rightarrow> int \<Rightarrow> pyval \<Rightarrow> bytes res" where
  "to_binary t v = to_bin (serialize t v)"

section \<open>Names of types\<close>

definition cass_prefix :: ptext where
  "cass_prefix = text_of ''org.apache.cassandra.db.marshal.''"

fun cassname :: "tclass \<Rightarrow> ptext" where
  "cassname BytesType = text_of ''BytesType''"
| "cassname DecimalType = text_of ''DecimalType''"
| "cassname UUIDType = text_of ''UUIDType''"
| "cassname BooleanType = text_of ''BooleanType''"
| "cassname ByteType = text_of ''ByteType''"
| "cassname AsciiType = text_of ''AsciiType''"
| "cassname FloatType = text_of ''FloatType''"
| "cassname DoubleType = text_of ''DoubleType''"
| "cassname LongType = text_of ''LongType''"
| "cassname Int32Type = text_of ''Int32Type''"
| "cassname IntegerType = text_of ''IntegerType''"
| "cassname InetAddressType = text_of ''InetAddressType''"
| "cassname CounterColumnType = text_of ''CounterColumnType''"
| "cassname DateType = text_of ''DateType''"
| "cassname TimestampType = text_of ''TimestampType''"
| "cassname TimeUUIDType = text_of ''TimeUUIDType''"
| "cassname SimpleDateType = text_of ''SimpleDateType''"
| "cassname ShortType = text_of ''ShortType''"
| "cassname TimeType = text_of ''TimeType''"
| "cassname DurationType = text_of ''DurationType''"
| "cassname UTF8Type = text_of ''UTF8Type''"
| "cassname VarcharType = text_of ''VarcharType''"
| "cassname ListType = text_of ''ListType''"
| "cassname SetType = text_of ''SetType''"
| "cassname MapType = text_of ''MapType''"
| "cassname TupleType = text_of ''TupleType''"
| "cassname UserType = text_of ''UserType''"
| "cassname CompositeType = text_of ''CompositeType''"
| "cassname DynamicCompositeType = text_of ''DynamicCompositeType''"
| "cassname ColumnToCollectionType = text_of ''ColumnToCollectionType''"
| "cassname ReversedType = text_of ''ReversedType''"
| "cassname FrozenType = text_of ''FrozenType''"
| "cassname (Unrecognized name) = name"

definition builtin_classes :: "tclass list" where
  "builtin_classes =
     [BytesType, DecimalType, UUIDType, BooleanType, ByteType, AsciiType, FloatType, DoubleType,
      LongType, Int32Type, IntegerType, InetAddressType, CounterColumnType, DateType,
      TimestampType, TimeUUIDType, SimpleDateType, ShortType, TimeType, DurationType, UTF8Type,
      VarcharType, ListType, SetType, MapType, TupleType, UserType, CompositeType,
      DynamicCompositeType, ColumnToCollectionType, ReversedType, FrozenType]"

text \<open>
  The registry \<open>_casstypes\<close>, which every class that is created enters under its name, and
  \<open>UserType._cache\<close>, the last class made for a keyspace and a name.
\<close>

record registry =
  casstypes :: "(ptext \<times> ctype) list"
  udt_cache :: "((ptext \<times> ptext) \<times> ctype) list"

definition builtin_types :: registry where
  "builtin_types = \<lparr>casstypes = map (\<lambda>c. (cassname c, plain c)) builtin_classes, udt_cache = []\<rparr>"

definition register_type :: "ptext \<Rightarrow> ctype \<Rightarrow> registry \<Rightarrow> registry" where
  "register_type name t reg =
     (if take 1 name = text_of ''_'' then reg else reg\<lparr>casstypes := AList.update name t (casstypes reg)\<rparr>)"

definition trim_prefix :: "ptext \<Rightarrow> ptext \<Rightarrow> ptext" where
  "trim_prefix s prefix = (if take (length prefix) s = prefix then drop (length prefix) s else s)"

definition lookup_casstype_simple :: "ptext \<Rightarrow> registry \<Rightarrow> ctype \<times> registry" where
  "lookup_casstype_simple casstype reg =
     (case map_of (casstypes reg) (trim_prefix casstype cass_prefix) of
        Some t \<Rightarrow> (t, reg)
      | None \<Rightarrow>
          (let t = plain (Unrecognized casstype) in (t, register_type casstype t reg)))"

fun join_text :: "ptext \<Rightarrow> ptext list \<Rightarrow> ptext" where
  "join_text sep [] = []"
| "join_text sep [x] = x"
| "join_text sep (x # y # xs) = x @ sep @ join_text sep (y # xs)"

definition cass_class_name :: "bool \<Rightarrow> tclass \<Rightarrow> ptext" where
  "cass_class_name full c =
     (if full \<and> of_char (CHR ''.'') \<notin> set (cassname c) then cass_prefix @ cassname c else cassname c)"

function cass_parameterized_type :: "bool \<Rightarrow> ctype \<Rightarrow> ptext" where
  "cass_parameterized_type full (CType c subs names u) =
     (if subs = [] then cass_class_name full c
      else cass_class_name full c @ text_of ''(''
             @ join_text (text_of '', '') (map (\<lambda>s. cass_parameterized_type full s) subs) @ text_of '')'')"
  by pat_completeness auto
termination
  by (relation "measure (\<lambda>(full, t). size t)") (auto simp: less_Suc_eq_le size_list_estimation' intro: trans_le_add1)

declare cass_parameterized_type.simps [simp del]

text \<open>The CQL name of a class, and of a type.\<close>

fun typename :: "tclass \<Rightarrow> ptext" where
  "typename BytesType = text_of ''blob''"
| "typename DecimalType = text_of ''decimal''"
| "typename UUIDType = text_of ''uuid''"
| "typename BooleanType = text_of ''boolean''"
| "typename ByteType = text_of ''tinyint''"
| "typename AsciiType = text_of ''ascii''"
| "typename FloatType = text_of ''float''"
| "typename DoubleType = text_of ''double''"
| "typename LongType = text_of ''bigint''"
| "typename Int32Type = text_of ''int''"
| "typename IntegerType = text_of ''varint''"
| "typename InetAddressType = text_of ''inet''"
| "typename CounterColumnType = text_of ''counter''"
| "typename DateType = text_of ''timestamp''"
| "typename TimestampType = text_of ''timestamp''"
| "typename TimeUUIDType = text_of ''timeuuid''"
| "typename SimpleDateType = text_of ''date''"
| "typename ShortType = text_of ''smallint''"
| "typename TimeType = text_of ''time''"
| "typename DurationType = text_of ''duration''"
| "typename UTF8Type = text_of ''text''"
| "typename VarcharType = text_of ''varchar''"
| "typename ListType = text_of ''list''"
| "typename SetType = text_of ''set''"
| "typename MapType = text_of ''map''"
| "typename TupleType = text_of ''tuple''"
| "typename FrozenType = text_of ''frozen''"
| "typename (Unrecognized name) = text_of [CHR 0x27] @ name @ text_of [CHR 0x27]"
| "typename c = cass_prefix @ cassname c"

function cql_parameterized_type :: "ctype \<Rightarrow> ptext" where
  "cql_parameterized_type (CType c subs names u) =
     (let cqls = map (\<lambda>s. cql_parameterized_type s) subs
      in if c = TupleType then text_of ''frozen<tuple<'' @ join_text (text_of '', '') cqls @ text_of ''>>''
         else if c = UserType then
           text_of ''frozen<'' @ (case u of Some (ks, name) \<Rightarrow> name | None \<Rightarrow> typename c) @ text_of ''>''
         else if c = CompositeType then
           text_of [CHR 0x27] @ cass_parameterized_type True (CType c subs names u) @ text_of [CHR 0x27]
         else if c = DynamicCompositeType then
           text_of [CHR 0x27] @ typename c @ text_of ''(''
             @ join_text (text_of '', '')
                 (map (\<lambda>(alias, s). (case alias of Some a \<Rightarrow> a | None \<Rightarrow> text_of ''None'') @ text_of ''=>''
                         @ cass_parameterized_type True s)
                    (zip (case names of Some ns \<Rightarrow> ns | None \<Rightarrow> []) subs))
             @ text_of '')'' @ text_of [CHR 0x27]
         else if subs = [] then typename c
         else typename c @ text_of ''<'' @ join_text (text_of '', '') cqls @ text_of ''>'')"
  by pat_completeness auto
termination
  by (relation "measure size") (auto simp: less_Suc_eq_le size_list_estimation' intro: trans_le_add1)

declare cql_parameterized_type.simps [simp del]

section \<open>Parsing the name of a type\<close>

definition word_char :: "nat \<Rightarrow> bool" where
  "word_char c \<longleftrightarrow> 97 \<le> c \<and> c \<le> 122 \<or> 65 \<le> c \<and> c \<le> 90 \<or> 48 \<le> c \<and> c \<le> 57
     \<or> c \<in> {95, 46, 58, 61, 62}"

definition unicode_space :: "nat \<Rightarrow> bool" where
  "unicode_space c \<longleftrightarrow> 9 \<le> c \<and> c \<le> 13 \<or> 28 \<le> c \<and> c \<le> 32 \<or> 8192 \<le> c \<and> c \<le> 8202
     \<or> c \<in> {133, 160, 5760, 8232, 8233, 8239, 8287, 12288}"

text \<open>\<open>casstype_scanner.scan\<close>: the tokens, and the rest where no pattern matches.\<close>

function scan :: "ptext \<Rightarrow> ptext list \<times> ptext" where
  "scan [] = ([], [])"
| "scan (c # cs) =
     (if c = 40 \<or> c = 41 then let (toks, rest) = scan cs in ([c] # toks, rest)
      else if word_char c then
        let (toks, rest) = scan (dropWhile word_char cs)
        in ((c # takeWhile word_char cs) # toks, rest)
      else if unicode_space c \<or> c = 44 then scan cs
      else ([], c # cs))"
  by pat_completeness auto
termination
  by (relation "measure length") (auto simp: less_Suc_eq_le length_dropWhile_le)

declare scan.simps(2) [simp del]

text \<open>\<open>re.split(':|=>', tok)\<close>\<close>

fun split_token :: "ptext \<Rightarrow> ptext \<Rightarrow> ptext list" where
  "split_token acc [] = [acc]"
| "split_token acc (c # cs) =
     (if c = 58 then acc # split_token [] cs
      else if c = 61 \<and> take 1 cs = [62] then acc # split_token [] (drop 1 cs)
      else split_token (acc @ [c]) cs)"

text \<open>The name a user type gets from the parser is hexadecimal.\<close>

definition name_from_hex_string :: "ptext option \<Rightarrow> ptext res" where
  "name_from_hex_string encoded =
     (case encoded of
        None \<Rightarrow> Inl TypeError
      | Some s \<Rightarrow>
          if list_all (\<lambda>c. c < 128) s
          then res_bind (unhexlify (map char_of s)) ascii_decode
          else Inl ValueError)"

text \<open>
  \<open>make_udt_class\<close> compares the field types of the cached class with the new ones as Python
  classes: \<open>apply_parameters\<close> makes a new class each time, so only fields of simple types and of
  user types of such fields compare equal.
\<close>

function same_each_time :: "ctype \<Rightarrow> bool" where
  "same_each_time (CType c subs names u) =
     (subs = [] \<or> c = UserType \<and> list_all id (map (\<lambda>s. same_each_time s) subs))"
  by pat_completeness auto
termination
  by (relation "measure size") (auto simp: less_Suc_eq_le size_list_estimation' intro: trans_le_add1)

definition make_udt_class ::
    "ptext \<Rightarrow> ptext \<Rightarrow> ptext list \<Rightarrow> ctype list \<Rightarrow> registry \<Rightarrow> ctype res \<times> registry" where
  "make_udt_class keyspace udt_name field_names field_types reg =
     (if length field_names \<noteq> length field_types then (Inl AssertionError, reg)
      else let t = CType UserType field_types (Some (map Some field_names)) (Some (keyspace, udt_name))
           in if map_of (udt_cache reg) (keyspace, udt_name) = Some t \<and> same_each_time t then (Inr t, reg)
              else (Inr t, register_type udt_name t
                (reg\<lparr>udt_cache := AList.update (keyspace, udt_name) t (udt_cache reg)\<rparr>)))"

definition evict_udt_class :: "ptext \<Rightarrow> ptext \<Rightarrow> registry \<Rightarrow> registry" where
  "evict_udt_class keyspace udt_name reg = reg\<lparr>udt_cache := AList.delete (keyspace, udt_name) (udt_cache reg)\<rparr>"

definition udt_apply_parameters ::
    "ctype list \<Rightarrow> ptext option list \<Rightarrow> registry \<Rightarrow> ctype res \<times> registry" where
  "udt_apply_parameters subs names reg =
     (case subs of
        ks # name # field_types \<Rightarrow>
          (case res_bind (name_from_hex_string (Some (cassname (ct_class name)))) (\<lambda>udt_name.
                  res_bind (res_map name_from_hex_string (drop 2 names)) (\<lambda>field_names.
                    Inr (udt_name, field_names))) of
             Inl e \<Rightarrow> (Inl e, reg)
           | Inr (udt_name, field_names) \<Rightarrow>
               make_udt_class (cass_parameterized_type False ks) udt_name field_names field_types reg)
      | _ \<Rightarrow> (Inl IndexError, reg))"

definition apply_parameters ::
    "ctype \<Rightarrow> ctype list \<Rightarrow> ptext option list option \<Rightarrow> registry \<Rightarrow> ctype res \<times> registry" where
  "apply_parameters t subs names reg =
     (let c = ct_class t
      in if (case num_subtypes c of Exactly n \<Rightarrow> length subs \<noteq> n | AnyNumber \<Rightarrow> False)
         then (Inl ValueError, reg)
         else let t' = CType c subs names None
              in (Inr t', register_type (cass_parameterized_type False t') t' reg))"

type_synonym parse_frame = "ctype list \<times> ptext option list"

fun parse_token :: "ptext \<Rightarrow> parse_frame list \<times> registry \<Rightarrow> (parse_frame list \<times> registry) res" where
  "parse_token tok (args, reg) =
     (if tok = [40] then Inr (([], []) # args, reg)
      else if tok = [41] then
        (case args of
           (types, names) # (prev_types, prev_names) # rest \<Rightarrow>
             if prev_types = [] then Inl IndexError
             else
               (let t = last prev_types;
                    (r, reg') = (if ct_class t = UserType then udt_apply_parameters types names reg
                                 else apply_parameters t types (Some names) reg)
                in res_bind r (\<lambda>t'. Inr ((butlast prev_types @ [t'], prev_names) # rest, reg')))
         | _ \<Rightarrow> Inl IndexError)
      else
        (case args of
           (types, names) # rest \<Rightarrow>
             (let parts = split_token [] tok;
                  name = (if length parts = 1 then None else Some (hd parts));
                  (t, reg') = lookup_casstype_simple (last parts) reg
              in Inr ((types @ [t], names @ [name]) # rest, reg'))
         | [] \<Rightarrow> Inl IndexError))"

fun parse_tokens :: "ptext list \<Rightarrow> parse_frame list \<times> registry \<Rightarrow> (parse_frame list \<times> registry) res" where
  "parse_tokens [] s = Inr s"
| "parse_tokens (tok # toks) s = res_bind (parse_token tok s) (parse_tokens toks)"

definition parse_casstype_args :: "ptext \<Rightarrow> registry \<Rightarrow> (ctype \<times> registry) res" where
  "parse_casstype_args typestring reg =
     (let (tokens, remainder) = scan typestring
      in if remainder \<noteq> [] then Inl ValueError
         else res_bind (parse_tokens tokens ([([], [])], reg))
           (\<lambda>(args, reg'). case last args of (t # _, _) \<Rightarrow> Inr (t, reg') | _ \<Rightarrow> Inl IndexError))"

text \<open>A \<open>UnicodeDecodeError\<close> is a \<open>ValueError\<close>.\<close>

definition lookup_casstype :: "ptext \<Rightarrow> registry \<Rightarrow> (ctype \<times> registry) res" where
  "lookup_casstype casstype reg =
     (case parse_casstype_args casstype reg of
        Inl e \<Rightarrow> if e \<in> {ValueError, AssertionError, IndexError, UnicodeDecodeError} then Inl ValueError else Inl e
      | Inr r \<Rightarrow> Inr r)"

definition cql_typename :: "ptext \<Rightarrow> registry \<Rightarrow> ptext res" where
  "cql_typename casstypename reg =
     res_bind (lookup_casstype casstypename reg) (\<lambda>(t, reg'). Inr (cql_parameterized_type t))"

section \<open>Slices and length fields\<close>

lemma py_slice_mid:
  assumes "i = int (length pre)" "j = int (length pre) + int (length mid)"
  shows "py_slice (pre @ mid @ post) i j = mid"
  using assms by (simp add: py_slice_def slice_bound_def Let_def)

lemma py_slice_start: "j = int (length mid) \<Longrightarrow> py_slice (mid @ post) 0 j = mid"
  using py_slice_mid [of 0 "[]" j mid post] by simp

lemma len_pack_unpack: "len_pack v n = Inr bs \<Longrightarrow> len_unpack v bs = Inr n \<and> int (length bs) = len_size v"
  using i32.unpack_pack u16.unpack_pack i32.pack_width u16.pack_width
  by (auto simp: len_pack_def len_unpack_def len_size_def split: if_splits)

lemma sized_bytes_Inr:
  "sized_bytes pack r = Inr bs \<longleftrightarrow> (\<exists>item hd. r = Inr item \<and> pack (int (length item)) = Inr hd \<and> bs = hd @ item)"
  by (auto simp: sized_bytes_def res_bind_Inr_iff wr_seq_Inr)

lemma items_loop_append:
  assumes "\<And>x bs. x \<in> set xs \<Longrightarrow> enc x = Inr bs \<Longrightarrow> dec bs = Inr x"
    "wr_seq (map (\<lambda>x. sized_bytes (len_pack v) (enc x)) xs) = Inr body"
  shows "items_loop dec v (pre @ body @ post) (length xs) (int (length pre)) = Inr xs"
  using assms
proof (induction xs arbitrary: pre body)
  case (Cons x xs)
  from Cons.prems(2) obtain item hd body' where x: "enc x = Inr item"
    "len_pack v (int (length item)) = Inr hd" "body = hd @ item @ body'"
    and r: "wr_seq (map (\<lambda>x. sized_bytes (len_pack v) (enc x)) xs) = Inr body'"
    by (auto simp: res_bind_Inr_iff sized_bytes_Inr)
  note h = len_pack_unpack [OF x(2)]
  have "len_unpack v (py_slice (pre @ body @ post) (int (length pre)) (int (length pre) + len_size v))
      = Inr (int (length item))"
    using h py_slice_mid [of "int (length pre)" pre "int (length pre) + len_size v" hd "item @ body' @ post"]
    by (simp add: x(3))
  moreover have "py_slice (pre @ body @ post) (int (length pre) + len_size v)
      (int (length pre) + len_size v + int (length item)) = item"
    using h py_slice_mid [of "int (length pre) + len_size v" "pre @ hd" _ item "body' @ post"]
    by (simp add: x(3))
  moreover have "dec item = Inr x" using Cons.prems(1) x(1) by simp
  moreover have "items_loop dec v (pre @ body @ post) (length xs)
      (int (length pre) + len_size v + int (length item)) = Inr xs"
    using Cons.IH [of body' "pre @ hd @ item", OF Cons.prems(1) r] h by (simp add: x(3) add.assoc)
  ultimately show ?case by (simp add: Let_def)
qed simp

lemma collection_roundtrip:
  assumes "\<And>x bs. x \<in> set xs \<Longrightarrow> enc x = Inr bs \<Longrightarrow> dec bs = Inr x"
    "collection_serialize enc v xs = Inr bs"
  shows "collection_deserialize dec v bs = Inr xs \<and> bs \<noteq> []"
proof -
  from assms(2) obtain hd body where hd: "len_pack v (int (length xs)) = Inr hd"
    and body: "wr_seq (map (\<lambda>x. sized_bytes (len_pack v) (enc x)) xs) = Inr body" and bs: "bs = hd @ body"
    by (auto simp: collection_serialize_def res_bind_Inr_iff)
  note h = len_pack_unpack [OF hd]
  have "len_unpack v (py_slice bs 0 (len_size v)) = Inr (int (length xs))"
    using h py_slice_start [of "len_size v" hd body] by (simp add: bs)
  moreover have "items_loop dec v bs (length xs) (len_size v) = Inr xs"
    using items_loop_append [where pre = hd and post = "[]", OF assms(1) body] h by (simp add: bs)
  moreover have "hd \<noteq> []" using h by (auto simp: len_size_def split: if_splits)
  ultimately show ?thesis by (simp add: collection_deserialize_def bs)
qed

lemma pair_serialize_Inr:
  "pair_serialize kenc venc v (k, x) = Inr bs \<longleftrightarrow>
     (\<exists>kb kh vb vh. kenc k = Inr kb \<and> venc x = Inr vb \<and> len_pack v (int (length kb)) = Inr kh
        \<and> len_pack v (int (length vb)) = Inr vh \<and> bs = kh @ kb @ vh @ vb)"
  by (auto simp: pair_serialize_def res_bind_Inr_iff wr_seq_Inr sized_bytes_Inr)

lemma pairs_loop_append:
  assumes "\<And>k x bs. (k, x) \<in> set kvs \<Longrightarrow> kenc k = Inr bs \<Longrightarrow> kdec bs = Inr k"
    "\<And>k x bs. (k, x) \<in> set kvs \<Longrightarrow> venc x = Inr bs \<Longrightarrow> vdec bs = Inr x"
    "wr_seq (map (pair_serialize kenc venc v) kvs) = Inr body"
  shows "pairs_loop kdec vdec v (pre @ body @ post) (length kvs) (int (length pre)) = Inr kvs"
  using assms
proof (induction kvs arbitrary: pre body)
  case (Cons kx kvs)
  obtain k x where kx: "kx = (k, x)" by force
  from Cons.prems(3) obtain kb kh vb vh body' where e: "kenc k = Inr kb" "venc x = Inr vb"
    "len_pack v (int (length kb)) = Inr kh" "len_pack v (int (length vb)) = Inr vh"
    "body = kh @ kb @ vh @ vb @ body'"
    and r: "wr_seq (map (pair_serialize kenc venc v) kvs) = Inr body'"
    by (auto simp: kx res_bind_Inr_iff pair_serialize_Inr)
  note h = len_pack_unpack [OF e(3)] len_pack_unpack [OF e(4)]
  let ?B = "pre @ body @ post" and ?p = "int (length pre)" and ?s = "len_size v"
  have "py_slice ?B ?p (?p + ?s) = kh"
    using h py_slice_mid [of ?p pre _ kh "kb @ vh @ vb @ body' @ post"] by (simp add: e(5))
  moreover have "py_slice ?B (?p + ?s) (?p + ?s + int (length kb)) = kb"
    using h py_slice_mid [of "?p + ?s" "pre @ kh" _ kb "vh @ vb @ body' @ post"] by (simp add: e(5))
  moreover have "py_slice ?B (?p + ?s + int (length kb)) (?p + ?s + int (length kb) + ?s) = vh"
    using h py_slice_mid [of "?p + ?s + int (length kb)" "pre @ kh @ kb" _ vh "vb @ body' @ post"]
    by (simp add: e(5))
  moreover have "py_slice ?B (?p + ?s + int (length kb) + ?s) (?p + ?s + int (length kb) + ?s + int (length vb)) = vb"
    using h py_slice_mid [of "?p + ?s + int (length kb) + ?s" "pre @ kh @ kb @ vh" _ vb "body' @ post"]
    by (simp add: e(5) algebra_simps)
  moreover
  have "pairs_loop kdec vdec v ((pre @ kh @ kb @ vh @ vb) @ body' @ post) (length kvs)
      (int (length (pre @ kh @ kb @ vh @ vb))) = Inr kvs"
    by (rule Cons.IH [OF _ _ r]) (meson Cons.prems(1, 2) list.set_intros(2))+
  then have "pairs_loop kdec vdec v ?B (length kvs) (?p + ?s + int (length kb) + ?s + int (length vb)) = Inr kvs"
    using h by (simp add: e(5) algebra_simps)
  moreover have "kdec kb = Inr k" "vdec vb = Inr x" using Cons.prems(1, 2) [of k x] e(1, 2) kx by simp_all
  ultimately show ?case using h by (simp add: kx Let_def)
qed simp

lemma map_roundtrip:
  assumes "\<And>k x bs. (k, x) \<in> set kvs \<Longrightarrow> kenc k = Inr bs \<Longrightarrow> kdec bs = Inr k"
    "\<And>k x bs. (k, x) \<in> set kvs \<Longrightarrow> venc x = Inr bs \<Longrightarrow> vdec bs = Inr x"
    "map_serialize kenc venc v kvs = Inr bs"
  shows "map_deserialize kdec vdec v bs = Inr kvs \<and> bs \<noteq> []"
proof -
  from assms(3) obtain hd body where hd: "len_pack v (int (length kvs)) = Inr hd"
    and body: "wr_seq (map (pair_serialize kenc venc v) kvs) = Inr body" and bs: "bs = hd @ body"
    by (auto simp: map_serialize_def res_bind_Inr_iff)
  note h = len_pack_unpack [OF hd]
  have "len_unpack v (py_slice bs 0 (len_size v)) = Inr (int (length kvs))"
    using h py_slice_start [of "len_size v" hd body] by (simp add: bs)
  moreover have "pairs_loop kdec vdec v bs (length kvs) (len_size v) = Inr kvs"
    using pairs_loop_append [where pre = hd and post = "[]", OF assms(1, 2) body] h by (simp add: bs)
  moreover have "hd \<noteq> []" using h by (auto simp: len_size_def split: if_splits)
  ultimately show ?thesis by (simp add: map_deserialize_def bs)
qed

lemma field_serialize_decode:
  assumes "field_serialize enc x = Inr fb" "dec None = Inr PNone"
    "\<And>bs. x \<noteq> PNone \<Longrightarrow> enc x = Inr bs \<Longrightarrow> dec (Some bs) = Inr x"
  shows "fb \<noteq> [] \<and> tuple_loop (dec # decs) (pre @ fb @ post) (int (length pre)) =
    res_bind (tuple_loop decs (pre @ fb @ post) (int (length (pre @ fb)))) (\<lambda>xs. Inr (x # xs))"
proof (cases "x = PNone")
  case True
  with assms(1) have fb: "int32_pack (- 1) = Inr fb" by (simp add: field_serialize_def)
  note h = i32.unpack_pack [OF fb] i32.pack_width [OF fb]
  then have "py_slice (pre @ fb @ post) (int (length pre)) (int (length pre) + 4) = fb"
    by (intro py_slice_mid) simp_all
  with h True assms(2) show ?thesis by auto
next
  case False
  with assms(1) obtain item hd where i: "enc x = Inr item" "int32_pack (int (length item)) = Inr hd" "fb = hd @ item"
    by (auto simp: field_serialize_def sized_bytes_Inr)
  note h = i32.unpack_pack [OF i(2)] i32.pack_width [OF i(2)]
  have "py_slice (pre @ fb @ post) (int (length pre)) (int (length pre) + 4) = hd"
    using h py_slice_mid [of "int (length pre)" pre _ hd "item @ post"] by (simp add: i(3))
  moreover have "py_slice (pre @ fb @ post) (int (length pre) + 4) (int (length pre) + 4 + int (length item)) = item"
    using h py_slice_mid [of "int (length pre) + 4" "pre @ hd" _ item post] by (simp add: i(3))
  moreover have "hd \<noteq> []" using h by auto
  ultimately show ?thesis using h assms(3) [OF False i(1)] by (auto simp: i(3) add.assoc)
qed

section \<open>Typing of values\<close>

text \<open>
  The values of a type. A value that was read may be \<open>None\<close> inside a collection, where
  \<open>strict\<close> typing, which is about values to be written, does not allow it: there \<open>None\<close> is
  a field of a tuple only, and a wrapper type has no empty value.
\<close>

definition int_bits :: "nat \<Rightarrow> int \<Rightarrow> bool" where
  "int_bits n k \<longleftrightarrow> - (2 ^ (n - 1)) \<le> k \<and> k < 2 ^ (n - 1)"

fun int_value :: "(int \<Rightarrow> bool) \<Rightarrow> pyval \<Rightarrow> bool" where
  "int_value p (PInt n) = p n"
| "int_value p _ = False"

fun text_value :: "(nat \<Rightarrow> bool) \<Rightarrow> pyval \<Rightarrow> bool" where
  "text_value p (PText s) = list_all p s"
| "text_value p _ = False"

fun simple_typed :: "bool \<Rightarrow> tclass \<Rightarrow> pyval \<Rightarrow> bool" where
  "simple_typed strict BytesType val = (case val of PBytes bs \<Rightarrow> True | _ \<Rightarrow> False)"
| "simple_typed strict DecimalType val =
     (case val of PDecimal s d e \<Rightarrow> (s \<longrightarrow> d \<noteq> 0) \<and> int_bits 32 (- e) | _ \<Rightarrow> False)"
| "simple_typed strict UUIDType val = (case val of PUUID bs \<Rightarrow> length bs = 16 | _ \<Rightarrow> False)"
| "simple_typed strict TimeUUIDType val = (case val of PUUID bs \<Rightarrow> length bs = 16 | _ \<Rightarrow> False)"
| "simple_typed strict BooleanType val = (case val of PBool b \<Rightarrow> True | _ \<Rightarrow> False)"
| "simple_typed strict ByteType val = int_value (int_bits 8) val"
| "simple_typed strict ShortType val = int_value (int_bits 16) val"
| "simple_typed strict Int32Type val = int_value (int_bits 32) val"
| "simple_typed strict LongType val = int_value (int_bits 64) val"
| "simple_typed strict CounterColumnType val = int_value (int_bits 64) val"
| "simple_typed strict IntegerType val = int_value (\<lambda>_. True) val"
| "simple_typed strict AsciiType val = text_value (\<lambda>c. c < 128) val"
| "simple_typed strict UTF8Type val = text_value scalar val"
| "simple_typed strict VarcharType val = text_value scalar val"
| "simple_typed strict DoubleType val = (case val of PDouble w \<Rightarrow> True | _ \<Rightarrow> False)"
| "simple_typed strict InetAddressType val =
     (case val of PInet bs \<Rightarrow> length bs = 4 \<or> length bs = 16 | _ \<Rightarrow> False)"
| "simple_typed strict SimpleDateType val = (case val of PDate d \<Rightarrow> int_bits 32 d | _ \<Rightarrow> False)"
| "simple_typed strict TimeType val =
     (case val of PTime t \<Rightarrow> int_bits 64 t \<and> t < Time_DAY | _ \<Rightarrow> False)"
| "simple_typed strict DurationType val =
     (case val of PDuration m d n \<Rightarrow> True | _ \<Rightarrow> False)"
| "simple_typed strict (Unrecognized name) val =
     (case val of PBytes bs \<Rightarrow> strict \<longrightarrow> bs \<noteq> [] | _ \<Rightarrow> False)"
| "simple_typed strict _ val = False"

definition nullable :: "bool \<Rightarrow> (pyval \<Rightarrow> bool) \<Rightarrow> pyval \<Rightarrow> bool" where
  "nullable strict p x = (if x = PNone then \<not> strict else p x)"

function typed :: "bool \<Rightarrow> ctype \<Rightarrow> pyval \<Rightarrow> bool" where
  "typed strict (CType c subs names u) val =
     (if \<not> parameterized c then simple_typed strict c val
      else
        (let ps = map (\<lambda>s x. typed strict s x) subs
         in if c = ListType then
              (case (ps, val) of ([p], PList xs) \<Rightarrow> list_all (nullable strict p) xs | _ \<Rightarrow> False)
            else if c = SetType then
              (case (ps, val) of ([p], PSet xs) \<Rightarrow> list_all (nullable strict p) xs | _ \<Rightarrow> False)
            else if c = MapType then
              (case (ps, val) of
                 ([p, q], PMap kvs) \<Rightarrow> list_all (\<lambda>(k, x). nullable strict p k \<and> nullable strict q x) kvs
               | _ \<Rightarrow> False)
            else if c = TupleType \<or> c = UserType then
              (case val of
                 PTuple xs \<Rightarrow> xs \<noteq> [] \<and> list_all2 (nullable False) ps xs
                   \<and> (strict \<and> c = UserType \<longrightarrow> map_option length names = Some (length subs))
               | _ \<Rightarrow> False)
            else if c = CompositeType then
              (case val of
                 PTuple xs \<Rightarrow> \<not> strict \<and> length xs \<le> length ps
                   \<and> list_all2 (nullable False) (take (length xs) ps) xs
               | _ \<Rightarrow> False)
            else if c = ReversedType \<or> c = FrozenType then
              (case ps of
                 [p] \<Rightarrow> nullable strict p val \<and> (strict \<longrightarrow> val \<noteq> PText [] \<and> val \<noteq> PBytes [])
               | _ \<Rightarrow> False)
            else False))"
  by pat_completeness auto
termination
  by (relation "measure (\<lambda>(strict, t, val). size t)")
    (auto simp: less_Suc_eq_le size_list_estimation' intro: trans_le_add1)

declare typed.simps [simp del] serialize.simps [simp del] deserialize.simps [simp del]

section \<open>Round trip\<close>

lemma unpack_double: "length (be_bytes 8 (uint (w :: 64 word))) = 8"
    "word_of_int (be_uint (be_bytes 8 (uint w))) = w"
proof -
  have "uint w < 2 ^ 64" using uint_lt2p [of w] by simp
  then have "uint w mod 256 ^ 8 = uint w" by simp
  then show "word_of_int (be_uint (be_bytes 8 (uint w))) = w" by (simp add: be_uint_be_bytes)
qed simp

lemma ascii_roundtrip: "ascii_encode s = Inr bs \<Longrightarrow> ascii_decode bs = Inr s \<and> (bs = [] \<longleftrightarrow> s = [])"
proof -
  assume "ascii_encode s = Inr bs"
  then have s: "\<forall>c \<in> set s. c < 128" and bs: "bs = map of_nat s"
    by (auto simp: ascii_encode_def split: if_splits)
  have c: "uint (of_nat c :: byte) = int c" "unat (of_nat c :: byte) = c" if "c < 128" for c
    using that by (simp_all add: unsigned_of_nat take_bit_nat_eq_self take_bit_int_eq_self)
  have "map unat bs = s" using s c(2) by (simp add: bs map_idI)
  moreover have "\<forall>b \<in> set bs. uint b < 128" using s c(1) by (auto simp: bs)
  ultimately show ?thesis by (simp add: ascii_decode_def bs)
qed

lemma utf8_encode_Nil: "utf8_encode s = Inr [] \<Longrightarrow> s = []"
  using utf8.unpack_pack [of s "[]"] by (simp add: utf8_decode.simps)

lemma decimal_roundtrip:
  assumes "decimal_serialize s d e = Inr bs" "s \<longrightarrow> d \<noteq> 0"
  shows "decimal_deserialize bs = Inr (PDecimal s d e) \<and> bs \<noteq> []"
proof -
  let ?u = "if s then - int d else int d"
  from assms(1) obtain hd where hd: "int32_pack (- e) = Inr hd" and bs: "bs = hd @ varint_pack ?u"
    by (auto simp: decimal_serialize_def Let_def res_bind_Inr_iff)
  have "length hd = 4" using i32.pack_width [OF hd] by simp
  then have "take 4 bs = hd" "drop 4 bs = varint_pack ?u" by (simp_all add: bs)
  then have "decimal_deserialize bs = Inr (PDecimal (?u < 0) (nat \<bar>?u\<bar>) e)"
    by (simp add: decimal_deserialize_def i32.unpack_pack [OF hd] varint_unpack_pack)
  moreover have "(?u < 0) = s" "nat \<bar>?u\<bar> = d" using assms(2) by auto
  moreover have "bs \<noteq> []" by (simp add: bs)
  ultimately show ?thesis by simp
qed

lemma vints_pack_nonempty: "vints_pack [a, b, c] = Inr bs \<Longrightarrow> bs \<noteq> []"
  using vints.unpack_pack [of "[a, b, c]" bs] by (auto simp: vints_unpack_def vints_unpack_loop.simps)

text \<open>What every packer of a fixed width gives.\<close>

lemmas fixed_unpack =
  i8.unpack_pack i16.unpack_pack i32.unpack_pack i64.unpack_pack u32.unpack_pack

lemma fixed_nonempty:
  "int8_pack n = Inr bs \<Longrightarrow> bs \<noteq> []" "int16_pack n = Inr bs \<Longrightarrow> bs \<noteq> []"
  "int32_pack n = Inr bs \<Longrightarrow> bs \<noteq> []" "int64_pack n = Inr bs \<Longrightarrow> bs \<noteq> []"
  "uint32_pack n = Inr bs \<Longrightarrow> bs \<noteq> []"
  using i8.pack_width i16.pack_width i32.pack_width i64.pack_width u32.pack_width by fastforce+

lemma simple_roundtrip:
  assumes "simple_typed True c val" "serialize_simple c val = Inr bs"
  shows "deserialize_simple c bs = Inr val \<and> (bs = [] \<longrightarrow> empty_binary_ok c \<and> val \<in> {PText [], PBytes []})"
proof (cases c)
  case DecimalType
  with assms show ?thesis by (auto simp: decimal_roundtrip split: pyval.splits)
next
  case AsciiType
  with assms ascii_roundtrip show ?thesis by (cases val) (auto simp: empty_binary_ok_def)
next
  case UTF8Type
  with assms utf8.unpack_pack utf8_encode_Nil show ?thesis by (cases val) (auto simp: empty_binary_ok_def)
next
  case VarcharType
  with assms utf8.unpack_pack utf8_encode_Nil show ?thesis by (cases val) (auto simp: empty_binary_ok_def)
next
  case DoubleType
  with assms unpack_double show ?thesis by (cases val) auto
next
  case DurationType
  with assms vints.unpack_pack vints_pack_nonempty show ?thesis
    by (cases val) (auto simp: duration_deserialize_def)
next
  case TimeType
  with assms i64.unpack_pack fixed_nonempty show ?thesis
    by (cases val) (auto simp: Time_from_timestamp_def)
next
  case SimpleDateType
  with assms u32.unpack_pack fixed_nonempty show ?thesis by (cases val) auto
next
  case BooleanType
  with assms i8.unpack_pack fixed_nonempty(1) show ?thesis by (cases val) (auto split: if_splits)
next
  case IntegerType
  with assms varint_unpack_pack show ?thesis by (cases val) auto
qed (use assms fixed_unpack fixed_nonempty in \<open>cases val; auto simp: uuid_of_bytes_def empty_binary_ok_def\<close>)+

text \<open>An element is read back from what was written for it.\<close>

definition reads_back :: "ctype \<Rightarrow> bool" where
  "reads_back t \<longleftrightarrow> (\<forall>v val bs. typed True t val \<longrightarrow> serialize t v val = Inr bs \<longrightarrow>
     from_binary t v (Some bs) = Inr val \<and> (bs = [] \<longrightarrow> val \<in> {PText [], PBytes []}))"

lemma reads_backD:
  assumes "reads_back t" "typed True t val" "serialize t v val = Inr bs"
  shows "from_binary t v (Some bs) = Inr val" "bs = [] \<Longrightarrow> val \<in> {PText [], PBytes []}"
  using assms unfolding reads_back_def by blast+

lemma element_reads_back:
  assumes "reads_back s" "nullable True (\<lambda>x. typed True s x) x" "to_bin (serialize s v) x = Inr bs"
  shows "from_bin (ct_class s) (deserialize s v) (Some bs) = Inr x"
  using assms reads_backD(1) [OF assms(1), of x v bs]
  by (auto simp: nullable_def to_bin_def from_binary_def split: if_splits)

lemma field_reads_back:
  assumes "reads_back s" "nullable False (\<lambda>x. typed True s x) x" "x \<noteq> PNone" "to_bin (serialize s v) x = Inr bs"
  shows "from_bin (ct_class s) (deserialize s v) (Some bs) = Inr x"
  using assms reads_backD(1) [OF assms(1), of x v bs]
  by (auto simp: nullable_def to_bin_def from_binary_def split: if_splits)

lemma collection_reads_back:
  assumes s: "reads_back s" and xs: "list_all (nullable True (\<lambda>x. typed True s x)) xs"
    and c: "collection_serialize (to_bin (serialize s w)) v xs = Inr bs"
  shows "collection_deserialize (\<lambda>b. from_bin (ct_class s) (deserialize s w) (Some b)) v bs = Inr xs \<and> bs \<noteq> []"
proof (rule collection_roundtrip [OF _ c])
  fix x b
  assume "x \<in> set xs" "to_bin (serialize s w) x = Inr b"
  with xs element_reads_back [OF s] show "from_bin (ct_class s) (deserialize s w) (Some b) = Inr x"
    by (auto simp: list_all_iff)
qed

lemma map_reads_back:
  assumes k: "reads_back k" and s: "reads_back s"
    and kvs: "list_all (\<lambda>(a, x). nullable True (\<lambda>x. typed True k x) a \<and> nullable True (\<lambda>x. typed True s x) x) kvs"
    and c: "map_serialize (to_bin (serialize k w)) (to_bin (serialize s w)) v kvs = Inr bs"
  shows "map_deserialize (\<lambda>b. from_bin (ct_class k) (deserialize k w) (Some b))
      (\<lambda>b. from_bin (ct_class s) (deserialize s w) (Some b)) v bs = Inr kvs \<and> bs \<noteq> []"
proof (rule map_roundtrip [OF _ _ c])
  fix a x b
  assume a: "(a, x) \<in> set kvs"
  { assume "to_bin (serialize k w) a = Inr b"
    with a kvs element_reads_back [OF k] show "from_bin (ct_class k) (deserialize k w) (Some b) = Inr a"
      by (fastforce simp: list_all_iff) }
  { assume "to_bin (serialize s w) x = Inr b"
    with a kvs element_reads_back [OF s] show "from_bin (ct_class s) (deserialize s w) (Some b) = Inr x"
      by (fastforce simp: list_all_iff) }
qed

lemma from_bin_None [simp]: "from_bin c d None = Inr PNone"
  by (simp add: from_bin_def)

lemma fields_read_back:
  assumes "\<forall>s \<in> set subs. reads_back s" "list_all2 (nullable False) (map (\<lambda>s x. typed True s x) subs) xs"
    "wr_seq (map (\<lambda>(item, enc). field_serialize enc item) (zip xs (map (\<lambda>s. to_bin (serialize s w)) subs))) = Inr body"
  shows "tuple_loop (map (\<lambda>s. from_bin (ct_class s) (deserialize s w)) subs) (pre @ body) (int (length pre)) = Inr xs"
  using assms
proof (induction subs arbitrary: xs pre body)
  case (Cons s subs)
  from Cons.prems(2) obtain x xs' where xs: "xs = x # xs'" "nullable False (\<lambda>x. typed True s x) x"
    "list_all2 (nullable False) (map (\<lambda>s x. typed True s x) subs) xs'"
    by (auto simp: list_all2_Cons1)
  from Cons.prems(3) obtain fb body' where fb: "field_serialize (to_bin (serialize s w)) x = Inr fb"
    and r: "wr_seq (map (\<lambda>(item, enc). field_serialize enc item) (zip xs' (map (\<lambda>s. to_bin (serialize s w)) subs))) = Inr body'"
    and body: "body = fb @ body'"
    by (auto simp: xs(1) res_bind_Inr_iff)
  note f = field_serialize_decode [OF fb, where dec = "from_bin (ct_class s) (deserialize s w)"
      and pre = pre and post = body'
      and decs = "map (\<lambda>s. from_bin (ct_class s) (deserialize s w)) subs", OF from_bin_None]
  have "reads_back s" using Cons.prems(1) by simp
  note f = f [OF field_reads_back [OF this xs(2)]]
  have "tuple_loop (map (\<lambda>s. from_bin (ct_class s) (deserialize s w)) subs) ((pre @ fb) @ body')
      (int (length (pre @ fb))) = Inr xs'"
    using Cons.prems(1) by (intro Cons.IH [OF _ xs(3) r]) simp
  with f show ?case by (simp add: body xs(1))
qed auto

lemma tuple_reads_back:
  assumes "\<forall>s \<in> set subs. reads_back s" "list_all2 (nullable False) (map (\<lambda>s x. typed True s x) subs) xs" "xs \<noteq> []"
    "wr_seq (map (\<lambda>(item, enc). field_serialize enc item) (zip xs (map (\<lambda>s. to_bin (serialize s w)) subs))) = Inr bs"
  shows "tuple_deserialize (map (\<lambda>s. from_bin (ct_class s) (deserialize s w)) subs) bs = Inr xs \<and> bs \<noteq> []"
proof
  have l: "length xs = length subs" using assms(2) by (auto dest: list_all2_lengthD)
  show "tuple_deserialize (map (\<lambda>s. from_bin (ct_class s) (deserialize s w)) subs) bs = Inr xs"
    using fields_read_back [OF assms(1, 2, 4), of "[]"] by (simp add: tuple_deserialize_def l)
  show "bs \<noteq> []"
  proof
    assume "bs = []"
    with fields_read_back [OF assms(1, 2, 4), of "[]"] assms(3)
    have "tuple_loop (map (\<lambda>s. from_bin (ct_class s) (deserialize s w)) subs) [] 0 = Inr xs" by simp
    moreover have "tuple_loop fs [] 0 = Inr []" for fs by (cases fs) simp_all
    ultimately show False using assms(3) by simp
  qed
qed

lemma udt_serialize_zip:
  assumes "length xs = length encs"
  shows "udt_serialize encs xs = wr_seq (map (\<lambda>(item, enc). field_serialize enc item) (zip xs encs))"
  using assms
proof (induction encs arbitrary: xs)
  case (Cons enc encs)
  then obtain x xs' where "xs = x # xs'" "length xs' = length encs" by (cases xs) auto
  with Cons.IH [of xs'] show ?case by (cases "field_serialize enc x"; cases "udt_serialize encs xs'") auto
qed simp

lemma typed_collection:
  "c = ListType \<or> c = SetType \<Longrightarrow> typed strict (CType c subs names u) val \<longleftrightarrow>
     (\<exists>s xs. subs = [s] \<and> val = (if c = ListType then PList xs else PSet xs)
        \<and> list_all (nullable strict (\<lambda>x. typed strict s x)) xs)"
  by (cases subs; cases "tl subs"; cases val) (auto simp: typed.simps parameterized_def)

lemma typed_map:
  "typed strict (CType MapType subs names u) val \<longleftrightarrow>
     (\<exists>k s kvs. subs = [k, s] \<and> val = PMap kvs
        \<and> list_all (\<lambda>(a, x). nullable strict (\<lambda>x. typed strict k x) a \<and> nullable strict (\<lambda>x. typed strict s x) x) kvs)"
  by (cases subs; cases "tl subs"; cases "tl (tl subs)"; cases val) (auto simp: typed.simps parameterized_def)

lemma typed_tuple:
  "c = TupleType \<or> c = UserType \<Longrightarrow> typed strict (CType c subs names u) val \<longleftrightarrow>
     (\<exists>xs. val = PTuple xs \<and> xs \<noteq> [] \<and> list_all2 (nullable False) (map (\<lambda>s x. typed strict s x) subs) xs
        \<and> (strict \<and> c = UserType \<longrightarrow> map_option length names = Some (length subs)))"
  by (cases val) (auto simp: typed.simps parameterized_def)

lemma typed_wrapper:
  "c = ReversedType \<or> c = FrozenType \<Longrightarrow> typed strict (CType c subs names u) val \<longleftrightarrow>
     (\<exists>s. subs = [s] \<and> nullable strict (\<lambda>x. typed strict s x) val
        \<and> (strict \<longrightarrow> val \<noteq> PText [] \<and> val \<noteq> PBytes []))"
  by (cases subs; cases "tl subs") (auto simp: typed.simps parameterized_def)

lemma from_binary_nonempty: "bs \<noteq> [] \<Longrightarrow> from_binary t v (Some bs) = deserialize t v bs"
  by (simp add: from_binary_def from_bin_def)

lemma reads_back_collection:
  assumes IH: "\<forall>s \<in> set subs. reads_back s" and c: "c = ListType \<or> c = SetType"
    and typed: "typed True (CType c subs names u) val" and ser: "serialize (CType c subs names u) v val = Inr bs"
  shows "deserialize (CType c subs names u) v bs = Inr val \<and> bs \<noteq> []"
proof -
  have p: "parameterized c" using c by (auto simp: parameterized_def)
  obtain s xs where s: "subs = [s]" "val = (if c = ListType then PList xs else PSet xs)"
    "list_all (nullable True (\<lambda>x. typed True s x)) xs"
    using typed c by (auto simp: typed_collection)
  have "collection_serialize (to_bin (serialize s (max 3 v))) v xs = Inr bs"
    using ser c by (auto simp: serialize.simps parameterized_def s split: if_splits)
  from collection_reads_back [OF _ s(3) this] IH c show ?thesis
    by (auto simp: deserialize.simps parameterized_def s)
qed

lemma reads_back_map:
  assumes IH: "\<forall>s \<in> set subs. reads_back s"
    and typed: "typed True (CType MapType subs names u) val"
    and ser: "serialize (CType MapType subs names u) v val = Inr bs"
  shows "deserialize (CType MapType subs names u) v bs = Inr val \<and> bs \<noteq> []"
proof -
  have p: "parameterized MapType" by (simp add: parameterized_def)
  obtain k s kvs where s: "subs = [k, s]" "val = PMap kvs"
    "list_all (\<lambda>(a, x). nullable True (\<lambda>x. typed True k x) a \<and> nullable True (\<lambda>x. typed True s x) x) kvs"
    using typed by (auto simp: typed_map)
  have "map_serialize (to_bin (serialize k (max 3 v))) (to_bin (serialize s (max 3 v))) v kvs = Inr bs"
    using ser by (simp add: serialize.simps parameterized_def s)
  from map_reads_back [OF _ _ s(3) this] IH show ?thesis
    by (auto simp: deserialize.simps parameterized_def s)
qed

lemma reads_back_tuple:
  assumes IH: "\<forall>s \<in> set subs. reads_back s" and c: "c = TupleType \<or> c = UserType"
    and typed: "typed True (CType c subs names u) val" and ser: "serialize (CType c subs names u) v val = Inr bs"
  shows "deserialize (CType c subs names u) v bs = Inr val \<and> bs \<noteq> []"
proof -
  have p: "parameterized c" using c by (auto simp: parameterized_def)
  let ?encs = "map (\<lambda>s. to_bin (serialize s (max 3 v))) subs"
  obtain xs where xs: "val = PTuple xs" "xs \<noteq> []"
    "list_all2 (nullable False) (map (\<lambda>s x. typed True s x) subs) xs"
    and names: "c = UserType \<longrightarrow> map_option length names = Some (length subs)"
    using typed c by (auto simp: typed_tuple)
  then have l: "length xs = length subs" and ne: "subs \<noteq> []" by (auto dest: list_all2_lengthD)
  have "wr_seq (map (\<lambda>(item, enc). field_serialize enc item) (zip xs ?encs)) = Inr bs"
  proof (cases "c = TupleType")
    case True
    with ser ne l show ?thesis by (simp add: serialize.simps parameterized_def xs(1) tuple_serialize_def)
  next
    case False
    with c names obtain ns where "c = UserType" "names = Some ns" "length ns = length subs" by auto
    with ser ne l have "udt_serialize ?encs xs = Inr bs" by (simp add: serialize.simps parameterized_def xs(1))
    then show ?thesis using udt_serialize_zip [of xs ?encs] l by simp
  qed
  from tuple_reads_back [OF IH xs(3, 2) this] c ne show ?thesis
    by (auto simp: deserialize.simps parameterized_def xs(1))
qed

lemma reads_back_wrapper:
  assumes IH: "\<forall>s \<in> set subs. reads_back s" and c: "c = ReversedType \<or> c = FrozenType"
    and typed: "typed True (CType c subs names u) val" and ser: "serialize (CType c subs names u) v val = Inr bs"
  shows "deserialize (CType c subs names u) v bs = Inr val \<and> bs \<noteq> []"
proof -
  have p: "parameterized c" using c by (auto simp: parameterized_def)
  obtain s where s: "subs = [s]" "val \<noteq> PNone" "typed True s val" "val \<noteq> PText []" "val \<noteq> PBytes []"
    using typed c by (auto simp: typed_wrapper nullable_def split: if_splits)
  have "serialize s v val = Inr bs" using ser c s by (auto simp: serialize.simps parameterized_def to_bin_def)
  moreover have "reads_back s" using IH s(1) by simp
  ultimately have "from_binary s v (Some bs) = Inr val" "bs \<noteq> []" using reads_backD [of s val v bs] s by auto
  then show ?thesis using c s(1) by (auto simp: deserialize.simps parameterized_def from_binary_def)
qed

lemma all_read_back: "reads_back t"
proof (induction t)
  case (CType c subs names u)
  then have IH: "\<forall>s \<in> set subs. reads_back s" by blast
  show ?case unfolding reads_back_def
  proof (intro allI impI)
    fix v val bs
    assume typed: "typed True (CType c subs names u) val" and ser: "serialize (CType c subs names u) v val = Inr bs"
    show "from_binary (CType c subs names u) v (Some bs) = Inr val \<and> (bs = [] \<longrightarrow> val \<in> {PText [], PBytes []})"
    proof (cases "parameterized c")
      case False
      with typed ser have "simple_typed True c val" "serialize_simple c val = Inr bs"
        by (simp_all add: typed.simps serialize.simps)
      from simple_roundtrip [OF this] False show ?thesis
        by (auto simp: from_binary_def from_bin_def deserialize.simps)
    next
      case True
      then consider "c = ListType \<or> c = SetType" | "c = MapType" | "c = TupleType \<or> c = UserType"
        | "c = ReversedType \<or> c = FrozenType" | "c = CompositeType" | "c = DynamicCompositeType \<or> c = ColumnToCollectionType"
        by (auto simp: parameterized_def)
      then have "deserialize (CType c subs names u) v bs = Inr val \<and> bs \<noteq> []"
      proof cases
        case 1
        then show ?thesis by (rule reads_back_collection [OF IH _ typed ser])
      next
        case 2
        with typed ser show ?thesis by (simp add: reads_back_map [OF IH])
      next
        case 3
        then show ?thesis by (rule reads_back_tuple [OF IH _ typed ser])
      next
        case 4
        then show ?thesis by (rule reads_back_wrapper [OF IH _ typed ser])
      next
        case 5
        with typed True show ?thesis by (auto simp: typed.simps Let_def split: pyval.splits)
      next
        case 6
        with typed True show ?thesis by (auto simp: typed.simps Let_def)
      qed
      then show ?thesis by (simp add: from_binary_nonempty)
    qed
  qed
qed

section \<open>What is read has the type it was read at\<close>

lemma unpack_signed_bits:
  assumes "unpack_signed k bs = Inr n" "0 < k"
  shows "int_bits (8 * k) n"
proof -
  from assms(1) have "length bs = k" "n = be_sint bs" by (auto simp: unpack_signed_def split: if_splits)
  moreover from this assms(2) have "bs \<noteq> []" by auto
  ultimately show ?thesis using be_sint_range [of bs]
    by (cases k) (auto simp: int_bits_def power_add two_power_8_mult [symmetric])
qed

lemma unpack_bits:
  "int8_unpack bs = Inr n \<Longrightarrow> int_bits 8 n" "int16_unpack bs = Inr n \<Longrightarrow> int_bits 16 n"
  "int32_unpack bs = Inr n \<Longrightarrow> int_bits 32 n" "int64_unpack bs = Inr n \<Longrightarrow> int_bits 64 n"
  unfolding int8_unpack_def int16_unpack_def int32_unpack_def int64_unpack_def
  by (drule unpack_signed_bits; simp)+

lemma uint32_unpack_bits: "uint32_unpack bs = Inr n \<Longrightarrow> int_bits 32 (n - EPOCH_OFFSET_DAYS)"
  using be_uint_less [of bs]
  by (auto simp: uint32_unpack_def unpack_unsigned_def int_bits_def EPOCH_OFFSET_DAYS_def split: if_splits)

lemma ascii_decode_range: "ascii_decode bs = Inr s \<Longrightarrow> list_all (\<lambda>c. c < 128) s"
proof -
  assume "ascii_decode bs = Inr s"
  then have s: "s = map unat bs" and bs: "\<forall>b \<in> set bs. uint b < 128"
    by (simp_all add: ascii_decode_def split: if_splits)
  have "unat b < 128" if "uint b < 128" for b :: byte
    using that unat_eq_nat_uint [of b] by linarith
  with bs show ?thesis by (simp add: s list_all_iff)
qed

lemma utf8_decode_scalar: "utf8_decode bs = Inr s \<Longrightarrow> list_all scalar s"
  using utf8.pack_valid utf8_encode_decode by blast

lemma decimal_typed: "decimal_deserialize bs = Inr x \<Longrightarrow> simple_typed False DecimalType x"
  using unpack_bits(3) by (auto simp: decimal_deserialize_def elim!: res_bindE)

lemma simple_sound:
  assumes "deserialize_simple c bs = Inr x" "\<not> parameterized c"
  shows "simple_typed False c x"
proof (cases c)
  case DecimalType
  with assms show ?thesis using decimal_typed by simp
next
  case DurationType
  with assms show ?thesis by (auto simp: duration_deserialize_def elim!: res_bindE split: list.splits)
next
  case TimeType
  with assms unpack_bits(4) show ?thesis
    by (auto simp: Time_from_timestamp_def elim!: res_bindE split: if_splits)
next
  case SimpleDateType
  with assms uint32_unpack_bits show ?thesis by (auto elim!: res_bindE)
qed (use assms unpack_bits ascii_decode_range utf8_decode_scalar in
      \<open>auto simp: uuid_of_bytes_def parameterized_def elim!: res_bindE split: if_splits\<close>)+

lemma items_loop_sound:
  assumes "\<And>b x. dec b = Inr x \<Longrightarrow> P x" "items_loop dec v byts n p = Inr xs"
  shows "list_all P xs"
  using assms(2) by (induction n arbitrary: p xs) (auto simp: Let_def assms(1) elim!: res_bindE)

lemma pairs_loop_sound:
  assumes "\<And>b x. kdec b = Inr x \<Longrightarrow> P x" "\<And>b x. vdec b = Inr x \<Longrightarrow> Q x"
    "pairs_loop kdec vdec v byts n p = Inr kvs"
  shows "list_all (\<lambda>(k, x). P k \<and> Q x) kvs"
  using assms(3) by (induction n arbitrary: p kvs) (auto simp: Let_def assms(1, 2) elim!: res_bindE)

lemma tuple_loop_sound:
  assumes "list_all2 (\<lambda>dec P. \<forall>b x. dec b = Inr x \<longrightarrow> P x) decs Ps" "tuple_loop decs byts p = Inr xs"
  shows "length xs \<le> length Ps \<and> list_all2 (\<lambda>P x. P x) (take (length xs) Ps) xs"
  using assms
proof (induction arbitrary: p xs rule: list_all2_induct)
  case (Cons dec decs P Ps)
  show ?case
  proof (cases "p = int (length byts)")
    case False
    with Cons.prems obtain b x xs' q where "dec b = Inr x" "tuple_loop decs byts q = Inr xs'" "xs = x # xs'"
      by (auto simp: Let_def elim!: res_bindE split: if_splits)
    with Cons show ?thesis by auto
  qed (use Cons.prems in simp)
qed simp

lemma composite_sound:
  assumes "list_all2 (\<lambda>dec P. \<forall>b x. dec b = Inr x \<longrightarrow> P x) decs Ps" "composite_deserialize decs byts = Inr xs"
  shows "length xs \<le> length Ps \<and> list_all2 (\<lambda>P x. P x) (take (length xs) Ps) xs"
  using assms
proof (induction arbitrary: byts xs rule: list_all2_induct)
  case (Cons dec decs P Ps)
  show ?case
  proof (cases "byts = []")
    case False
    with Cons.prems obtain b x xs' q where "dec b = Inr x" "composite_deserialize decs q = Inr xs'" "xs = x # xs'"
      by (auto simp: Let_def elim!: res_bindE)
    with Cons show ?thesis by auto
  qed (use Cons.prems in simp)
qed simp

definition sound :: "ctype \<Rightarrow> bool" where
  "sound t \<longleftrightarrow> (\<forall>v b x. from_binary t v b = Inr x \<longrightarrow> nullable False (\<lambda>x. typed False t x) x)"

lemma soundD: "sound t \<Longrightarrow> from_bin (ct_class t) (deserialize t v) b = Inr x \<Longrightarrow> nullable False (\<lambda>x. typed False t x) x"
  unfolding sound_def from_binary_def by blast

lemma sound_decs:
  "\<forall>s \<in> set subs. sound s \<Longrightarrow>
     list_all2 (\<lambda>dec P. \<forall>b x. dec b = Inr x \<longrightarrow> P x)
       (map (\<lambda>s. from_bin (ct_class s) (deserialize s v)) subs) (map (\<lambda>s. nullable False (\<lambda>x. typed False s x)) subs)"
  using soundD by (induction subs) auto

lemma tuple_sound:
  assumes "\<forall>s \<in> set subs. sound s" "subs \<noteq> []"
    "tuple_deserialize (map (\<lambda>s. from_bin (ct_class s) (deserialize s v)) subs) byts = Inr xs"
  shows "xs \<noteq> [] \<and> list_all2 (nullable False) (map (\<lambda>s x. typed False s x) subs) xs"
proof -
  let ?Ps = "map (\<lambda>s. nullable False (\<lambda>x. typed False s x)) subs"
  from assms(3) obtain ys where ys: "tuple_loop (map (\<lambda>s. from_bin (ct_class s) (deserialize s v)) subs) byts 0 = Inr ys"
    "xs = ys @ replicate (length subs - length ys) PNone"
    by (auto simp: tuple_deserialize_def elim!: res_bindE)
  from tuple_loop_sound [OF sound_decs [OF assms(1)] ys(1)]
  have l: "length ys \<le> length subs" and a: "list_all2 (\<lambda>P x. P x) (take (length ys) ?Ps) ys" by simp_all
  have "list_all2 (\<lambda>P x. P x) (drop (length ys) ?Ps) (replicate (length subs - length ys) PNone)"
    by (auto simp: list_all2_conv_all_nth nullable_def)
  from list_all2_appendI [OF a this] have "list_all2 (\<lambda>P x. P x) ?Ps xs" by (simp add: ys(2))
  moreover have "xs \<noteq> []" using assms(2) l by (auto simp: ys(2))
  ultimately show ?thesis by (auto simp: list_all2_conv_all_nth)
qed

lemma all_sound: "sound t"
proof (induction t)
  case (CType c subs names u)
  then have IH: "\<forall>s \<in> set subs. sound s" by blast
  have "typed False (CType c subs names u) x \<or> x = PNone"
    if d: "deserialize (CType c subs names u) v bs = Inr x" for v bs x
  proof (cases "parameterized c")
    case False
    with d simple_sound show ?thesis by (simp add: typed.simps deserialize.simps)
  next
    case True
    with d have ne: "subs \<noteq> []" by (auto simp: deserialize.simps)
    consider "c = ListType \<or> c = SetType" | "c = MapType" | "c = TupleType \<or> c = UserType"
      | "c = ReversedType \<or> c = FrozenType" | "c = CompositeType" | "c = DynamicCompositeType \<or> c = ColumnToCollectionType"
      using True by (auto simp: parameterized_def)
    then show ?thesis
    proof cases
      case 1
      then obtain s xs where s: "subs = [s]" "x = (if c = ListType then PList xs else PSet xs)"
        "collection_deserialize (\<lambda>b. from_bin (ct_class s) (deserialize s (max 3 v)) (Some b)) v bs = Inr xs"
        using d ne True by (cases subs; cases "tl subs") (auto simp: deserialize.simps elim!: res_bindE split: if_splits)
      have "sound s" using IH s(1) by simp
      then have "list_all (nullable False (\<lambda>x. typed False s x)) xs"
        using s(3) unfolding collection_deserialize_def
        by (auto elim!: res_bindE intro: items_loop_sound [rotated] dest: soundD)
      with 1 s show ?thesis by (simp add: typed_collection)
    next
      case 2
      then obtain k s kvs where s: "subs = [k, s]" "x = PMap kvs"
        "map_deserialize (\<lambda>b. from_bin (ct_class k) (deserialize k (max 3 v)) (Some b))
           (\<lambda>b. from_bin (ct_class s) (deserialize s (max 3 v)) (Some b)) v bs = Inr kvs"
        using d ne True by (cases subs; cases "tl subs"; cases "tl (tl subs)")
          (auto simp: deserialize.simps elim!: res_bindE split: if_splits)
      have "sound k" "sound s" using IH s(1) by simp_all
      then have "list_all (\<lambda>(a, x). nullable False (\<lambda>x. typed False k x) a \<and> nullable False (\<lambda>x. typed False s x) x) kvs"
        using s(3) unfolding map_deserialize_def
        by (auto elim!: res_bindE intro: pairs_loop_sound [rotated 2] dest: soundD)
      with 2 s show ?thesis by (simp add: typed_map)
    next
      case 3
      then obtain xs where xs: "x = PTuple xs"
        "tuple_deserialize (map (\<lambda>s. from_bin (ct_class s) (deserialize s (max 3 v))) subs) bs = Inr xs"
        using d ne True by (auto simp: deserialize.simps elim!: res_bindE)
      from tuple_sound [OF IH ne xs(2)] 3 xs(1) show ?thesis by (simp add: typed_tuple)
    next
      case 4
      then obtain s where s: "subs = [s]" "from_bin (ct_class s) (deserialize s v) (Some bs) = Inr x"
        using d ne True by (cases subs; cases "tl subs") (auto simp: deserialize.simps split: if_splits)
      have "sound s" using IH s(1) by simp
      from soundD [OF this s(2)] 4 s(1) show ?thesis by (simp add: typed_wrapper)
    next
      case 5
      then obtain xs where xs: "x = PTuple xs"
        "composite_deserialize (map (\<lambda>s. from_bin (ct_class s) (deserialize s v)) subs) bs = Inr xs"
        using d ne True by (auto simp: deserialize.simps elim!: res_bindE)
      from composite_sound [OF sound_decs [OF IH] xs(2)]
      have "length xs \<le> length subs" "list_all2 (nullable False) (take (length xs) (map (\<lambda>s x. typed False s x) subs)) xs"
        by (auto simp: list_all2_conv_all_nth)
      with 5 True xs(1) show ?thesis by (simp add: typed.simps)
    next
      case 6
      with d ne True show ?thesis by (auto simp: deserialize.simps)
    qed
  qed
  then show ?case
    by (auto simp: sound_def from_binary_def from_bin_def nullable_def split: option.splits if_splits)
qed

section \<open>A printed type name parses back to the type\<close>

lemma builtin_names_ok:
  "list_all (\<lambda>c. cassname c \<noteq> [] \<and> list_all (\<lambda>x. word_char x \<and> x \<notin> {40, 41, 46, 58, 61, 62}) (cassname c))
     builtin_classes"
  by code_simp

lemma prefix_ok: "list_all (\<lambda>x. word_char x \<and> x \<notin> {40, 41, 58, 61, 62}) cass_prefix \<and> 46 \<in> set cass_prefix \<and> cass_prefix \<noteq> []"
  by code_simp

lemma dot_char: "(of_char (CHR ''.'') :: nat) = 46"
  by simp

lemma class_name:
  assumes "c \<in> set builtin_classes"
  shows "cass_class_name full c = (if full then cass_prefix @ cassname c else cassname c)"
    "cass_class_name full c \<noteq> []"
    "\<forall>x \<in> set (cass_class_name full c). word_char x \<and> x \<notin> {40, 41, 58, 61, 62}"
    "trim_prefix (cass_class_name full c) cass_prefix = cassname c"
proof -
  from builtin_names_ok assms
  have c: "cassname c \<noteq> []" "\<forall>x \<in> set (cassname c). word_char x \<and> x \<notin> {40, 41, 46, 58, 61, 62}"
    by (auto simp: list_all_iff)
  then have dot: "46 \<notin> set (cassname c)" by blast
  then show n: "cass_class_name full c = (if full then cass_prefix @ cassname c else cassname c)"
    by (simp add: cass_class_name_def dot_char)
  show "cass_class_name full c \<noteq> []" using c by (simp add: n)
  show "\<forall>x \<in> set (cass_class_name full c). word_char x \<and> x \<notin> {40, 41, 58, 61, 62}"
    using c prefix_ok by (auto simp: n list_all_iff)
  have "take (length cass_prefix) (cassname c) \<noteq> cass_prefix"
    using dot prefix_ok by (metis in_set_takeD)
  then show "trim_prefix (cass_class_name full c) cass_prefix = cassname c" by (simp add: n trim_prefix_def)
qed

text \<open>The types that a type name can express.\<close>

function printable :: "ctype \<Rightarrow> bool" where
  "printable (CType c subs names u) =
     (c \<in> set builtin_classes \<and> c \<noteq> UserType \<and> u = None
      \<and> (if subs = [] then names = None
         else names = Some (replicate (length subs) None)
           \<and> (case num_subtypes c of Exactly n \<Rightarrow> length subs = n | AnyNumber \<Rightarrow> True)
           \<and> list_all id (map (\<lambda>s. printable s) subs)))"
  by pat_completeness auto
termination
  by (relation "measure size") (auto simp: less_Suc_eq_le size_list_estimation' intro: trans_le_add1)

declare printable.simps [simp del]

function type_tokens :: "bool \<Rightarrow> ctype \<Rightarrow> ptext list" where
  "type_tokens full (CType c subs names u) =
     (if subs = [] then [cass_class_name full c]
      else cass_class_name full c # [40] # concat (map (\<lambda>s. type_tokens full s) subs) @ [[41]])"
  by pat_completeness auto
termination
  by (relation "measure (\<lambda>(full, t). size t)") (auto simp: less_Suc_eq_le size_list_estimation' intro: trans_le_add1)

declare type_tokens.simps [simp del]

lemma scan_word:
  assumes "w \<noteq> []" "\<forall>x \<in> set w. word_char x" "rest = [] \<or> \<not> word_char (hd rest)"
  shows "scan (w @ rest) = (w # fst (scan rest), snd (scan rest))"
proof -
  obtain c cs where w: "w = c # cs" using assms(1) by (cases w) auto
  have "word_char c" "\<forall>x \<in> set cs. word_char x" using assms(2) w by auto
  then have tw: "takeWhile word_char (cs @ rest) = cs" "dropWhile word_char (cs @ rest) = rest"
    using assms(3) by (cases rest; simp add: takeWhile_append2 dropWhile_append2)+
  have "c \<noteq> 40" "c \<noteq> 41" using \<open>word_char c\<close> by (auto simp: word_char_def)
  with \<open>word_char c\<close> tw show ?thesis by (simp add: w scan.simps(2) split_beta Let_def)
qed

lemma scan_symbol:
  "scan (40 # cs) = ([40] # fst (scan cs), snd (scan cs))"
  "scan (41 # cs) = ([41] # fst (scan cs), snd (scan cs))"
  "scan (44 # cs) = scan cs" "scan (32 # cs) = scan cs"
  by (simp_all add: scan.simps(2) split_beta Let_def word_char_def unicode_space_def)

lemma not_word: "\<not> word_char 40" "\<not> word_char 41" "\<not> word_char 44"
  by (simp_all add: word_char_def)

lemma sep_text: "text_of '', '' = [44, 32]" "text_of ''('' = [40]" "text_of '')'' = [41]"
  by (simp_all add: text_of_def)

definition scans :: "bool \<Rightarrow> ctype \<Rightarrow> bool" where
  "scans full t \<longleftrightarrow> (\<forall>rest. rest = [] \<or> \<not> word_char (hd rest) \<longrightarrow>
     scan (cass_parameterized_type full t @ rest) = (type_tokens full t @ fst (scan rest), snd (scan rest)))"

lemma scan_join:
  assumes "\<forall>s \<in> set subs. scans full s" "subs \<noteq> []"
  shows "scan (join_text [44, 32] (map (\<lambda>s. cass_parameterized_type full s) subs) @ 41 # rest)
    = (concat (map (\<lambda>s. type_tokens full s) subs) @ [41] # fst (scan rest), snd (scan rest))"
  using assms
proof (induction subs rule: induct_list012)
  case (2 s)
  then show ?case by (simp add: scans_def not_word scan_symbol)
next
  case (3 s s' subs)
  then show ?case by (simp add: scans_def not_word scan_symbol)
qed simp

lemma scan_printed: "printable t \<Longrightarrow> scans full t"
proof (induction t)
  case (CType c subs names u)
  then have c: "c \<in> set builtin_classes" by (simp add: printable.simps)
  note n = class_name(2, 3) [OF c, of full]
  then have w: "\<forall>x \<in> set (cass_class_name full c). word_char x" by blast
  show ?case
  proof (cases "subs = []")
    case True
    then show ?thesis using scan_word [OF n(1) w]
      by (simp add: scans_def cass_parameterized_type.simps type_tokens.simps)
  next
    case False
    with CType have IH: "\<forall>s \<in> set subs. scans full s" by (auto simp: printable.simps list_all_iff)
    note j = scan_join [OF IH False]
    show ?thesis unfolding scans_def
    proof (intro allI impI)
      fix rest :: ptext
      have "scan (cass_class_name full c @ 40 # join_text [44, 32] (map (\<lambda>s. cass_parameterized_type full s) subs) @ 41 # rest)
        = (cass_class_name full c # [40] # concat (map (\<lambda>s. type_tokens full s) subs) @ [41] # fst (scan rest), snd (scan rest))"
        by (subst scan_word [OF n(1) w]) (simp_all add: not_word scan_symbol j)
      then show "scan (cass_parameterized_type full (CType c subs names u) @ rest)
        = (type_tokens full (CType c subs names u) @ fst (scan rest), snd (scan rest))"
        using False by (simp add: cass_parameterized_type.simps type_tokens.simps sep_text)
    qed
  qed
qed

definition registry_ok :: "registry \<Rightarrow> bool" where
  "registry_ok reg \<longleftrightarrow> (\<forall>c \<in> set builtin_classes. map_of (casstypes reg) (cassname c) = Some (plain c))"

lemma builtin_registry_ok: "registry_ok builtin_types"
proof -
  have "list_all (\<lambda>c. map_of (casstypes builtin_types) (cassname c) = Some (plain c)) builtin_classes" by code_simp
  then show ?thesis by (simp add: registry_ok_def list_all_iff)
qed

lemma split_token_plain: "\<forall>x \<in> set w. x \<notin> {58, 61} \<Longrightarrow> split_token acc w = [acc @ w]"
  by (induction w arbitrary: acc) auto

lemma parse_name:
  assumes "c \<in> set builtin_classes" "registry_ok reg"
  shows "parse_token (cass_class_name full c) ((ts, ns) # stk, reg) = Inr ((ts @ [plain c], ns @ [None]) # stk, reg)"
proof -
  let ?n = "cass_class_name full c"
  note n = class_name(2, 3, 4) [OF assms(1), of full]
  have "40 \<notin> set ?n" "41 \<notin> set ?n" using n(2) by blast+
  then have "?n \<noteq> [40]" "?n \<noteq> [41]" by (metis list.set_intros(1))+
  moreover have "\<forall>x \<in> set ?n. x \<notin> {58, 61}" using n(2) by blast
  then have "split_token [] ?n = [?n]" using split_token_plain [of ?n "[]"] by simp
  moreover have "lookup_casstype_simple ?n reg = (plain c, reg)"
    using assms n(3) by (simp add: lookup_casstype_simple_def registry_ok_def)
  ultimately show ?thesis by (simp add: Let_def)
qed

lemma registry_ok_register:
  assumes "registry_ok reg" "40 \<in> set name"
  shows "registry_ok (register_type name t reg)"
proof -
  have "cassname c \<noteq> name" if "c \<in> set builtin_classes" for c
    using that builtin_names_ok assms(2) by (auto simp: list_all_iff)
  with assms(1) show ?thesis by (simp add: registry_ok_def register_type_def update_conv')
qed

definition parses :: "bool \<Rightarrow> ctype \<Rightarrow> bool" where
  "parses full t \<longleftrightarrow> (\<forall>reg ts ns stk. registry_ok reg \<longrightarrow> (\<exists>reg'. registry_ok reg' \<and>
     (\<forall>more. parse_tokens (type_tokens full t @ more) ((ts, ns) # stk, reg)
        = parse_tokens more ((ts @ [t], ns @ [None]) # stk, reg'))))"

lemma parse_subtypes:
  assumes "\<forall>s \<in> set subs. parses full s" "registry_ok reg"
  shows "\<exists>reg'. registry_ok reg' \<and>
     (\<forall>more. parse_tokens (concat (map (\<lambda>s. type_tokens full s) subs) @ more) ((ts, ns) # stk, reg)
        = parse_tokens more ((ts @ subs, ns @ replicate (length subs) None) # stk, reg'))"
  using assms
proof (induction subs arbitrary: reg ts ns)
  case (Cons s subs)
  then obtain reg1 where 1: "registry_ok reg1"
    "\<forall>more. parse_tokens (type_tokens full s @ more) ((ts, ns) # stk, reg)
        = parse_tokens more ((ts @ [s], ns @ [None]) # stk, reg1)"
    unfolding parses_def by (meson list.set_intros(1))
  from Cons.IH [OF _ 1(1), of "ts @ [s]" "ns @ [None]"] Cons.prems(1)
  obtain reg2 where 2: "registry_ok reg2"
    "\<forall>more. parse_tokens (concat (map (\<lambda>s. type_tokens full s) subs) @ more) ((ts @ [s], ns @ [None]) # stk, reg1)
        = parse_tokens more ((ts @ s # subs, ns @ None # replicate (length subs) None) # stk, reg2)"
    by auto
  show ?case using 1(2) 2 by (intro exI [of _ reg2]) (simp add: Cons_replicate_eq [symmetric])
qed auto

lemma parse_printed: "printable t \<Longrightarrow> parses full t"
proof (induction t)
  case (CType c subs names u)
  then have c: "c \<in> set builtin_classes" "c \<noteq> UserType" "u = None" by (simp_all add: printable.simps)
  show ?case unfolding parses_def
  proof (intro allI impI)
    fix reg ts ns stk
    assume reg: "registry_ok reg"
    note name = parse_name [OF c(1) reg, of full]
    show "\<exists>reg'. registry_ok reg' \<and>
      (\<forall>more. parse_tokens (type_tokens full (CType c subs names u) @ more) ((ts, ns) # stk, reg)
        = parse_tokens more ((ts @ [CType c subs names u], ns @ [None]) # stk, reg'))"
    proof (cases "subs = []")
      case True
      with CType.prems have "names = None" by (simp add: printable.simps)
      with True reg name c(3) show ?thesis by (intro exI [of _ reg]) (simp add: type_tokens.simps)
    next
      case False
      with CType have IH: "\<forall>s \<in> set subs. parses full s" by (auto simp: printable.simps list_all_iff)
      from False CType.prems have names: "names = Some (replicate (length subs) None)"
        and ar: "\<not> (case num_subtypes c of Exactly n \<Rightarrow> length subs \<noteq> n | AnyNumber \<Rightarrow> False)"
        by (auto simp: printable.simps split: arity.splits)
      let ?t = "CType c subs names None"
      from parse_subtypes [OF IH reg, of "[]" "[]" "(ts @ [plain c], ns @ [None]) # stk"]
      obtain reg1 where 1: "registry_ok reg1"
        "\<forall>more. parse_tokens (concat (map (\<lambda>s. type_tokens full s) subs) @ more)
           (([], []) # (ts @ [plain c], ns @ [None]) # stk, reg)
         = parse_tokens more ((subs, replicate (length subs) None) # (ts @ [plain c], ns @ [None]) # stk, reg1)"
        by auto
      let ?reg = "register_type (cass_parameterized_type False ?t) ?t reg1"
      have "40 \<in> set (cass_parameterized_type False ?t)" using False by (simp add: cass_parameterized_type.simps sep_text)
      then have "registry_ok ?reg" by (rule registry_ok_register [OF 1(1)])
      moreover have "parse_token [41] ((subs, replicate (length subs) None) # (ts @ [plain c], ns @ [None]) # stk, reg1)
          = Inr ((ts @ [?t], ns @ [None]) # stk, ?reg)"
        using c(2) ar by (simp add: apply_parameters_def names Let_def)
      ultimately show ?thesis
        using False 1(2) name c(3) by (intro exI [of _ ?reg]) (simp add: type_tokens.simps del: parse_token.simps, simp)
    qed
  qed
qed

lemma lookup_printed:
  assumes "printable t" "registry_ok reg"
  shows "\<exists>reg'. lookup_casstype (cass_parameterized_type full t) reg = Inr (t, reg')"
proof -
  from scan_printed [OF assms(1), of full]
  have s: "scan (cass_parameterized_type full t) = (type_tokens full t, [])"
    unfolding scans_def by (metis append_Nil2 fst_conv scan.simps(1) snd_conv)
  from parse_printed [OF assms(1), of full] assms(2)
  obtain reg' where "\<forall>more. parse_tokens (type_tokens full t @ more) ([([], [])], reg)
      = parse_tokens more ([([t], [None])], reg')"
    unfolding parses_def by (metis append_Nil)
  then have "parse_tokens (type_tokens full t) ([([], [])], reg) = Inr ([([t], [None])], reg')"
    by (metis append_Nil2 parse_tokens.simps(1))
  with s show ?thesis by (simp add: lookup_casstype_def parse_casstype_args_def)
qed

lemma be_bytes_eval:
  "be_bytes 1 n = [word_of_int n]" "be_bytes 2 n = [word_of_int (n div 256), word_of_int n]"
  "be_bytes 4 n = [word_of_int (n div 256 div 256 div 256), word_of_int (n div 256 div 256), word_of_int (n div 256), word_of_int n]"
  by (simp_all add: eval_nat_numeral)

lemmas serialize_eval =
  serialize.simps parameterized_def to_binary_def to_bin_def collection_serialize_def
  map_serialize_def pair_serialize_def sized_bytes_def len_pack_def int32_pack_def uint16_pack_def
  int8_pack_def pack_signed_def pack_unsigned_def be_bytes_eval

lemma items_loop_two: "items_loop dec v byts 2 p = items_loop dec v byts (Suc (Suc 0)) p"
  by (simp only: numeral_2_eq_2)

lemmas deserialize_eval =
  deserialize.simps parameterized_def empty_binary_ok_def from_binary_def from_bin_def
  collection_deserialize_def py_slice_def slice_bound_def len_unpack_def len_size_def
  int32_unpack_def uint16_unpack_def int8_unpack_def unpack_signed_def unpack_unsigned_def be_sint_def be_uint_def
  Let_def

definition list_of :: "ctype \<Rightarrow> ctype" where
  "list_of t = CType ListType [t] None None"

definition map_of_types :: "ctype \<Rightarrow> ctype \<Rightarrow> ctype" where
  "map_of_types k t = CType MapType [k, t] None None"


definition example_type :: ctype where
  "example_type = map_of_types (plain UTF8Type) (list_of (plain Int32Type))"

definition example_value :: pyval where
  "example_value = PMap [(PText [97], PList [PInt 1, PInt (- 1)]), (PText [], PList [])]"




text \<open>
  C18: the name printed for a type is parsed back to that type by \<open>lookup_casstype\<close>, with or
  without the full class names.
\<close>

theorem type_name_roundtrip:
  assumes "printable t"
  shows "\<exists>reg. lookup_casstype (cass_parameterized_type full t) builtin_types = Inr (t, reg)"
  by (rule lookup_printed [OF assms builtin_registry_ok])

definition example_parsed_type :: ctype where
  "example_parsed_type =
     CType MapType [plain UTF8Type, CType FrozenType [CType TupleType [plain Int32Type, plain LongType]
       (Some [None, None]) None] (Some [None]) None] (Some [None, None]) None"

theorem type_name_roundtrip_witness:
  "\<exists>reg. lookup_casstype (cass_parameterized_type False example_parsed_type) builtin_types = Inr (example_parsed_type, reg)
     \<and> cass_parameterized_type False example_parsed_type
         = text_of ''MapType(UTF8Type, FrozenType(TupleType(Int32Type, LongType)))''"
proof -
  have p: "printable example_parsed_type"
    by (simp add: example_parsed_type_def printable.simps builtin_classes_def)
  have "cass_parameterized_type False example_parsed_type
      = text_of ''MapType(UTF8Type, FrozenType(TupleType(Int32Type, LongType)))''"
    by (simp add: example_parsed_type_def cass_parameterized_type.simps cass_class_name_def text_of_def)
  with type_name_roundtrip [OF p, of False] show ?thesis by simp
qed

text \<open>
  A null element of a list, which the server marks with the length -1, moves the read
  position back by one byte, so that the elements after it are read from the wrong place: of a
  null and 7 two nulls are read.
\<close>

theorem list_null_misread:
  "from_binary (list_of (plain Int32Type)) 4
     (Some ([0, 0, 0, 2] @ [255, 255, 255, 255] @ [0, 0, 0, 4, 0, 0, 0, 7])) = Inr (PList [PNone, PNone])"
  by (simp add: list_of_def deserialize_eval items_loop_two)

text \<open>
  Creating a user type named like its keyspace, \<open>ks\<close> here, makes the name of the keyspace
  resolve to that user type. When the type string is parsed again, the keyspace read from it is
  \<open>UserType(...)\<close> instead of \<open>ks\<close>.
\<close>

theorem udt_name_shadows_keyspace:
  "\<exists>t reg1. make_udt_class (text_of ''ks'') (text_of ''ks'') [f] [s] builtin_types = (Inr t, reg1)
     \<and> udt t = Some (text_of ''ks'', text_of ''ks'')
     \<and> lookup_casstype_simple (text_of ''ks'') reg1 = (t, reg1)
     \<and> cass_parameterized_type False t = text_of ''UserType('' @ cass_parameterized_type False s @ text_of '')''"
  by (simp add: Let_def make_udt_class_def register_type_def text_of_def builtin_types_def lookup_casstype_simple_def trim_prefix_def
      cass_prefix_def update_conv' cass_parameterized_type.simps cass_class_name_def)

end
