(* ===== verification/Wire.thy ===== *)
theory Wire
  imports Marshal Utf8
begin

text \<open>
  The notations of the native protocol that \<open>cassandra/protocol.py\<close> writes and reads: integers,
  strings, lists and maps of strings, values, addresses. A writer returns the bytes it adds to
  the buffer or the exception; a reader consumes a prefix of the buffer. The address of a node
  is its packed form: \<open>inet_ntop\<close> and \<open>inet_pton\<close> translate it from and to text.
\<close>

section \<open>The interface of a writer and a reader\<close>

text \<open>\<open>view x\<close> is what a reader gets from what was written for \<open>x\<close>.\<close>

locale wire =
  fixes wr :: "'a \<Rightarrow> bytes res"
    and rd :: "'b reader"
    and view :: "'a \<Rightarrow> 'b"
  assumes rd_wr: "wr x = Inr bs \<Longrightarrow> rd (bs @ rest) = Inr (view x, rest)"
begin

lemma read: "wr x = Inr bs \<Longrightarrow> rd_bind rd k (bs @ rest) = k (view x) rest"
  by (simp add: rd_bind_def rd_wr)

lemma times: "wr_seq (map wr xs) = Inr bs \<Longrightarrow> rd_times (length xs) rd (bs @ rest) = Inr (map view xs, rest)"
proof (induction xs arbitrary: bs)
  case (Cons x xs)
  then obtain b bs' where b: "wr x = Inr b" "wr_seq (map wr xs) = Inr bs'" "bs = b @ bs'"
    by (auto simp: res_bind_Inr_iff)
  from Cons.IH [OF b(2)] show ?case by (simp add: b(3) rd_wr [OF b(1)] rd_bind_def)
qed simp

lemma unambiguous:
  assumes "wr x = Inr bs" "wr y = Inr cs" "bs @ rest = cs @ rest'"
  shows "view x = view y \<and> rest = rest'"
  using rd_wr [OF assms(1), of rest] rd_wr [OF assms(2), of rest'] assms(3) by simp

end

section \<open>Integers\<close>

definition read_byte :: "int reader" where
  "read_byte = rd_bind (rd_read 1) (\<lambda>s. rd_lift (int8_unpack s))"

definition write_byte :: "int \<Rightarrow> bytes res" where
  "write_byte b = int8_pack b"

definition read_int :: "int reader" where
  "read_int = rd_bind (rd_read 4) (\<lambda>s. rd_lift (int32_unpack s))"

definition write_int :: "int \<Rightarrow> bytes res" where
  "write_int i = int32_pack i"

definition write_uint :: "int \<Rightarrow> bytes res" where
  "write_uint i = uint32_pack i"

definition write_long :: "int \<Rightarrow> bytes res" where
  "write_long i = uint64_pack i"

definition read_short :: "int reader" where
  "read_short = rd_bind (rd_read 2) (\<lambda>s. rd_lift (uint16_unpack s))"

definition write_short :: "int \<Rightarrow> bytes res" where
  "write_short s = uint16_pack s"

definition read_consistency_level :: "int reader" where
  "read_consistency_level = read_short"

definition write_consistency_level :: "int \<Rightarrow> bytes res" where
  "write_consistency_level cl = write_short cl"

section \<open>Strings\<close>

text \<open>A Python argument that may be text or bytes; text is encoded as UTF-8.\<close>

datatype py_str = PyText ptext | PyBytes bytes

fun encoded :: "py_str \<Rightarrow> bytes res" where
  "encoded (PyText s) = utf8_encode s"
| "encoded (PyBytes bs) = Inr bs"

definition read_binary_string :: "bytes reader" where
  "read_binary_string = rd_bind read_short rd_read"

definition read_string :: "ptext reader" where
  "read_string = rd_bind read_binary_string (\<lambda>contents. rd_lift (utf8_decode contents))"

definition write_string :: "py_str \<Rightarrow> bytes res" where
  "write_string s = res_bind (encoded s) (\<lambda>bs. wr_seq [write_short (int (length bs)), Inr bs])"

definition read_binary_longstring :: "bytes reader" where
  "read_binary_longstring = rd_bind read_int rd_read"

definition read_longstring :: "ptext reader" where
  "read_longstring = rd_bind read_binary_longstring (\<lambda>contents. rd_lift (utf8_decode contents))"

definition write_longstring :: "py_str \<Rightarrow> bytes res" where
  "write_longstring s = res_bind (encoded s) (\<lambda>bs. wr_seq [write_int (int (length bs)), Inr bs])"

definition read_stringlist :: "ptext list reader" where
  "read_stringlist = rd_bind read_short (\<lambda>n. rd_times (nat n) read_string)"

definition write_stringlist :: "py_str list \<Rightarrow> bytes res" where
  "write_stringlist xs = wr_seq (write_short (int (length xs)) # map write_string xs)"

section \<open>Values\<close>

text \<open>A parameter: \<open>None\<close>, the marker \<open>_UNSET_VALUE\<close>, or the bytes of a value.\<close>

datatype wire_value = NullValue | UnsetValue | Value bytes

definition read_value :: "bytes option reader" where
  "read_value = rd_bind read_int
     (\<lambda>size. if size < 0 then rd_return None else rd_bind (rd_read size) (\<lambda>bs. rd_return (Some bs)))"

fun write_value :: "wire_value \<Rightarrow> bytes res" where
  "write_value NullValue = write_int (- 1)"
| "write_value UnsetValue = write_int (- 2)"
| "write_value (Value bs) = wr_seq [write_int (int (length bs)), Inr bs]"

section \<open>Maps\<close>

text \<open>Storing the pairs read one after the other in a dictionary.\<close>

definition dict_of :: "('k \<times> 'v) list \<Rightarrow> ('k \<times> 'v) list" where
  "dict_of kvs = fold (\<lambda>(k, v). AList.update k v) kvs []"

definition read_pair :: "'k reader \<Rightarrow> 'v reader \<Rightarrow> ('k \<times> 'v) reader" where
  "read_pair rk rv = rd_bind rk (\<lambda>k. rd_bind rv (\<lambda>v. rd_return (k, v)))"

definition write_pair :: "('k \<Rightarrow> bytes res) \<Rightarrow> ('v \<Rightarrow> bytes res) \<Rightarrow> 'k \<times> 'v \<Rightarrow> bytes res" where
  "write_pair wk wv = (\<lambda>(k, v). wr_seq [wk k, wv v])"

definition read_stringmap :: "(ptext \<times> ptext) list reader" where
  "read_stringmap = rd_bind read_short (\<lambda>n.
     rd_bind (rd_times (nat n) (read_pair read_string read_string)) (\<lambda>kvs. rd_return (dict_of kvs)))"

definition write_stringmap :: "(py_str \<times> py_str) list \<Rightarrow> bytes res" where
  "write_stringmap m = wr_seq (write_short (int (length m)) # map (write_pair write_string write_string) m)"

definition read_bytesmap :: "(ptext \<times> bytes option) list reader" where
  "read_bytesmap = rd_bind read_short (\<lambda>n.
     rd_bind (rd_times (nat n) (read_pair read_string read_value)) (\<lambda>kvs. rd_return (dict_of kvs)))"

definition write_bytesmap :: "(py_str \<times> wire_value) list \<Rightarrow> bytes res" where
  "write_bytesmap m = wr_seq (write_short (int (length m)) # map (write_pair write_string write_value) m)"

definition read_stringmultimap :: "(ptext \<times> ptext list) list reader" where
  "read_stringmultimap = rd_bind read_short (\<lambda>n.
     rd_bind (rd_times (nat n) (read_pair read_string read_stringlist)) (\<lambda>kvs. rd_return (dict_of kvs)))"

definition write_stringmultimap :: "(py_str \<times> py_str list) list \<Rightarrow> bytes res" where
  "write_stringmultimap m =
     wr_seq (write_short (int (length m)) # map (write_pair write_string write_stringlist) m)"

section \<open>Addresses\<close>

definition read_inet_addr_only :: "bytes reader" where
  "read_inet_addr_only = rd_bind read_byte (\<lambda>size. rd_bind (rd_read size) (\<lambda>addrbytes.
     if size = 4 \<or> size = 16
     then (if int (length addrbytes) = size then rd_return addrbytes else rd_fail ValueError)
     else rd_fail InternalError))"

definition read_inet :: "(bytes \<times> int) reader" where
  "read_inet = read_pair read_inet_addr_only read_int"

definition write_inet :: "bytes \<times> int \<Rightarrow> bytes res" where
  "write_inet = (\<lambda>(addrbytes, port).
     if length addrbytes = 4 \<or> length addrbytes = 16
     then wr_seq [write_byte (int (length addrbytes)), Inr addrbytes, write_int port]
     else Inl OSError)"

definition read_error_code_map :: "(bytes \<times> int) list reader" where
  "read_error_code_map = rd_bind read_int (\<lambda>n.
     rd_bind (rd_times (nat n) (read_pair read_inet_addr_only read_short)) (\<lambda>kvs. rd_return (dict_of kvs)))"

section \<open>Every reader reads what the writer wrote\<close>

interpretation byte: wire write_byte read_byte "\<lambda>n. n"
  using i8.read_pack by unfold_locales (auto simp: write_byte_def read_byte_def)

interpretation int: wire write_int read_int "\<lambda>n. n"
  using i32.read_pack by unfold_locales (auto simp: write_int_def read_int_def)

interpretation short: wire write_short read_short "\<lambda>n. n"
  using u16.read_pack by unfold_locales (auto simp: write_short_def read_short_def)

interpretation cl: wire write_consistency_level read_consistency_level "\<lambda>n. n"
  using short.rd_wr by unfold_locales (auto simp: write_consistency_level_def read_consistency_level_def)

interpretation binary_string: wire write_string read_binary_string "\<lambda>s. projr (encoded s)"
proof
  fix s bs rest
  assume "write_string s = Inr bs"
  then obtain c hd where "encoded s = Inr c" "write_short (int (length c)) = Inr hd" "bs = hd @ c"
    by (auto simp: write_string_def res_bind_Inr_iff)
  then show "read_binary_string (bs @ rest) = Inr (projr (encoded s), rest)"
    by (simp add: read_binary_string_def short.read rd_read_append)
qed

interpretation binary_longstring: wire write_longstring read_binary_longstring "\<lambda>s. projr (encoded s)"
proof
  fix s bs rest
  assume "write_longstring s = Inr bs"
  then obtain c hd where "encoded s = Inr c" "write_int (int (length c)) = Inr hd" "bs = hd @ c"
    by (auto simp: write_longstring_def res_bind_Inr_iff)
  then show "read_binary_longstring (bs @ rest) = Inr (projr (encoded s), rest)"
    by (simp add: read_binary_longstring_def int.read rd_read_append)
qed

interpretation string: wire "\<lambda>s. write_string (PyText s)" read_string "\<lambda>s. s"
proof
  fix s bs rest
  assume *: "write_string (PyText s) = Inr bs"
  then obtain c where "utf8_encode s = Inr c" by (auto simp: write_string_def res_bind_Inr_iff)
  with binary_string.rd_wr [OF *] show "read_string (bs @ rest) = Inr (s, rest)"
    by (simp add: read_string_def rd_bind_def utf8.unpack_pack)
qed

interpretation longstring: wire "\<lambda>s. write_longstring (PyText s)" read_longstring "\<lambda>s. s"
proof
  fix s bs rest
  assume *: "write_longstring (PyText s) = Inr bs"
  then obtain c where "utf8_encode s = Inr c" by (auto simp: write_longstring_def res_bind_Inr_iff)
  with binary_longstring.rd_wr [OF *] show "read_longstring (bs @ rest) = Inr (s, rest)"
    by (simp add: read_longstring_def rd_bind_def utf8.unpack_pack)
qed

fun value_view :: "wire_value \<Rightarrow> bytes option" where
  "value_view (Value bs) = Some bs"
| "value_view _ = None"

interpretation val: wire write_value read_value value_view
proof
  fix v bs rest
  assume "write_value v = Inr bs"
  then show "read_value (bs @ rest) = Inr (value_view v, rest)"
    by (cases v) (auto simp: read_value_def int.read res_bind_Inr_iff rd_read_append rd_bind_Inr)
qed

section \<open>Counted lists and maps\<close>

text \<open>A writer and a reader for the items give those for a list with its length in front.\<close>

context wire
begin

lemma pair:
  assumes "wire wv rv vv" "write_pair wr wv kv = Inr bs"
  shows "read_pair rd rv (bs @ rest) = Inr ((view (fst kv), vv (snd kv)), rest)"
proof -
  obtain k v where kv: "kv = (k, v)" by force
  with assms(2) obtain b c where "wr k = Inr b" "wv v = Inr c" "bs = b @ c"
    by (auto simp: write_pair_def res_bind_Inr_iff)
  then show ?thesis by (simp add: kv read_pair_def read wire.read [OF assms(1)])
qed

lemma counted:
  assumes "wr_seq (write_short (int (length xs)) # map wr xs) = Inr bs"
  shows "rd_bind read_short (\<lambda>n. rd_times (nat n) rd) (bs @ rest) = Inr (map view xs, rest)"
proof -
  from assms obtain hd body where "write_short (int (length xs)) = Inr hd" "wr_seq (map wr xs) = Inr body" "bs = hd @ body"
    by (auto simp: res_bind_Inr_iff)
  then show ?thesis by (simp add: short.read times)
qed

end

interpretation stringlist: wire "\<lambda>xs. write_stringlist (map PyText xs)" read_stringlist "\<lambda>xs. xs"
proof
  fix xs bs rest
  assume "write_stringlist (map PyText xs) = Inr bs"
  then have "wr_seq (write_short (int (length xs)) # map (\<lambda>s. write_string (PyText s)) xs) = Inr bs"
    by (simp add: write_stringlist_def comp_def)
  from string.counted [OF this] show "read_stringlist (bs @ rest) = Inr (xs, rest)"
    by (simp add: read_stringlist_def)
qed

text \<open>A map written from a dictionary, whose keys are distinct, reads back as it was.\<close>

lemma dict_of_distinct_aux:
  assumes "distinct (map fst (acc @ kvs))"
  shows "fold (\<lambda>(k, v). AList.update k v) kvs acc = acc @ kvs"
  using assms
proof (induction kvs arbitrary: acc)
  case (Cons kv kvs)
  then have "AList.update (fst kv) (snd kv) acc = acc @ [kv]"
    by (induction acc) auto
  with Cons show ?case by (simp add: case_prod_beta)
qed simp

lemma dict_of_distinct: "distinct (map fst kvs) \<Longrightarrow> dict_of kvs = kvs"
  using dict_of_distinct_aux [of "[]" kvs] by (simp add: dict_of_def)

lemma distinct_dict_of: "distinct (map fst (dict_of kvs))"
proof -
  have "distinct (map fst (fold (\<lambda>(k, v). AList.update k v) kvs acc))" if "distinct (map fst acc)" for acc
    using that by (induction kvs arbitrary: acc) (auto intro: distinct_update)
  from this [of "[]"] show ?thesis by (simp add: dict_of_def)
qed

context wire
begin

text \<open>What \<open>read_stringmap\<close>, \<open>read_bytesmap\<close> and \<open>read_stringmultimap\<close> share.\<close>

lemma counted_map:
  assumes "wire wv rv vv"
    and "wr_seq (write_short (int (length m)) # map (write_pair wr wv) m) = Inr bs"
  shows "rd_bind read_short (\<lambda>n. rd_bind (rd_times (nat n) (read_pair rd rv)) (\<lambda>kvs. rd_return (dict_of kvs))) (bs @ rest)
       = Inr (dict_of (map (\<lambda>(k, v). (view k, vv v)) m), rest)"
proof -
  from assms(2) obtain h body where *: "write_short (int (length m)) = Inr h"
      "wr_seq (map (write_pair wr wv) m) = Inr body" "bs = h @ body"
    by (auto simp: res_bind_Inr_iff)
  have w: "wire (write_pair wr wv) (read_pair rd rv) (\<lambda>kv. (view (fst kv), vv (snd kv)))"
    by unfold_locales (rule pair [OF assms(1)])
  from wire.times [OF w *(2), of rest] show ?thesis
    by (simp add: *(3) short.read [OF *(1)] rd_bind_Inr split_def)
qed

end

interpretation stringmap: wire "\<lambda>m. write_stringmap (map (\<lambda>(k, v). (PyText k, PyText v)) m)" read_stringmap dict_of
proof
  fix m bs rest
  assume "write_stringmap (map (\<lambda>(k, v). (PyText k, PyText v)) m) = Inr bs"
  then have "wr_seq (write_short (int (length m))
      # map (write_pair (\<lambda>s. write_string (PyText s)) (\<lambda>s. write_string (PyText s))) m) = Inr bs"
    by (simp add: write_stringmap_def comp_def write_pair_def split_def)
  from string.counted_map [OF string.wire_axioms this]
  show "read_stringmap (bs @ rest) = Inr (dict_of m, rest)" by (simp add: read_stringmap_def)
qed

interpretation bytesmap: wire "\<lambda>m. write_bytesmap (map (\<lambda>(k, v). (PyText k, v)) m)" read_bytesmap
  "\<lambda>m. dict_of (map (\<lambda>(k, v). (k, value_view v)) m)"
proof
  fix m :: "(ptext \<times> wire_value) list" and bs rest
  assume "write_bytesmap (map (\<lambda>(k, v). (PyText k, v)) m) = Inr bs"
  then have "wr_seq (write_short (int (length m))
      # map (write_pair (\<lambda>s. write_string (PyText s)) write_value) m) = Inr bs"
    by (simp add: write_bytesmap_def comp_def write_pair_def split_def)
  from string.counted_map [OF val.wire_axioms this]
  show "read_bytesmap (bs @ rest) = Inr (dict_of (map (\<lambda>(k, v). (k, value_view v)) m), rest)"
    by (simp add: read_bytesmap_def)
qed

interpretation stringmultimap: wire "\<lambda>m. write_stringmultimap (map (\<lambda>(k, v). (PyText k, map PyText v)) m)"
  read_stringmultimap dict_of
proof
  fix m :: "(ptext \<times> ptext list) list" and bs rest
  assume "write_stringmultimap (map (\<lambda>(k, v). (PyText k, map PyText v)) m) = Inr bs"
  then have "wr_seq (write_short (int (length m))
      # map (write_pair (\<lambda>s. write_string (PyText s)) (\<lambda>xs. write_stringlist (map PyText xs))) m) = Inr bs"
    by (simp add: write_stringmultimap_def comp_def write_pair_def split_def)
  from string.counted_map [OF stringlist.wire_axioms this]
  show "read_stringmultimap (bs @ rest) = Inr (dict_of m, rest)" by (simp add: read_stringmultimap_def)
qed

interpretation inet: wire write_inet read_inet "\<lambda>a. a"
proof
  fix a bs rest
  assume "write_inet a = Inr bs"
  then obtain b p where "write_byte (int (length (fst a))) = Inr b" "write_int (snd a) = Inr p"
      "bs = b @ fst a @ p" "length (fst a) = 4 \<or> length (fst a) = 16"
    by (auto simp: write_inet_def case_prod_beta res_bind_Inr_iff split: if_splits)
  then show "read_inet (bs @ rest) = Inr (a, rest)"
    by (auto simp: read_inet_def read_pair_def read_inet_addr_only_def rd_bind_def rd_read_append byte.rd_wr
        int.rd_wr)
qed

end
