(* ===== verification/Requests.thy ===== *)
theory Requests
  imports Wire
begin

text \<open>
  The requests of \<open>cassandra/protocol.py\<close>: one record per message class and its
  \<open>send_body\<close>, which gives the bytes of the body or the exception. The second half states what
  a server reads from them: parsers written after the native protocol specification, and the
  proof that they recover each request from the bytes the driver sends.
\<close>

section \<open>Protocol versions\<close>

definition SUPPORTED_VERSIONS :: "int list" where
  "SUPPORTED_VERSIONS = [5, 4, 3, 2, 1]"

definition BETA_VERSIONS :: "int list" where
  "BETA_VERSIONS = [5]"

definition get_lower_supported :: "int \<Rightarrow> int" where
  "get_lower_supported previous_version =
     (case [v \<leftarrow> rev (sort SUPPORTED_VERSIONS). v \<notin> set BETA_VERSIONS \<and> v < previous_version] of
        v # _ \<Rightarrow> v
      | [] \<Rightarrow> 0)"

definition uses_int_query_flags :: "int \<Rightarrow> bool" where
  "uses_int_query_flags version \<longleftrightarrow> version \<ge> 5"

definition uses_prepare_flags :: "int \<Rightarrow> bool" where
  "uses_prepare_flags version \<longleftrightarrow> version \<ge> 5"

definition uses_prepared_metadata :: "int \<Rightarrow> bool" where
  "uses_prepared_metadata version \<longleftrightarrow> version \<ge> 5"

definition uses_error_code_map :: "int \<Rightarrow> bool" where
  "uses_error_code_map version \<longleftrightarrow> version \<ge> 5"

definition uses_keyspace_flag :: "int \<Rightarrow> bool" where
  "uses_keyspace_flag version \<longleftrightarrow> version \<ge> 5"

lemmas version_defs = uses_int_query_flags_def uses_prepare_flags_def uses_prepared_metadata_def
  uses_error_code_map_def uses_keyspace_flag_def

section \<open>Flags and optional parts\<close>

definition VALUES_FLAG :: int where "VALUES_FLAG = 0x01"
definition SKIP_METADATA_FLAG :: int where "SKIP_METADATA_FLAG = 0x02"
definition PAGE_SIZE_FLAG :: int where "PAGE_SIZE_FLAG = 0x04"
definition WITH_PAGING_STATE_FLAG :: int where "WITH_PAGING_STATE_FLAG = 0x08"
definition WITH_SERIAL_CONSISTENCY_FLAG :: int where "WITH_SERIAL_CONSISTENCY_FLAG = 0x10"
definition PROTOCOL_TIMESTAMP :: int where "PROTOCOL_TIMESTAMP = 0x20"
definition WITH_KEYSPACE_FLAG :: int where "WITH_KEYSPACE_FLAG = 0x80"
definition PREPARED_WITH_KEYSPACE_FLAG :: int where "PREPARED_WITH_KEYSPACE_FLAG = 0x01"

lemmas flag_defs = VALUES_FLAG_def SKIP_METADATA_FLAG_def PAGE_SIZE_FLAG_def WITH_PAGING_STATE_FLAG_def
  WITH_SERIAL_CONSISTENCY_FLAG_def PROTOCOL_TIMESTAMP_def WITH_KEYSPACE_FLAG_def
  PREPARED_WITH_KEYSPACE_FLAG_def

text \<open>The truth value of an optional number and of an optional string: zero and the empty string are false.\<close>

definition truthy_int :: "int option \<Rightarrow> bool" where
  "truthy_int x \<longleftrightarrow> x \<noteq> None \<and> x \<noteq> Some 0"

definition truthy_bytes :: "bytes option \<Rightarrow> bool" where
  "truthy_bytes x \<longleftrightarrow> x \<noteq> None \<and> x \<noteq> Some []"

definition truthy_str :: "py_str option \<Rightarrow> bool" where
  "truthy_str x \<longleftrightarrow> x \<noteq> None \<and> x \<noteq> Some (PyText []) \<and> x \<noteq> Some (PyBytes [])"

text \<open>
  \<open>if present: if supported: flags |= m else: raise UnsupportedOperation\<close>, and a part that
  is written when it is present.
\<close>

definition add_flag :: "bool \<Rightarrow> bool \<Rightarrow> int \<Rightarrow> int \<Rightarrow> int res" where
  "add_flag present supported m flags =
     (if present then if supported then Inr (flags OR m) else Inl UnsupportedOperation else Inr flags)"

definition write_if :: "bool \<Rightarrow> ('a \<Rightarrow> bytes res) \<Rightarrow> 'a option \<Rightarrow> bytes res" where
  "write_if present w x = (if present then (case x of Some y \<Rightarrow> w y | None \<Rightarrow> Inr []) else Inr [])"

definition write_query_flags :: "int \<Rightarrow> int \<Rightarrow> bytes res" where
  "write_query_flags v flags = (if uses_int_query_flags v then write_uint flags else write_byte flags)"

definition write_params :: "wire_value list \<Rightarrow> bytes res" where
  "write_params params = wr_seq (write_short (int (length params)) # map write_value params)"

section \<open>The messages\<close>

record QueryMessage =
  qm_query :: py_str
  qm_consistency_level :: int
  qm_serial_consistency_level :: "int option"
  qm_fetch_size :: "int option"
  qm_paging_state :: "bytes option"
  qm_timestamp :: "int option"
  qm_keyspace :: "py_str option"
  qm_query_params :: "wire_value list option"

definition query_flags :: "int \<Rightarrow> QueryMessage \<Rightarrow> int res" where
  "query_flags v m =
     res_bind (add_flag (qm_query_params m \<noteq> None) True VALUES_FLAG 0) (\<lambda>flags.
     res_bind (add_flag (truthy_int (qm_serial_consistency_level m)) (v \<ge> 2) WITH_SERIAL_CONSISTENCY_FLAG flags) (\<lambda>flags.
     res_bind (add_flag (truthy_int (qm_fetch_size m)) (v \<ge> 2) PAGE_SIZE_FLAG flags) (\<lambda>flags.
     res_bind (add_flag (truthy_bytes (qm_paging_state m)) (v \<ge> 2) WITH_PAGING_STATE_FLAG flags) (\<lambda>flags.
     res_bind (add_flag (qm_timestamp m \<noteq> None) True PROTOCOL_TIMESTAMP flags) (\<lambda>flags.
     add_flag (qm_keyspace m \<noteq> None) (uses_keyspace_flag v) WITH_KEYSPACE_FLAG flags)))))"

definition query_send_body :: "int \<Rightarrow> QueryMessage \<Rightarrow> bytes res" where
  "query_send_body v m = wr_seq
     [write_longstring (qm_query m),
      write_consistency_level (qm_consistency_level m),
      res_bind (query_flags v m) (write_query_flags v),
      write_if (qm_query_params m \<noteq> None) write_params (qm_query_params m),
      write_if (truthy_int (qm_fetch_size m)) write_int (qm_fetch_size m),
      write_if (truthy_bytes (qm_paging_state m)) (\<lambda>bs. write_longstring (PyBytes bs)) (qm_paging_state m),
      write_if (truthy_int (qm_serial_consistency_level m)) write_consistency_level (qm_serial_consistency_level m),
      write_if (qm_timestamp m \<noteq> None) write_long (qm_timestamp m),
      write_if (qm_keyspace m \<noteq> None) write_string (qm_keyspace m)]"

record PrepareMessage =
  pm_query :: py_str
  pm_keyspace :: "py_str option"

definition prepare_send_body :: "int \<Rightarrow> PrepareMessage \<Rightarrow> bytes res" where
  "prepare_send_body v m = wr_seq
     [write_longstring (pm_query m),
      res_bind (add_flag (pm_keyspace m \<noteq> None) (uses_keyspace_flag v) PREPARED_WITH_KEYSPACE_FLAG 0) (\<lambda>flags.
        if uses_prepare_flags v then write_uint flags
        else if flags \<noteq> 0 then Inl UnsupportedOperation
        else Inr []),
      write_if (uses_keyspace_flag v \<and> truthy_str (pm_keyspace m)) write_string (pm_keyspace m)]"

record ExecuteMessage =
  em_query_id :: py_str
  em_query_params :: "wire_value list"
  em_consistency_level :: int
  em_serial_consistency_level :: "int option"
  em_fetch_size :: "int option"
  em_paging_state :: "bytes option"
  em_timestamp :: "int option"
  em_skip_meta :: bool
  em_result_metadata_id :: "py_str option"

definition execute_flags :: "int \<Rightarrow> ExecuteMessage \<Rightarrow> int res" where
  "execute_flags v m =
     res_bind (add_flag (truthy_int (em_serial_consistency_level m)) True WITH_SERIAL_CONSISTENCY_FLAG VALUES_FLAG) (\<lambda>flags.
     res_bind (add_flag (truthy_int (em_fetch_size m)) True PAGE_SIZE_FLAG flags) (\<lambda>flags.
     res_bind (add_flag (truthy_bytes (em_paging_state m)) True WITH_PAGING_STATE_FLAG flags) (\<lambda>flags.
     res_bind (add_flag (em_timestamp m \<noteq> None) (v \<ge> 3) PROTOCOL_TIMESTAMP flags) (\<lambda>flags.
     add_flag (em_skip_meta m) True SKIP_METADATA_FLAG flags))))"

definition execute_send_body :: "int \<Rightarrow> ExecuteMessage \<Rightarrow> bytes res" where
  "execute_send_body v m = wr_seq
     ([write_string (em_query_id m),
       if uses_prepared_metadata v
       then (case em_result_metadata_id m of Some s \<Rightarrow> write_string s | None \<Rightarrow> Inl TypeError)
       else Inr []] @
      (if v = 1
       then
         [if truthy_int (em_serial_consistency_level m) then Inl UnsupportedOperation
          else if truthy_int (em_fetch_size m) \<or> truthy_bytes (em_paging_state m) then Inl UnsupportedOperation
          else Inr [],
          write_params (em_query_params m),
          write_consistency_level (em_consistency_level m)]
       else
         [write_consistency_level (em_consistency_level m),
          res_bind (execute_flags v m) (write_query_flags v),
          write_params (em_query_params m),
          write_if (truthy_int (em_fetch_size m)) write_int (em_fetch_size m),
          write_if (truthy_bytes (em_paging_state m)) (\<lambda>bs. write_longstring (PyBytes bs)) (em_paging_state m),
          write_if (truthy_int (em_serial_consistency_level m)) write_consistency_level (em_serial_consistency_level m),
          write_if (em_timestamp m \<noteq> None) write_long (em_timestamp m)]))"

record BatchMessage =
  bm_batch_type :: int
  bm_queries :: "(bool \<times> py_str \<times> wire_value list) list"
  bm_consistency_level :: int
  bm_serial_consistency_level :: "int option"
  bm_timestamp :: "int option"
  bm_keyspace :: "py_str option"

text \<open>A query identifier is written as it is: only bytes can be written to the buffer.\<close>

fun write_query_id :: "py_str \<Rightarrow> bytes res" where
  "write_query_id (PyBytes bs) = wr_seq [write_short (int (length bs)), Inr bs]"
| "write_query_id (PyText s) = wr_seq [write_short (int (length s)), Inl TypeError]"

definition write_batch_query :: "bool \<times> py_str \<times> wire_value list \<Rightarrow> bytes res" where
  "write_batch_query = (\<lambda>(prepared, string_or_query_id, params). wr_seq
     [if \<not> prepared then wr_seq [write_byte 0, write_longstring string_or_query_id]
      else wr_seq [write_byte 1, write_query_id string_or_query_id],
      write_params params])"

definition batch_flags :: "int \<Rightarrow> BatchMessage \<Rightarrow> int res" where
  "batch_flags v m =
     res_bind (add_flag (truthy_int (bm_serial_consistency_level m)) True WITH_SERIAL_CONSISTENCY_FLAG 0) (\<lambda>flags.
     res_bind (add_flag (bm_timestamp m \<noteq> None) True PROTOCOL_TIMESTAMP flags) (\<lambda>flags.
     add_flag (truthy_str (bm_keyspace m)) (uses_keyspace_flag v) WITH_KEYSPACE_FLAG flags))"

definition batch_send_body :: "int \<Rightarrow> BatchMessage \<Rightarrow> bytes res" where
  "batch_send_body v m = wr_seq
     ([write_byte (bm_batch_type m),
       write_short (int (length (bm_queries m))),
       wr_seq (map write_batch_query (bm_queries m)),
       write_consistency_level (bm_consistency_level m)] @
      (if v \<ge> 3
       then
         [res_bind (batch_flags v m) (if uses_int_query_flags v then write_int else write_byte),
          write_if (truthy_int (bm_serial_consistency_level m)) write_consistency_level (bm_serial_consistency_level m),
          write_if (bm_timestamp m \<noteq> None) write_long (bm_timestamp m),
          write_if (uses_keyspace_flag v \<and> bm_keyspace m \<noteq> None) write_string (bm_keyspace m)]
       else []))"

definition startup_send_body :: "py_str \<Rightarrow> (py_str \<times> py_str) list \<Rightarrow> bytes res" where
  "startup_send_body cqlversion opts =
     write_stringmap (AList.update (PyText (text_of ''CQL_VERSION'')) cqlversion opts)"

definition credentials_send_body :: "int \<Rightarrow> (py_str \<times> py_str) list \<Rightarrow> bytes res" where
  "credentials_send_body v creds =
     (if v > 1 then Inl UnsupportedOperation
      else wr_seq (write_short (int (length creds)) # map (write_pair write_string write_string) creds))"

datatype request =
    Startup py_str "(py_str \<times> py_str) list"
  | Credentials "(py_str \<times> py_str) list"
  | Options
  | Query QueryMessage
  | Prepare PrepareMessage
  | Execute ExecuteMessage
  | Register "py_str list"
  | Batch BatchMessage
  | AuthResponse py_str

fun request_opcode :: "request \<Rightarrow> int" where
  "request_opcode (Startup _ _) = 0x01"
| "request_opcode (Credentials _) = 0x04"
| "request_opcode Options = 0x05"
| "request_opcode (Query _) = 0x07"
| "request_opcode (Prepare _) = 0x09"
| "request_opcode (Execute _) = 0x0A"
| "request_opcode (Register _) = 0x0B"
| "request_opcode (Batch _) = 0x0D"
| "request_opcode (AuthResponse _) = 0x0F"

fun send_body :: "int \<Rightarrow> request \<Rightarrow> bytes res" where
  "send_body v (Startup cqlversion opts) = startup_send_body cqlversion opts"
| "send_body v (Credentials creds) = credentials_send_body v creds"
| "send_body v Options = Inr []"
| "send_body v (Query m) = query_send_body v m"
| "send_body v (Prepare m) = prepare_send_body v m"
| "send_body v (Execute m) = execute_send_body v m"
| "send_body v (Register event_list) = write_stringlist event_list"
| "send_body v (Batch m) = batch_send_body v m"
| "send_body v (AuthResponse response) = write_longstring response"

section \<open>What the server reads\<close>

text \<open>
  Readers after the native protocol specification: \<open>[int]\<close> flags read without sign,
  \<open>[long]\<close> with sign, \<open>[value]\<close> with the lengths -1 and -2 for null and not set, and a
  part that is there when a flag announces it.
\<close>

definition read_uint :: "int reader" where
  "read_uint = rd_bind (rd_read 4) (\<lambda>s. rd_lift (uint32_unpack s))"

definition read_long :: "int reader" where
  "read_long = rd_bind (rd_read 8) (\<lambda>s. rd_lift (int64_unpack s))"

definition server_value :: "wire_value reader" where
  "server_value = rd_bind read_int (\<lambda>size.
     if size = - 1 then rd_return NullValue
     else if size = - 2 then rd_return UnsetValue
     else if size < 0 then rd_fail ProtocolError
     else rd_bind (rd_read size) (\<lambda>bs. rd_return (Value bs)))"

definition server_list :: "'a reader \<Rightarrow> 'a list reader" where
  "server_list r = rd_bind read_short (\<lambda>n. rd_times (nat n) r)"

definition read_if :: "bool \<Rightarrow> 'a reader \<Rightarrow> 'a option reader" where
  "read_if present r = (if present then rd_bind r (\<lambda>x. rd_return (Some x)) else rd_return None)"

definition server_flags :: "int \<Rightarrow> int reader" where
  "server_flags v = (if v \<ge> 5 then read_uint else read_byte)"

interpretation uint: wire write_uint read_uint "\<lambda>n. n"
  using u32.read_pack by unfold_locales (auto simp: write_uint_def read_uint_def)

text \<open>A timestamp is written without sign, so one of at least \<open>2 ^ 63\<close> is read as negative.\<close>

definition long_view :: "int \<Rightarrow> int" where
  "long_view n = (if n < 2 ^ 63 then n else n - 2 ^ 64)"

lemma int64_unpack_unsigned:
  assumes "uint64_pack n = Inr bs"
  shows "int64_unpack bs = Inr (long_view n)"
proof -
  from assms have n: "0 \<le> n" "n < 256 ^ 8" and bs: "bs = be_bytes 8 n"
    by (auto simp: uint64_pack_def pack_unsigned_def split: if_splits)
  from n have "be_uint bs = n" unfolding bs by (rule be_bytes_uint_inv)
  moreover have "length bs = 8" unfolding bs by simp
  ultimately show ?thesis
    using n by (simp add: int64_unpack_def unpack_signed_def be_sint_def long_view_def)
qed

interpretation long: wire write_long read_long long_view
proof
  fix n bs rest
  assume "write_long n = Inr bs"
  then have "uint64_pack n = Inr bs" by (simp add: write_long_def)
  with u64.pack_width [OF this] int64_unpack_unsigned [OF this]
  show "read_long (bs @ rest) = Inr (long_view n, rest)"
    by (simp add: read_long_def rd_bind_def rd_read_append)
qed

interpretation param: wire write_value server_value "\<lambda>p. p"
proof
  fix p bs rest
  assume "write_value p = Inr bs"
  then show "server_value (bs @ rest) = Inr (p, rest)"
    by (cases p) (auto simp: server_value_def int.read res_bind_Inr_iff rd_read_append rd_bind_Inr)
qed

interpretation params: wire write_params "server_list server_value" "\<lambda>ps. ps"
proof
  fix ps bs rest
  assume "write_params ps = Inr bs"
  from param.counted [OF this [unfolded write_params_def]]
  show "server_list server_value (bs @ rest) = Inr (ps, rest)" by (simp add: server_list_def)
qed

text \<open>An optional part is read back when the flags say whether it was written.\<close>

definition view_if :: "bool \<Rightarrow> ('a \<Rightarrow> 'b) \<Rightarrow> 'a option \<Rightarrow> 'b option" where
  "view_if present view x = (if present then map_option view x else None)"

context wire
begin

lemma read_opt:
  assumes "write_if present wr x = Inr bs" "present \<longrightarrow> x \<noteq> None"
  shows "rd_bind (read_if present rd) k (bs @ rest) = k (view_if present view x) rest"
  using assms rd_wr by (cases x) (auto simp: write_if_def read_if_def view_if_def rd_bind_def)

end

text \<open>The query parameters that QUERY and EXECUTE share, and those that BATCH has of them.\<close>

record server_options =
  so_values :: "wire_value list option"
  so_skip_metadata :: bool
  so_page_size :: "int option"
  so_paging_state :: "bytes option"
  so_serial_consistency :: "int option"
  so_timestamp :: "int option"
  so_keyspace :: "bytes option"

definition server_options :: "int \<Rightarrow> server_options reader" where
  "server_options v =
     rd_bind (server_flags v) (\<lambda>flags.
     rd_bind (read_if (bit flags 0) (server_list server_value)) (\<lambda>vals.
     rd_bind (read_if (bit flags 2) read_int) (\<lambda>page_size.
     rd_bind (read_if (bit flags 3) read_binary_longstring) (\<lambda>paging_state.
     rd_bind (read_if (bit flags 4) read_short) (\<lambda>serial.
     rd_bind (read_if (v \<ge> 3 \<and> bit flags 5) read_long) (\<lambda>timestamp.
     rd_bind (read_if (v \<ge> 5 \<and> bit flags 7) read_binary_string) (\<lambda>keyspace.
     rd_return (server_options.make vals (bit flags 1) page_size paging_state serial timestamp keyspace))))))))"

datatype server_request =
    SStartup "(bytes \<times> bytes) list"
  | SCredentials "(bytes \<times> bytes) list"
  | SOptions
  | SQuery bytes int server_options
  | SPrepare bytes "bytes option"
  | SExecute bytes "bytes option" int server_options
  | SRegister "bytes list"
  | SBatch int "(bool \<times> bytes \<times> wire_value list) list" int "int option" "int option" "bytes option"
  | SAuthResponse bytes

definition server_query :: "int \<Rightarrow> server_request reader" where
  "server_query v =
     rd_bind read_binary_longstring (\<lambda>query. rd_bind read_short (\<lambda>cl. rd_bind (server_options v) (\<lambda>opts.
       rd_return (SQuery query cl opts))))"

definition server_prepare :: "int \<Rightarrow> server_request reader" where
  "server_prepare v =
     rd_bind read_binary_longstring (\<lambda>query. rd_bind (read_if (v \<ge> 5) read_uint) (\<lambda>flags.
     rd_bind (read_if (flags \<noteq> None \<and> bit (the flags) 0) read_binary_string) (\<lambda>keyspace.
       rd_return (SPrepare query keyspace))))"

definition values_only :: "wire_value list \<Rightarrow> server_options" where
  "values_only ps = server_options.make (Some ps) False None None None None None"

definition server_execute :: "int \<Rightarrow> server_request reader" where
  "server_execute v =
     rd_bind read_binary_string (\<lambda>qid. rd_bind (read_if (v \<ge> 5) read_binary_string) (\<lambda>mid.
       if v = 1
       then rd_bind (server_list server_value) (\<lambda>ps. rd_bind read_short (\<lambda>cl.
              rd_return (SExecute qid mid cl (values_only ps))))
       else rd_bind read_short (\<lambda>cl. rd_bind (server_options v) (\<lambda>opts. rd_return (SExecute qid mid cl opts)))))"

definition server_batch_query :: "(bool \<times> bytes \<times> wire_value list) reader" where
  "server_batch_query = rd_bind read_byte (\<lambda>kind.
     rd_bind (if kind = 0 then read_binary_longstring else read_binary_string) (\<lambda>query.
     rd_bind (server_list server_value) (\<lambda>ps. rd_return (kind \<noteq> 0, query, ps))))"

definition server_batch :: "int \<Rightarrow> server_request reader" where
  "server_batch v =
     rd_bind read_byte (\<lambda>batch_type. rd_bind (server_list server_batch_query) (\<lambda>queries. rd_bind read_short (\<lambda>cl.
       if v \<ge> 3
       then rd_bind (if v \<ge> 5 then read_int else read_byte) (\<lambda>flags.
            rd_bind (read_if (bit flags 4) read_short) (\<lambda>serial.
            rd_bind (read_if (bit flags 5) read_long) (\<lambda>timestamp.
            rd_bind (read_if (v \<ge> 5 \<and> bit flags 7) read_binary_string) (\<lambda>keyspace.
              rd_return (SBatch batch_type queries cl serial timestamp keyspace)))))
       else rd_return (SBatch batch_type queries cl None None None))))"

definition server_map :: "(bytes \<times> bytes) list reader" where
  "server_map = server_list (read_pair read_binary_string read_binary_string)"

definition server_read :: "int \<Rightarrow> int \<Rightarrow> server_request reader" where
  "server_read v opcode =
     (if opcode = 0x01 then rd_bind server_map (\<lambda>m. rd_return (SStartup m))
      else if opcode = 0x04 then rd_bind server_map (\<lambda>m. rd_return (SCredentials m))
      else if opcode = 0x05 then rd_return SOptions
      else if opcode = 0x07 then server_query v
      else if opcode = 0x09 then server_prepare v
      else if opcode = 0x0A then server_execute v
      else if opcode = 0x0B then rd_bind (server_list read_binary_string) (\<lambda>es. rd_return (SRegister es))
      else if opcode = 0x0D then server_batch v
      else if opcode = 0x0F then rd_bind read_binary_longstring (\<lambda>r. rd_return (SAuthResponse r))
      else rd_fail ProtocolError)"

section \<open>What each request means\<close>

definition str_view :: "py_str \<Rightarrow> bytes" where
  "str_view s = projr (encoded s)"

definition query_view :: "QueryMessage \<Rightarrow> server_request" where
  "query_view m = SQuery (str_view (qm_query m)) (qm_consistency_level m)
     (server_options.make (qm_query_params m) False
       (view_if (truthy_int (qm_fetch_size m)) (\<lambda>n. n) (qm_fetch_size m))
       (view_if (truthy_bytes (qm_paging_state m)) (\<lambda>s. s) (qm_paging_state m))
       (view_if (truthy_int (qm_serial_consistency_level m)) (\<lambda>n. n) (qm_serial_consistency_level m))
       (map_option long_view (qm_timestamp m))
       (map_option str_view (qm_keyspace m)))"

definition execute_view :: "int \<Rightarrow> ExecuteMessage \<Rightarrow> server_request" where
  "execute_view v m = SExecute (str_view (em_query_id m))
     (view_if (v \<ge> 5) str_view (em_result_metadata_id m)) (em_consistency_level m)
     (if v = 1 then values_only (em_query_params m)
      else server_options.make (Some (em_query_params m)) (em_skip_meta m)
       (view_if (truthy_int (em_fetch_size m)) (\<lambda>n. n) (em_fetch_size m))
       (view_if (truthy_bytes (em_paging_state m)) (\<lambda>s. s) (em_paging_state m))
       (view_if (truthy_int (em_serial_consistency_level m)) (\<lambda>n. n) (em_serial_consistency_level m))
       (map_option long_view (em_timestamp m)) None)"

definition batch_view :: "int \<Rightarrow> BatchMessage \<Rightarrow> server_request" where
  "batch_view v m = SBatch (bm_batch_type m)
     (map (\<lambda>(prepared, q, ps). (prepared, str_view q, ps)) (bm_queries m)) (bm_consistency_level m)
     (view_if (v \<ge> 3 \<and> truthy_int (bm_serial_consistency_level m)) (\<lambda>n. n) (bm_serial_consistency_level m))
     (view_if (v \<ge> 3) long_view (bm_timestamp m))
     (view_if (v \<ge> 5) str_view (bm_keyspace m))"

fun request_view :: "int \<Rightarrow> request \<Rightarrow> server_request" where
  "request_view v (Startup cqlversion opts) =
     SStartup (map (\<lambda>(k, x). (str_view k, str_view x)) (AList.update (PyText (text_of ''CQL_VERSION'')) cqlversion opts))"
| "request_view v (Credentials creds) = SCredentials (map (\<lambda>(k, x). (str_view k, str_view x)) creds)"
| "request_view v Options = SOptions"
| "request_view v (Query m) = query_view m"
| "request_view v (Prepare m) = SPrepare (str_view (pm_query m)) (map_option str_view (pm_keyspace m))"
| "request_view v (Execute m) = execute_view v m"
| "request_view v (Register event_list) = SRegister (map str_view event_list)"
| "request_view v (Batch m) = batch_view v m"
| "request_view v (AuthResponse response) = SAuthResponse (str_view response)"

text \<open>
  The requests whose bytes follow the specification: a QUERY has flags from version 2 and a
  timestamp from version 3 on, and the keyspace of a PREPARE or BATCH is not the empty string.
\<close>

definition keyspace_set :: "py_str option \<Rightarrow> bool" where
  "keyspace_set ks \<longleftrightarrow> ks = None \<or> truthy_str ks"

fun conforms :: "int \<Rightarrow> request \<Rightarrow> bool" where
  "conforms v (Query m) = (v \<ge> 2 \<and> (qm_timestamp m = None \<or> v \<ge> 3))"
| "conforms v (Prepare m) = keyspace_set (pm_keyspace m)"
| "conforms v (Execute m) = (v \<ge> 1)"
| "conforms v (Batch m) = keyspace_set (bm_keyspace m)"
| "conforms v _ = True"

section \<open>The server reads each request as it was meant\<close>

interpretation binary: wire write_string read_binary_string str_view
  using binary_string.wire_axioms by (simp add: str_view_def [abs_def])

interpretation long_binary: wire write_longstring read_binary_longstring str_view
  using binary_longstring.wire_axioms by (simp add: str_view_def [abs_def])

interpretation state: wire "\<lambda>bs. write_longstring (PyBytes bs)" read_binary_longstring "\<lambda>bs. bs"
  using binary_longstring.rd_wr by unfold_locales fastforce

interpretation serial: wire write_consistency_level read_short "\<lambda>n. n"
  using short.rd_wr by unfold_locales (simp add: write_consistency_level_def)

interpretation flags: wire "write_query_flags v" "server_flags v" "\<lambda>n. n" for v
  using uint.rd_wr byte.rd_wr
  by unfold_locales (auto simp: write_query_flags_def server_flags_def uses_int_query_flags_def)

interpretation query_id: wire write_query_id read_binary_string str_view
proof
  fix s bs rest
  assume "write_query_id s = Inr bs"
  then obtain c where "s = PyBytes c" "write_string s = Inr bs"
    by (cases s) (auto simp: write_string_def res_bind_Inr_iff)
  then show "read_binary_string (bs @ rest) = Inr (str_view s, rest)" by (simp add: binary.rd_wr)
qed

interpretation batch_query: wire write_batch_query server_batch_query "\<lambda>(prepared, q, ps). (prepared, str_view q, ps)"
proof
  fix q bs rest
  assume *: "write_batch_query q = Inr bs"
  obtain prepared s ps where q: "q = (prepared, s, ps)" by (cases q)
  show "server_batch_query (bs @ rest) = Inr ((case q of (prepared, s, ps) \<Rightarrow> (prepared, str_view s, ps)), rest)"
  proof (cases prepared)
    case True
    with * q obtain a b c where "write_byte 1 = Inr a" "write_query_id s = Inr b" "write_params ps = Inr c" "bs = a @ b @ c"
      by (auto simp: write_batch_query_def res_bind_Inr_iff)
    with True q show ?thesis by (simp add: server_batch_query_def byte.read query_id.read params.read)
  next
    case False
    with * q obtain a b c where "write_byte 0 = Inr a" "write_longstring s = Inr b" "write_params ps = Inr c" "bs = a @ b @ c"
      by (auto simp: write_batch_query_def res_bind_Inr_iff)
    with False q show ?thesis by (simp add: server_batch_query_def byte.read long_binary.read params.read)
  qed
qed

lemma options_read:
  assumes "wr_seq [write_query_flags v flags, write_if p0 write_params vals, write_if p2 write_int page_size,
      write_if p3 (\<lambda>bs. write_longstring (PyBytes bs)) paging_state, write_if p4 write_consistency_level serial,
      write_if p5 write_long timestamp, write_if p7 write_string keyspace] = Inr bs"
    and bits: "p0 \<longleftrightarrow> bit flags 0" "p2 \<longleftrightarrow> bit flags 2" "p3 \<longleftrightarrow> bit flags 3" "p4 \<longleftrightarrow> bit flags 4"
      "p5 \<longleftrightarrow> v \<ge> 3 \<and> bit flags 5" "p7 \<longleftrightarrow> v \<ge> 5 \<and> bit flags 7"
    and set: "p0 \<longrightarrow> vals \<noteq> None" "p2 \<longrightarrow> page_size \<noteq> None" "p3 \<longrightarrow> paging_state \<noteq> None"
      "p4 \<longrightarrow> serial \<noteq> None" "p5 \<longrightarrow> timestamp \<noteq> None" "p7 \<longrightarrow> keyspace \<noteq> None"
  shows "server_options v (bs @ rest) = Inr (server_options.make (view_if p0 (\<lambda>x. x) vals) (bit flags 1)
    (view_if p2 (\<lambda>x. x) page_size) (view_if p3 (\<lambda>x. x) paging_state) (view_if p4 (\<lambda>x. x) serial)
    (view_if p5 long_view timestamp) (view_if p7 str_view keyspace), rest)"
proof -
  from assms(1) obtain f b0 b2 b3 b4 b5 b7 where w: "write_query_flags v flags = Inr f"
    "write_if p0 write_params vals = Inr b0" "write_if p2 write_int page_size = Inr b2"
    "write_if p3 (\<lambda>bs. write_longstring (PyBytes bs)) paging_state = Inr b3"
    "write_if p4 write_consistency_level serial = Inr b4" "write_if p5 write_long timestamp = Inr b5"
    "write_if p7 write_string keyspace = Inr b7" and bs: "bs = f @ b0 @ b2 @ b3 @ b4 @ b5 @ b7"
    by (auto simp: res_bind_Inr_iff)
  show ?thesis
    unfolding server_options_def bs append_assoc flags.read [OF w(1)] bits [symmetric]
      params.read_opt [OF w(2) set(1)] int.read_opt [OF w(3) set(2)] state.read_opt [OF w(4) set(3)]
      serial.read_opt [OF w(5) set(4)] long.read_opt [OF w(6) set(5)] binary.read_opt [OF w(7) set(6)]
    by (simp add: rd_return_def)
qed

lemma add_flag_bit:
  "add_flag present supported m flags = Inr flags' \<Longrightarrow> bit flags' n \<longleftrightarrow> bit flags n \<or> present \<and> bit m n"
  "add_flag present supported m flags = Inr flags' \<Longrightarrow> present \<longrightarrow> supported"
  by (auto simp: add_flag_def bit_or_iff split: if_splits)

lemma flag_bits:
  "bit VALUES_FLAG n \<longleftrightarrow> n = 0" "bit SKIP_METADATA_FLAG n \<longleftrightarrow> n = 1" "bit PAGE_SIZE_FLAG n \<longleftrightarrow> n = 2"
  "bit WITH_PAGING_STATE_FLAG n \<longleftrightarrow> n = 3" "bit WITH_SERIAL_CONSISTENCY_FLAG n \<longleftrightarrow> n = 4"
  "bit PROTOCOL_TIMESTAMP n \<longleftrightarrow> n = 5" "bit WITH_KEYSPACE_FLAG n \<longleftrightarrow> n = 7"
  "bit PREPARED_WITH_KEYSPACE_FLAG n \<longleftrightarrow> n = 0"
  using bit_exp_iff [where 'a = int, of 0 n] bit_exp_iff [where 'a = int, of 1 n] bit_exp_iff [where 'a = int, of 2 n]
    bit_exp_iff [where 'a = int, of 3 n] bit_exp_iff [where 'a = int, of 4 n] bit_exp_iff [where 'a = int, of 5 n]
    bit_exp_iff [where 'a = int, of 7 n]
  by (auto simp: flag_defs)

lemma query_flags_bits:
  assumes "query_flags v m = Inr flags"
  shows "bit flags 0 \<longleftrightarrow> qm_query_params m \<noteq> None" "bit flags 1 \<longleftrightarrow> False"
    "bit flags 2 \<longleftrightarrow> truthy_int (qm_fetch_size m)" "bit flags 3 \<longleftrightarrow> truthy_bytes (qm_paging_state m)"
    "bit flags 4 \<longleftrightarrow> truthy_int (qm_serial_consistency_level m)" "bit flags 5 \<longleftrightarrow> qm_timestamp m \<noteq> None"
    "bit flags 7 \<longleftrightarrow> qm_keyspace m \<noteq> None" "qm_keyspace m \<noteq> None \<longrightarrow> v \<ge> 5"
proof -
  from assms obtain f1 f2 f3 f4 f5 where f: "add_flag (qm_query_params m \<noteq> None) True VALUES_FLAG 0 = Inr f1"
    "add_flag (truthy_int (qm_serial_consistency_level m)) (v \<ge> 2) WITH_SERIAL_CONSISTENCY_FLAG f1 = Inr f2"
    "add_flag (truthy_int (qm_fetch_size m)) (v \<ge> 2) PAGE_SIZE_FLAG f2 = Inr f3"
    "add_flag (truthy_bytes (qm_paging_state m)) (v \<ge> 2) WITH_PAGING_STATE_FLAG f3 = Inr f4"
    "add_flag (qm_timestamp m \<noteq> None) True PROTOCOL_TIMESTAMP f4 = Inr f5"
    "add_flag (qm_keyspace m \<noteq> None) (uses_keyspace_flag v) WITH_KEYSPACE_FLAG f5 = Inr flags"
    unfolding query_flags_def by (elim res_bindE)
  note bits = add_flag_bit(1) [OF f(1)] add_flag_bit(1) [OF f(2)] add_flag_bit(1) [OF f(3)] add_flag_bit(1) [OF f(4)]
    add_flag_bit(1) [OF f(5)] add_flag_bit(1) [OF f(6)] flag_bits
  show "bit flags 0 \<longleftrightarrow> qm_query_params m \<noteq> None" "bit flags 1 \<longleftrightarrow> False"
    "bit flags 2 \<longleftrightarrow> truthy_int (qm_fetch_size m)" "bit flags 3 \<longleftrightarrow> truthy_bytes (qm_paging_state m)"
    "bit flags 4 \<longleftrightarrow> truthy_int (qm_serial_consistency_level m)" "bit flags 5 \<longleftrightarrow> qm_timestamp m \<noteq> None"
    "bit flags 7 \<longleftrightarrow> qm_keyspace m \<noteq> None"
    by (simp_all add: bits)
  show "qm_keyspace m \<noteq> None \<longrightarrow> v \<ge> 5" using add_flag_bit(2) [OF f(6)] by (simp add: version_defs)
qed

lemma execute_flags_bits:
  assumes "execute_flags v m = Inr flags"
  shows "bit flags 0" "bit flags 1 \<longleftrightarrow> em_skip_meta m"
    "bit flags 2 \<longleftrightarrow> truthy_int (em_fetch_size m)" "bit flags 3 \<longleftrightarrow> truthy_bytes (em_paging_state m)"
    "bit flags 4 \<longleftrightarrow> truthy_int (em_serial_consistency_level m)" "bit flags 5 \<longleftrightarrow> em_timestamp m \<noteq> None"
    "\<not> bit flags 7" "em_timestamp m \<noteq> None \<longrightarrow> v \<ge> 3"
proof -
  from assms obtain f2 f3 f4 f5 where
    f: "add_flag (truthy_int (em_serial_consistency_level m)) True WITH_SERIAL_CONSISTENCY_FLAG VALUES_FLAG = Inr f2"
    "add_flag (truthy_int (em_fetch_size m)) True PAGE_SIZE_FLAG f2 = Inr f3"
    "add_flag (truthy_bytes (em_paging_state m)) True WITH_PAGING_STATE_FLAG f3 = Inr f4"
    "add_flag (em_timestamp m \<noteq> None) (v \<ge> 3) PROTOCOL_TIMESTAMP f4 = Inr f5"
    "add_flag (em_skip_meta m) True SKIP_METADATA_FLAG f5 = Inr flags"
    unfolding execute_flags_def by (elim res_bindE)
  note bits = add_flag_bit(1) [OF f(1)] add_flag_bit(1) [OF f(2)] add_flag_bit(1) [OF f(3)] add_flag_bit(1) [OF f(4)]
    add_flag_bit(1) [OF f(5)] flag_bits
  show "bit flags 0" "bit flags 1 \<longleftrightarrow> em_skip_meta m"
    "bit flags 2 \<longleftrightarrow> truthy_int (em_fetch_size m)" "bit flags 3 \<longleftrightarrow> truthy_bytes (em_paging_state m)"
    "bit flags 4 \<longleftrightarrow> truthy_int (em_serial_consistency_level m)" "bit flags 5 \<longleftrightarrow> em_timestamp m \<noteq> None"
    "\<not> bit flags 7"
    by (simp_all add: bits)
  show "em_timestamp m \<noteq> None \<longrightarrow> v \<ge> 3" using add_flag_bit(2) [OF f(4)] .
qed

lemma batch_flags_bits:
  assumes "batch_flags v m = Inr flags"
  shows "bit flags 4 \<longleftrightarrow> truthy_int (bm_serial_consistency_level m)" "bit flags 5 \<longleftrightarrow> bm_timestamp m \<noteq> None"
    "bit flags 7 \<longleftrightarrow> truthy_str (bm_keyspace m)" "truthy_str (bm_keyspace m) \<longrightarrow> v \<ge> 5"
proof -
  from assms obtain f4 f5 where
    f: "add_flag (truthy_int (bm_serial_consistency_level m)) True WITH_SERIAL_CONSISTENCY_FLAG 0 = Inr f4"
    "add_flag (bm_timestamp m \<noteq> None) True PROTOCOL_TIMESTAMP f4 = Inr f5"
    "add_flag (truthy_str (bm_keyspace m)) (uses_keyspace_flag v) WITH_KEYSPACE_FLAG f5 = Inr flags"
    unfolding batch_flags_def by (elim res_bindE)
  note bits = add_flag_bit(1) [OF f(1)] add_flag_bit(1) [OF f(2)] add_flag_bit(1) [OF f(3)] flag_bits
  show "bit flags 4 \<longleftrightarrow> truthy_int (bm_serial_consistency_level m)" "bit flags 5 \<longleftrightarrow> bm_timestamp m \<noteq> None"
    "bit flags 7 \<longleftrightarrow> truthy_str (bm_keyspace m)"
    by (simp_all add: bits)
  show "truthy_str (bm_keyspace m) \<longrightarrow> v \<ge> 5" using add_flag_bit(2) [OF f(3)] by (simp add: version_defs)
qed

lemma truthy_set: "truthy_int x \<longrightarrow> x \<noteq> None" "truthy_bytes s \<longrightarrow> s \<noteq> None" "truthy_str t \<longrightarrow> t \<noteq> None"
  by (auto simp: truthy_int_def truthy_bytes_def truthy_str_def)

lemma view_if_set: "view_if (x \<noteq> None) view x = map_option view x" "view_if True view x = map_option view x"
  by (cases x) (auto simp: view_if_def)

lemma wr_seq_ConsE:
  assumes "wr_seq (w # ws) = Inr bs"
  obtains b c where "w = Inr b" "wr_seq ws = Inr c" "bs = b @ c"
  using assms by (auto simp: res_bind_Inr_iff)

lemma wr_seq_bindE:
  assumes "wr_seq (res_bind m w # ws) = Inr bs"
  obtains x where "m = Inr x" "wr_seq (w x # ws) = Inr bs"
  using assms by (cases m) simp_all

lemma query_read:
  assumes "query_send_body v m = Inr bs" "conforms v (Query m)"
  shows "server_query v (bs @ rest) = Inr (query_view m, rest)"
proof -
  let ?parts = "[write_if (qm_query_params m \<noteq> None) write_params (qm_query_params m),
      write_if (truthy_int (qm_fetch_size m)) write_int (qm_fetch_size m),
      write_if (truthy_bytes (qm_paging_state m)) (\<lambda>bs. write_longstring (PyBytes bs)) (qm_paging_state m),
      write_if (truthy_int (qm_serial_consistency_level m)) write_consistency_level (qm_serial_consistency_level m),
      write_if (qm_timestamp m \<noteq> None) write_long (qm_timestamp m),
      write_if (qm_keyspace m \<noteq> None) write_string (qm_keyspace m)]"
  from assms(1) [unfolded query_send_body_def] obtain q bs1 where q: "write_longstring (qm_query m) = Inr q" "bs = q @ bs1"
    and 1: "wr_seq (write_consistency_level (qm_consistency_level m)
      # res_bind (query_flags v m) (write_query_flags v) # ?parts) = Inr bs1" by (rule wr_seq_ConsE)
  from 1 obtain c os where c: "write_consistency_level (qm_consistency_level m) = Inr c" "bs1 = c @ os"
    and 2: "wr_seq (res_bind (query_flags v m) (write_query_flags v) # ?parts) = Inr os" by (rule wr_seq_ConsE)
  from 2 obtain flags where flags: "query_flags v m = Inr flags" and os: "wr_seq (write_query_flags v flags # ?parts) = Inr os"
    by (rule wr_seq_bindE)
  note b = query_flags_bits [OF flags]
  have "server_options v (os @ rest) = Inr (server_options.make (qm_query_params m) False
       (view_if (truthy_int (qm_fetch_size m)) (\<lambda>n. n) (qm_fetch_size m))
       (view_if (truthy_bytes (qm_paging_state m)) (\<lambda>s. s) (qm_paging_state m))
       (view_if (truthy_int (qm_serial_consistency_level m)) (\<lambda>n. n) (qm_serial_consistency_level m))
       (map_option long_view (qm_timestamp m))
       (map_option str_view (qm_keyspace m)), rest)"
    by (rule options_read [OF os, THEN trans])
      (use b assms(2) in \<open>auto simp: view_if_set truthy_set option.map_ident simp del: not_None_eq\<close>)
  then show ?thesis
    by (simp add: server_query_def query_view_def q(2) c(2) long_binary.read [OF q(1)] serial.read [OF c(1)] rd_bind_Inr)
qed

lemma execute_read:
  assumes "execute_send_body v m = Inr bs" "conforms v (Execute m)" "v \<noteq> 1"
  shows "server_execute v (bs @ rest) = Inr (execute_view v m, rest)"
proof -
  let ?parts = "[write_params (em_query_params m),
      write_if (truthy_int (em_fetch_size m)) write_int (em_fetch_size m),
      write_if (truthy_bytes (em_paging_state m)) (\<lambda>bs. write_longstring (PyBytes bs)) (em_paging_state m),
      write_if (truthy_int (em_serial_consistency_level m)) write_consistency_level (em_serial_consistency_level m),
      write_if (em_timestamp m \<noteq> None) write_long (em_timestamp m)]"
  let ?mid = "if uses_prepared_metadata v
       then (case em_result_metadata_id m of Some s \<Rightarrow> write_string s | None \<Rightarrow> Inl TypeError) else Inr []"
  from assms(1, 3) have "wr_seq (write_string (em_query_id m) # ?mid # write_consistency_level (em_consistency_level m)
      # res_bind (execute_flags v m) (write_query_flags v) # ?parts) = Inr bs"
    by (simp only: execute_send_body_def if_False append_Cons append_Nil)
  then obtain q bs1 where q: "write_string (em_query_id m) = Inr q" "bs = q @ bs1"
    and 1: "wr_seq (?mid # write_consistency_level (em_consistency_level m)
      # res_bind (execute_flags v m) (write_query_flags v) # ?parts) = Inr bs1" by (rule wr_seq_ConsE)
  from 1 obtain i bs2 where i: "?mid = Inr i" "bs1 = i @ bs2"
    and 2: "wr_seq (write_consistency_level (em_consistency_level m)
      # res_bind (execute_flags v m) (write_query_flags v) # ?parts) = Inr bs2" by (rule wr_seq_ConsE)
  from 2 obtain c os where c: "write_consistency_level (em_consistency_level m) = Inr c" "bs2 = c @ os"
    and 3: "wr_seq (res_bind (execute_flags v m) (write_query_flags v) # ?parts) = Inr os" by (rule wr_seq_ConsE)
  from 3 obtain flags where flags: "execute_flags v m = Inr flags" and "wr_seq (write_query_flags v flags # ?parts) = Inr os"
    by (rule wr_seq_bindE)
  then have os: "wr_seq [write_query_flags v flags, write_if True write_params (Some (em_query_params m)),
      write_if (truthy_int (em_fetch_size m)) write_int (em_fetch_size m),
      write_if (truthy_bytes (em_paging_state m)) (\<lambda>bs. write_longstring (PyBytes bs)) (em_paging_state m),
      write_if (truthy_int (em_serial_consistency_level m)) write_consistency_level (em_serial_consistency_level m),
      write_if (em_timestamp m \<noteq> None) write_long (em_timestamp m), write_if False write_string None] = Inr os"
    by (simp add: write_if_def)
  from i(1) have mid: "write_if (v \<ge> 5) write_string (em_result_metadata_id m) = Inr i" "v \<ge> 5 \<longrightarrow> em_result_metadata_id m \<noteq> None"
    by (auto simp: write_if_def version_defs split: if_splits option.splits)
  note b = execute_flags_bits [OF flags]
  have "server_options v (os @ rest) = Inr (server_options.make (Some (em_query_params m)) (em_skip_meta m)
       (view_if (truthy_int (em_fetch_size m)) (\<lambda>n. n) (em_fetch_size m))
       (view_if (truthy_bytes (em_paging_state m)) (\<lambda>s. s) (em_paging_state m))
       (view_if (truthy_int (em_serial_consistency_level m)) (\<lambda>n. n) (em_serial_consistency_level m))
       (map_option long_view (em_timestamp m)) None, rest)"
    by (rule options_read [OF os, THEN trans])
      (use b in \<open>auto simp: view_if_set truthy_set option.map_ident view_if_def [of False] simp del: not_None_eq\<close>)
  then show ?thesis using assms(3)
    by (simp add: server_execute_def execute_view_def q(2) i(2) c(2) binary.read [OF q(1)] binary.read_opt [OF mid]
        serial.read [OF c(1)] rd_bind_Inr)
qed

lemma execute_read_v1:
  assumes "execute_send_body 1 m = Inr bs"
  shows "server_execute 1 (bs @ rest) = Inr (execute_view 1 m, rest)"
proof -
  from assms obtain q p c where "write_string (em_query_id m) = Inr q" "write_params (em_query_params m) = Inr p"
      "write_consistency_level (em_consistency_level m) = Inr c" "bs = q @ p @ c"
    by (auto simp: execute_send_body_def version_defs res_bind_Inr_iff split: if_splits)
  then show ?thesis
    by (simp add: server_execute_def execute_view_def read_if_def view_if_def binary.read params.read serial.read rd_bind_Inr)
qed

lemma keyspace_set_iff: "keyspace_set ks \<Longrightarrow> truthy_str ks \<longleftrightarrow> ks \<noteq> None"
  by (auto simp: keyspace_set_def truthy_str_def)

lemma set_imps: "p \<longrightarrow> p" "p \<and> q \<longrightarrow> q" "p \<longrightarrow> Some x \<noteq> None"
  by simp_all

lemma prepare_read:
  assumes "prepare_send_body v m = Inr bs" "keyspace_set (pm_keyspace m)"
  shows "server_prepare v (bs @ rest) = Inr (SPrepare (str_view (pm_query m)) (map_option str_view (pm_keyspace m)), rest)"
proof -
  from assms obtain q flags f k where w: "write_longstring (pm_query m) = Inr q"
      "add_flag (pm_keyspace m \<noteq> None) (uses_keyspace_flag v) PREPARED_WITH_KEYSPACE_FLAG 0 = Inr flags"
      "(if uses_prepare_flags v then write_uint flags else if flags \<noteq> 0 then Inl UnsupportedOperation else Inr []) = Inr f"
      "write_if (uses_keyspace_flag v \<and> pm_keyspace m \<noteq> None) write_string (pm_keyspace m) = Inr k" "bs = q @ f @ k"
    by (auto simp: prepare_send_body_def res_bind_Inr_iff keyspace_set_iff)
  have bit: "bit flags 0 \<longleftrightarrow> pm_keyspace m \<noteq> None" "pm_keyspace m \<noteq> None \<longrightarrow> v \<ge> 5"
    using add_flag_bit [OF w(2)] by (simp_all add: flag_bits version_defs)
  have f: "write_if (v \<ge> 5) write_uint (Some flags) = Inr f"
    using w(3) by (auto simp: write_if_def version_defs split: if_splits)
  have k: "write_if (pm_keyspace m \<noteq> None) write_string (pm_keyspace m) = Inr k"
    using w(4) bit(2) by (auto simp: version_defs write_if_def split: if_splits)
  have p: "(view_if (v \<ge> 5) (\<lambda>n. n) (Some flags) \<noteq> None \<and> bit (the (view_if (v \<ge> 5) (\<lambda>n. n) (Some flags))) 0)
      \<longleftrightarrow> pm_keyspace m \<noteq> None"
    using bit by (auto simp: view_if_def)
  show ?thesis
    unfolding server_prepare_def w(5) append_assoc long_binary.read [OF w(1)]
      uint.read_opt [OF f set_imps(3)] p binary.read_opt [OF k set_imps(1)] view_if_set
    by simp
qed

lemma batch_options_read:
  assumes "wr_seq [res_bind (batch_flags v m) (if uses_int_query_flags v then write_int else write_byte),
      write_if (truthy_int (bm_serial_consistency_level m)) write_consistency_level (bm_serial_consistency_level m),
      write_if (bm_timestamp m \<noteq> None) write_long (bm_timestamp m),
      write_if (uses_keyspace_flag v \<and> bm_keyspace m \<noteq> None) write_string (bm_keyspace m)] = Inr bs"
    and "keyspace_set (bm_keyspace m)"
  shows "rd_bind (if v \<ge> 5 then read_int else read_byte) (\<lambda>flags.
            rd_bind (read_if (bit flags 4) read_short) (\<lambda>serial.
            rd_bind (read_if (bit flags 5) read_long) (\<lambda>timestamp.
            rd_bind (read_if (v \<ge> 5 \<and> bit flags 7) read_binary_string) (k serial timestamp)))) (bs @ rest)
    = k (view_if (truthy_int (bm_serial_consistency_level m)) (\<lambda>n. n) (bm_serial_consistency_level m))
        (map_option long_view (bm_timestamp m)) (view_if (v \<ge> 5) str_view (bm_keyspace m)) rest"
proof -
  from assms(1) obtain flags f s t ks where w: "batch_flags v m = Inr flags"
      "(if v \<ge> 5 then write_int else write_byte) flags = Inr f"
      "write_if (truthy_int (bm_serial_consistency_level m)) write_consistency_level (bm_serial_consistency_level m) = Inr s"
      "write_if (bm_timestamp m \<noteq> None) write_long (bm_timestamp m) = Inr t"
      "write_if (v \<ge> 5 \<and> bm_keyspace m \<noteq> None) write_string (bm_keyspace m) = Inr ks" "bs = f @ s @ t @ ks"
    by (auto simp: res_bind_Inr_iff version_defs)
  note b = batch_flags_bits [OF w(1)]
  have f: "rd_bind (if v \<ge> 5 then read_int else read_byte) j (f @ g) = j flags g" for j g
    using w(2) int.read byte.read by (auto split: if_splits)
  have v: "view_if (v \<ge> 5 \<and> bm_keyspace m \<noteq> None) str_view (bm_keyspace m) = view_if (v \<ge> 5) str_view (bm_keyspace m)"
    by (auto simp: view_if_def)
  show ?thesis
    unfolding w(6) append_assoc f b(1-3) keyspace_set_iff [OF assms(2)] serial.read_opt [OF w(3) truthy_set(1)]
      long.read_opt [OF w(4) set_imps(1)] binary.read_opt [OF w(5) set_imps(2)] view_if_set v
    by (rule refl)
qed

lemma batch_read:
  assumes "batch_send_body v m = Inr bs" "keyspace_set (bm_keyspace m)"
  shows "server_batch v (bs @ rest) = Inr (batch_view v m, rest)"
proof -
  let ?qs = "wr_seq (write_short (int (length (bm_queries m))) # map write_batch_query (bm_queries m))"
  let ?os = "[res_bind (batch_flags v m) (if uses_int_query_flags v then write_int else write_byte),
      write_if (truthy_int (bm_serial_consistency_level m)) write_consistency_level (bm_serial_consistency_level m),
      write_if (bm_timestamp m \<noteq> None) write_long (bm_timestamp m),
      write_if (uses_keyspace_flag v \<and> bm_keyspace m \<noteq> None) write_string (bm_keyspace m)]"
  from assms(1) obtain t n q c os where t: "write_byte (bm_batch_type m) = Inr t"
      and n: "write_short (int (length (bm_queries m))) = Inr n" and q: "wr_seq (map write_batch_query (bm_queries m)) = Inr q"
      and c: "write_consistency_level (bm_consistency_level m) = Inr c" and os: "wr_seq (if v \<ge> 3 then ?os else []) = Inr os"
      and bs: "bs = t @ (n @ q) @ c @ os"
    unfolding batch_send_body_def wr_seq_append_Inr by (force elim!: wr_seq_ConsE simp del: wr_seq.simps(2) not_None_eq)
  from n q have nq: "?qs = Inr (n @ q)" by simp
  have qs: "rd_bind (server_list server_batch_query) j (n @ q @ g)
      = j (map (\<lambda>(prepared, q, ps). (prepared, str_view q, ps)) (bm_queries m)) g" for j g
    using batch_query.counted [OF nq, of g] by (simp add: server_list_def rd_bind_def)
  show ?thesis
  proof (cases "v \<ge> 3")
    case True
    with os have "wr_seq ?os = Inr os" by simp
    note os = batch_options_read [OF this assms(2)]
    show ?thesis
      unfolding server_batch_def bs append_assoc byte.read [OF t] qs serial.read [OF c] if_P [OF True] os
      using True by (simp add: batch_view_def view_if_set)
  next
    case False
    with os show ?thesis
      by (simp add: server_batch_def batch_view_def bs byte.read [OF t] serial.read [OF c] qs view_if_def)
  qed
qed

lemma server_map_read:
  assumes "wr_seq (write_short (int (length m)) # map (write_pair write_string write_string) m) = Inr bs"
  shows "server_map (bs @ rest) = Inr (map (\<lambda>(k, x). (str_view k, str_view x)) m, rest)"
proof -
  have "wire (write_pair write_string write_string) (read_pair read_binary_string read_binary_string)
      (\<lambda>kv. (str_view (fst kv), str_view (snd kv)))"
    by unfold_locales (rule binary.pair [OF binary.wire_axioms])
  from wire.counted [OF this assms] show ?thesis by (simp add: server_map_def server_list_def split_def)
qed

text \<open>
  An empty keyspace name breaks the agreement: PREPARE announces a keyspace that it does not
  write, and BATCH writes one that it does not announce.
\<close>

lemma be_bytes_numeral: "be_bytes (numeral k) n = be_bytes (pred_numeral k) (n div 256) @ [word_of_int n]"
  by (simp add: numeral_eq_Suc)

lemmas send_eval = be_bytes_numeral write_byte_def int8_pack_def pack_signed_def write_short_def uint16_pack_def
  pack_unsigned_def write_consistency_level_def add_flag_def truthy_int_def truthy_str_def truthy_bytes_def
  version_defs flag_defs write_int_def int32_pack_def write_uint_def uint32_pack_def write_long_def uint64_pack_def
  write_if_def write_string_def write_query_flags_def write_params_def

lemma prepare_empty_keyspace:
  assumes "write_longstring q = Inr bs"
  shows "prepare_send_body 5 \<lparr>pm_query = q, pm_keyspace = Some (PyText [])\<rparr> = Inr (bs @ [0, 0, 0, 1])"
  by (simp add: assms prepare_send_body_def send_eval)

lemma batch_empty_keyspace:
  "batch_send_body 5 \<lparr>bm_batch_type = 0, bm_queries = [], bm_consistency_level = 1,
     bm_serial_consistency_level = None, bm_timestamp = None, bm_keyspace = Some (PyText [])\<rparr>
   = Inr [0, 0, 0, 0, 1, 0, 0, 0, 0, 0, 0]"
  by (simp add: batch_send_body_def batch_flags_def send_eval)



end
