(* ===== verification/Responses.thy ===== *)
theory Responses
  imports Requests CqlTypes Policies
begin

text \<open>
  The responses of \<open>cassandra/protocol.py\<close>: \<open>recv_body\<close> of every message class, which reads
  a message from the body of a frame, and \<open>decode_message\<close>. Reading a type may create classes,
  so the registry of \<open>CqlTypes\<close> is threaded through; user-registered Python classes for user
  types are not modelled, a value of a user type is a tuple.
\<close>

section \<open>Errors\<close>

datatype error_class =
    ErrorMessage | ServerError | ProtocolException | BadCredentials | UnavailableErrorMessage
  | OverloadedErrorMessage | IsBootstrappingErrorMessage | TruncateError | WriteTimeoutErrorMessage
  | ReadTimeoutErrorMessage | ReadFailureMessage | FunctionFailureMessage | WriteFailureMessage
  | CDCWriteException | SyntaxException | UnauthorizedErrorMessage | InvalidRequestException
  | ConfigurationException | PreparedQueryNotFound | AlreadyExistsException

definition error_classes :: "(int \<times> error_class) list" where
  "error_classes =
     [(0x0000, ServerError), (0x000A, ProtocolException), (0x0100, BadCredentials),
      (0x1000, UnavailableErrorMessage), (0x1001, OverloadedErrorMessage), (0x1002, IsBootstrappingErrorMessage),
      (0x1003, TruncateError), (0x1100, WriteTimeoutErrorMessage), (0x1200, ReadTimeoutErrorMessage),
      (0x1300, ReadFailureMessage), (0x1400, FunctionFailureMessage), (0x1500, WriteFailureMessage),
      (0x1600, CDCWriteException), (0x2000, SyntaxException), (0x2100, UnauthorizedErrorMessage),
      (0x2200, InvalidRequestException), (0x2300, ConfigurationException), (0x2500, PreparedQueryNotFound),
      (0x2400, AlreadyExistsException)]"

definition error_class_of :: "int \<Rightarrow> error_class" where
  "error_class_of code = (case map_of error_classes code of Some c \<Rightarrow> c | None \<Rightarrow> ErrorMessage)"

text \<open>The \<open>info\<close> of an error; a failure lists the failed replicas or counts them.\<close>

datatype failures = FailureCount int | FailureMap "(bytes \<times> int) list"

datatype error_info =
    NoInfo
  | UnavailableInfo int int int
  | WriteTimeoutInfo int int int write_type
  | ReadTimeoutInfo int int int bool
  | ReadFailureInfo int int int failures bool
  | WriteFailureInfo int int int failures write_type
  | FunctionFailureInfo ptext ptext "ptext list"
  | PreparedQueryNotFoundInfo bytes
  | AlreadyExistsInfo ptext ptext

definition read_write_type :: "write_type reader" where
  "read_write_type = rd_bind read_string (\<lambda>s.
     case (if list_all (\<lambda>c. c < 128) s then write_type_of_name (map char_of s) else None) of
       Some w \<Rightarrow> rd_return w
     | None \<Rightarrow> rd_fail KeyError)"

definition read_bool :: "bool reader" where
  "read_bool = rd_bind read_byte (\<lambda>b. rd_return (b \<noteq> 0))"

definition read_failures :: "int \<Rightarrow> failures reader" where
  "read_failures v =
     (if uses_error_code_map v then rd_bind read_error_code_map (\<lambda>m. rd_return (FailureMap m))
      else rd_bind read_int (\<lambda>n. rd_return (FailureCount n)))"

text \<open>\<open>consistency\<close> and the two counts that most of these errors start with.\<close>

definition read_counts :: "(int \<Rightarrow> int \<Rightarrow> int \<Rightarrow> 'a reader) \<Rightarrow> 'a reader" where
  "read_counts k = rd_bind read_consistency_level (\<lambda>cl. rd_bind read_int (\<lambda>m. rd_bind read_int (\<lambda>n. k cl m n)))"

fun recv_error_info :: "error_class \<Rightarrow> int \<Rightarrow> error_info reader" where
  "recv_error_info UnavailableErrorMessage v = read_counts (\<lambda>cl m n. rd_return (UnavailableInfo cl m n))"
| "recv_error_info WriteTimeoutErrorMessage v =
     read_counts (\<lambda>cl m n. rd_bind read_write_type (\<lambda>w. rd_return (WriteTimeoutInfo cl m n w)))"
| "recv_error_info ReadTimeoutErrorMessage v =
     read_counts (\<lambda>cl m n. rd_bind read_bool (\<lambda>b. rd_return (ReadTimeoutInfo cl m n b)))"
| "recv_error_info ReadFailureMessage v =
     read_counts (\<lambda>cl m n. rd_bind (read_failures v) (\<lambda>fs. rd_bind read_bool (\<lambda>b.
       rd_return (ReadFailureInfo cl m n fs b))))"
| "recv_error_info WriteFailureMessage v =
     read_counts (\<lambda>cl m n. rd_bind (read_failures v) (\<lambda>fs. rd_bind read_write_type (\<lambda>w.
       rd_return (WriteFailureInfo cl m n fs w))))"
| "recv_error_info FunctionFailureMessage v =
     rd_bind read_string (\<lambda>ks. rd_bind read_string (\<lambda>fn. rd_bind read_short (\<lambda>n.
     rd_bind (rd_times (nat n) read_string) (\<lambda>args. rd_return (FunctionFailureInfo ks fn args)))))"
| "recv_error_info PreparedQueryNotFound v = rd_bind read_binary_string (\<lambda>qid. rd_return (PreparedQueryNotFoundInfo qid))"
| "recv_error_info AlreadyExistsException v =
     rd_bind read_string (\<lambda>ks. rd_bind read_string (\<lambda>tbl. rd_return (AlreadyExistsInfo ks tbl)))"
| "recv_error_info _ v = rd_return NoInfo"

section \<open>Events\<close>

datatype schema_target =
    KeyspaceTarget
  | FunctionTarget ptext "ptext list"
  | AggregateTarget ptext "ptext list"
  | NamedTarget ptext

record schema_change =
  sc_target_type :: ptext
  sc_change_type :: ptext
  sc_keyspace :: ptext
  sc_target :: schema_target

definition read_signature :: "ptext list reader" where
  "read_signature = rd_bind read_short (\<lambda>n. rd_times (nat n) read_string)"

definition recv_schema_change :: "int \<Rightarrow> schema_change reader" where
  "recv_schema_change v = rd_bind read_string (\<lambda>change_type.
     if v \<ge> 3
     then rd_bind read_string (\<lambda>tgt. rd_bind read_string (\<lambda>ks.
       if tgt = text_of ''KEYSPACE'' then rd_return (schema_change.make tgt change_type ks KeyspaceTarget)
       else rd_bind read_string (\<lambda>name.
         if tgt = text_of ''FUNCTION''
         then rd_bind read_signature (\<lambda>args. rd_return (schema_change.make tgt change_type ks (FunctionTarget name args)))
         else if tgt = text_of ''AGGREGATE''
         then rd_bind read_signature (\<lambda>args. rd_return (schema_change.make tgt change_type ks (AggregateTarget name args)))
         else rd_return (schema_change.make tgt change_type ks (NamedTarget name)))))
     else rd_bind read_string (\<lambda>ks. rd_bind read_string (\<lambda>table.
       if table \<noteq> []
       then rd_return (schema_change.make (text_of ''TABLE'') change_type ks (NamedTarget table))
       else rd_return (schema_change.make (text_of ''KEYSPACE'') change_type ks KeyspaceTarget))))"

datatype event =
    TopologyChange ptext "bytes \<times> int"
  | StatusChange ptext "bytes \<times> int"
  | SchemaChange schema_change

text \<open>\<open>upper\<close> on ASCII text; some other letters have an ASCII upper case form.\<close>

definition ascii_upper :: "ptext \<Rightarrow> ptext res" where
  "ascii_upper s =
     (if list_all (\<lambda>c. c < 128) s then Inr (map (\<lambda>c. if 97 \<le> c \<and> c \<le> 122 then c - 32 else c) s) else Inl OutOfModel)"

definition recv_topology_change :: "(ptext \<times> bytes \<times> int) reader" where
  "recv_topology_change = read_pair read_string read_inet"

definition recv_status_change :: "(ptext \<times> bytes \<times> int) reader" where
  "recv_status_change = read_pair read_string read_inet"

definition event_recv_body :: "int \<Rightarrow> event reader" where
  "event_recv_body v = rd_bind read_string (\<lambda>s. rd_bind (rd_lift (ascii_upper s)) (\<lambda>event_type.
     if event_type = text_of ''TOPOLOGY_CHANGE''
     then rd_bind recv_topology_change (\<lambda>(c, a). rd_return (TopologyChange c a))
     else if event_type = text_of ''STATUS_CHANGE''
     then rd_bind recv_status_change (\<lambda>(c, a). rd_return (StatusChange c a))
     else if event_type = text_of ''SCHEMA_CHANGE''
     then rd_bind (recv_schema_change v) (\<lambda>c. rd_return (SchemaChange c))
     else rd_fail NotSupportedError))"

section \<open>Types of columns\<close>

datatype type_code = CustomCode | ClassCode tclass

definition type_codes :: "(int \<times> type_code) list" where
  "type_codes =
     [(0x0000, CustomCode), (0x0001, ClassCode AsciiType), (0x0002, ClassCode LongType),
      (0x0003, ClassCode BytesType), (0x0004, ClassCode BooleanType), (0x0005, ClassCode CounterColumnType),
      (0x0006, ClassCode DecimalType), (0x0007, ClassCode DoubleType), (0x0008, ClassCode FloatType),
      (0x0009, ClassCode Int32Type), (0x000A, ClassCode UTF8Type), (0x000B, ClassCode DateType),
      (0x000C, ClassCode UUIDType), (0x000D, ClassCode VarcharType), (0x000E, ClassCode IntegerType),
      (0x000F, ClassCode TimeUUIDType), (0x0010, ClassCode InetAddressType), (0x0011, ClassCode SimpleDateType),
      (0x0012, ClassCode TimeType), (0x0013, ClassCode ShortType), (0x0014, ClassCode ByteType),
      (0x0015, ClassCode DurationType), (0x0020, ClassCode ListType), (0x0021, ClassCode MapType),
      (0x0022, ClassCode SetType), (0x0030, ClassCode UserType), (0x0031, ClassCode TupleType)]"

text \<open>A reader that also changes the registry, and its repetition.\<close>

type_synonym 'a reg_reader = "registry \<Rightarrow> ('a \<times> registry) reader"

fun reg_times :: "nat \<Rightarrow> 'a reg_reader \<Rightarrow> 'a list reg_reader" where
  "reg_times 0 r reg = rd_return ([], reg)"
| "reg_times (Suc n) r reg =
     rd_bind (r reg) (\<lambda>(x, reg1). rd_bind (reg_times n r reg1) (\<lambda>(xs, reg2). rd_return (x # xs, reg2)))"

definition reg_lift :: "('a res \<times> registry) \<Rightarrow> ('a \<times> registry) reader" where
  "reg_lift m = (case m of (Inr x, reg) \<Rightarrow> rd_return (x, reg) | (Inl e, reg) \<Rightarrow> rd_fail e)"

text \<open>
  One call of \<open>read_type\<close>, given the recursive call. Every call reads two bytes first, so a call
  on \<open>n\<close> bytes nests less than \<open>n\<close> deep: when the fuel \<open>n\<close> is used up there is nothing left
  to read and \<open>read_short\<close> raises.
\<close>

definition udt_field :: "ctype reg_reader \<Rightarrow> (ptext \<times> ctype) reg_reader" where
  "udt_field rec reg = rd_bind read_string (\<lambda>name. rd_bind (rec reg) (\<lambda>(t, reg1). rd_return ((name, t), reg1)))"

definition read_class_type :: "ctype reg_reader \<Rightarrow> tclass \<Rightarrow> ctype reg_reader" where
  "read_class_type rec c reg =
     (if c = ListType \<or> c = SetType
      then rd_bind (rec reg) (\<lambda>(t, reg1). reg_lift (apply_parameters (plain c) [t] None reg1))
      else if c = MapType
      then rd_bind (rec reg) (\<lambda>(k, reg1). rd_bind (rec reg1) (\<lambda>(t, reg2).
             reg_lift (apply_parameters (plain c) [k, t] None reg2)))
      else if c = TupleType
      then rd_bind read_short (\<lambda>n. rd_bind (reg_times (nat n) rec reg) (\<lambda>(ts, reg1).
             reg_lift (apply_parameters (plain c) ts None reg1)))
      else if c = UserType
      then rd_bind read_string (\<lambda>ks. rd_bind read_string (\<lambda>udt_name. rd_bind read_short (\<lambda>n.
             rd_bind (reg_times (nat n) (udt_field rec) reg) (\<lambda>(fs, reg1).
               if fs = [] then rd_fail ValueError
               else reg_lift (make_udt_class ks udt_name (map fst fs) (map snd fs) reg1)))))
      else rd_return (plain c, reg))"

definition read_type_step :: "ctype reg_reader \<Rightarrow> ctype reg_reader" where
  "read_type_step rec reg = rd_bind read_short (\<lambda>optid.
     case map_of type_codes optid of
       None \<Rightarrow> rd_fail NotSupportedError
     | Some CustomCode \<Rightarrow> rd_bind read_string (\<lambda>classname. rd_lift (lookup_casstype classname reg))
     | Some (ClassCode c) \<Rightarrow> read_class_type rec c reg)"

fun read_type_fuel :: "nat \<Rightarrow> ctype reg_reader" where
  "read_type_fuel 0 reg = rd_fail StructError"
| "read_type_fuel (Suc n) reg = read_type_step (read_type_fuel n) reg"

definition read_type :: "ctype reg_reader" where
  "read_type reg f = read_type_fuel (length f) reg f"

section \<open>Results\<close>

type_synonym column = "ptext \<times> ptext \<times> ptext \<times> ctype"

datatype table_spec = GlobalSpec ptext ptext | ColumnSpec

definition read_table_spec :: "int \<Rightarrow> table_spec reader" where
  "read_table_spec flags =
     (if flags AND 0x0001 \<noteq> 0
      then rd_bind read_string (\<lambda>ksname. rd_bind read_string (\<lambda>cfname. rd_return (GlobalSpec ksname cfname)))
      else rd_return ColumnSpec)"

definition read_column :: "table_spec \<Rightarrow> column reg_reader" where
  "read_column spec reg =
     rd_bind (case spec of
         GlobalSpec ksname cfname \<Rightarrow> rd_return (ksname, cfname)
       | ColumnSpec \<Rightarrow> read_pair read_string read_string) (\<lambda>(colksname, colcfname).
     rd_bind read_string (\<lambda>colname. rd_bind (read_type reg) (\<lambda>(coltype, reg1).
       rd_return ((colksname, colcfname, colname, coltype), reg1))))"

definition recv_results_metadata :: "(bytes option \<times> column list \<times> bytes option) reg_reader" where
  "recv_results_metadata reg =
     rd_bind read_int (\<lambda>flags. rd_bind read_int (\<lambda>colcount.
     rd_bind (read_if (flags AND 0x0002 \<noteq> 0) read_binary_longstring) (\<lambda>paging_state.
     rd_bind (read_if (flags AND 0x0008 \<noteq> 0) read_binary_string) (\<lambda>result_metadata_id.
       if flags AND 0x0004 \<noteq> 0 then rd_return ((paging_state, [], result_metadata_id), reg)
       else rd_bind (read_table_spec flags) (\<lambda>spec.
            rd_bind (reg_times (nat colcount) (read_column spec) reg) (\<lambda>(column_metadata, reg1).
              rd_return ((paging_state, column_metadata, result_metadata_id), reg1)))))))"

record prepared =
  pr_query_id :: bytes
  pr_bind_metadata :: "column list"
  pr_pk_indexes :: "int list option"
  pr_result_metadata :: "column list option"
  pr_result_metadata_id :: "bytes option"

definition recv_prepared_metadata :: "int \<Rightarrow> (column list \<times> int list option \<times> column list option) reg_reader" where
  "recv_prepared_metadata v reg =
     rd_bind read_int (\<lambda>flags. rd_bind read_int (\<lambda>colcount.
     rd_bind (read_if (v \<ge> 4) (rd_bind read_int (\<lambda>n. rd_times (nat n) read_short))) (\<lambda>pk_indexes.
     rd_bind (read_table_spec flags) (\<lambda>spec.
     rd_bind (reg_times (nat colcount) (read_column spec) reg) (\<lambda>(bind_metadata, reg1).
       if v \<ge> 2
       then rd_bind (recv_results_metadata reg1) (\<lambda>((_, result_metadata, _), reg2).
              rd_return ((bind_metadata, pk_indexes, Some result_metadata), reg2))
       else rd_return ((bind_metadata, pk_indexes, None), reg1))))))"

definition recv_results_prepared :: "int \<Rightarrow> prepared reg_reader" where
  "recv_results_prepared v reg =
     rd_bind read_binary_string (\<lambda>query_id.
     rd_bind (read_if (uses_prepared_metadata v) read_binary_string) (\<lambda>result_metadata_id.
     rd_bind (recv_prepared_metadata v reg) (\<lambda>((bind_metadata, pk_indexes, result_metadata), reg1).
       rd_return (prepared.make query_id bind_metadata pk_indexes result_metadata result_metadata_id, reg1))))"

definition recv_row :: "int \<Rightarrow> bytes option list reader" where
  "recv_row colcount = rd_times (nat colcount) read_value"

text \<open>
  A cell that cannot be read makes the second pass over the rows raise \<open>DriverException\<close>;
  \<open>OutOfModel\<close> marks a value that the model of the types leaves out.
\<close>

definition parse_rows :: "int \<Rightarrow> ctype list \<Rightarrow> bytes option list list \<Rightarrow> pyval list list res" where
  "parse_rows v coltypes rows =
     (case res_map (\<lambda>row. res_map (\<lambda>(t, val). from_binary t v val) (zip coltypes row)) rows of
        Inl e \<Rightarrow> Inl (if e = OutOfModel then OutOfModel else DriverException)
      | Inr r \<Rightarrow> Inr r)"

record rows_result =
  rr_paging_state :: "bytes option"
  rr_col_types :: "ctype list"
  rr_col_names :: "ptext list"
  rr_rows :: "pyval list list"

definition recv_results_rows :: "int \<Rightarrow> column list option \<Rightarrow> rows_result reg_reader" where
  "recv_results_rows v result_metadata reg =
     rd_bind (recv_results_metadata reg) (\<lambda>((paging_state, meta, _), reg1).
     rd_bind read_int (\<lambda>rowcount.
       case (if meta = [] then result_metadata else Some meta) of
         None \<Rightarrow> rd_fail TypeError
       | Some column_metadata \<Rightarrow>
           rd_bind (rd_times (nat rowcount) (recv_row (int (length column_metadata)))) (\<lambda>rows.
           let colnames = map (\<lambda>(_, _, n, _). n) column_metadata;
               coltypes = map (\<lambda>(_, _, _, t). t) column_metadata
           in rd_bind (rd_lift (parse_rows v coltypes rows)) (\<lambda>parsed_rows.
                rd_return (rows_result.make paging_state coltypes colnames parsed_rows, reg1)))))"

datatype result =
    VoidResult
  | RowsResult rows_result
  | SetKeyspaceResult ptext
  | PreparedResult prepared
  | SchemaChangeResult schema_change

definition result_recv_body :: "int \<Rightarrow> column list option \<Rightarrow> result reg_reader" where
  "result_recv_body v result_metadata reg = rd_bind read_int (\<lambda>kind.
     if kind = 0x0001 then rd_return (VoidResult, reg)
     else if kind = 0x0002
     then rd_bind (recv_results_rows v result_metadata reg) (\<lambda>(r, reg1). rd_return (RowsResult r, reg1))
     else if kind = 0x0003 then rd_bind read_string (\<lambda>ksname. rd_return (SetKeyspaceResult ksname, reg))
     else if kind = 0x0004
     then rd_bind (recv_results_prepared v reg) (\<lambda>(r, reg1). rd_return (PreparedResult r, reg1))
     else if kind = 0x0005 then rd_bind (recv_schema_change v) (\<lambda>c. rd_return (SchemaChangeResult c, reg))
     else rd_fail DriverException)"

section \<open>Messages\<close>

datatype response =
    Error int ptext error_info
  | Ready
  | Authenticate ptext
  | Supported "ptext list" "(ptext \<times> ptext list) list"
  | AuthChallenge bytes
  | AuthSuccess ptext
  | Result result
  | Event event

definition error_recv_body :: "int \<Rightarrow> response reader" where
  "error_recv_body v = rd_bind read_int (\<lambda>code. rd_bind read_string (\<lambda>msg.
     rd_bind (recv_error_info (error_class_of code) v) (\<lambda>info. rd_return (Error code msg info))))"

definition supported_recv_body :: "response reader" where
  "supported_recv_body = rd_bind read_stringmultimap (\<lambda>opts.
     case map_of opts (text_of ''CQL_VERSION'') of
       None \<Rightarrow> rd_fail KeyError
     | Some cql_versions \<Rightarrow> rd_return (Supported cql_versions (AList.delete (text_of ''CQL_VERSION'') opts)))"

text \<open>The classes of requests are registered under their opcodes but cannot be received.\<close>

definition recv_body :: "int \<Rightarrow> int \<Rightarrow> column list option \<Rightarrow> response reg_reader" where
  "recv_body opcode v result_metadata reg =
     (let same = (\<lambda>m. rd_return (m, reg))
      in if opcode = 0x00 then rd_bind (error_recv_body v) same
      else if opcode = 0x02 then same Ready
      else if opcode = 0x03 then rd_bind read_string (\<lambda>authname. same (Authenticate authname))
      else if opcode = 0x06 then rd_bind supported_recv_body same
      else if opcode = 0x08
      then rd_bind (result_recv_body v result_metadata reg) (\<lambda>(r, reg1). rd_return (Result r, reg1))
      else if opcode = 0x0C then rd_bind (event_recv_body v) (\<lambda>e. same (Event e))
      else if opcode = 0x0E then rd_bind read_binary_longstring (\<lambda>c. same (AuthChallenge c))
      else if opcode = 0x10 then rd_bind read_longstring (\<lambda>tok. same (AuthSuccess tok))
      else if opcode \<in> {0x01, 0x04, 0x05, 0x07, 0x09, 0x0A, 0x0B, 0x0D, 0x0F} then rd_fail AttributeError
      else rd_fail KeyError)"

record message =
  msg_stream_id :: int
  msg_trace_id :: "bytes option"
  msg_warnings :: "ptext list option"
  msg_custom_payload :: "(ptext \<times> bytes option) list option"
  msg_body :: response

definition read_trace_id :: "bytes reader" where
  "read_trace_id = rd_bind (rd_read 16) (\<lambda>bs. if length bs = 16 then rd_return bs else rd_fail ValueError)"

definition decode_message ::
    "int \<Rightarrow> int \<Rightarrow> int \<Rightarrow> int \<Rightarrow> bytes \<Rightarrow> (bytes \<Rightarrow> bytes res) option \<Rightarrow> column list option
      \<Rightarrow> registry \<Rightarrow> (message \<times> registry) res" where
  "decode_message v stream_id flags opcode body decompressor result_metadata reg =
     res_bind (if flags AND 0x01 \<noteq> 0
               then (case decompressor of None \<Rightarrow> Inl RuntimeError | Some d \<Rightarrow> d body)
               else Inr body) (\<lambda>body1.
     res_bind
       (rd_bind (read_if (flags AND 0x02 \<noteq> 0) read_trace_id) (\<lambda>trace_id.
        rd_bind (read_if (flags AND 0x08 \<noteq> 0) read_stringlist) (\<lambda>warnings.
        rd_bind (read_if (flags AND 0x04 \<noteq> 0) read_bytesmap) (\<lambda>custom_payload.
        rd_bind (recv_body opcode v result_metadata reg) (\<lambda>(m, reg1).
          rd_return (message.make stream_id trace_id warnings custom_payload m, reg1))))) body1)
       (\<lambda>(r, rest). Inr r))"

section \<open>The nesting of types is bounded by the input\<close>

text \<open>A reader never gives back more than it was given.\<close>

definition shrinks :: "'a reader \<Rightarrow> bool" where
  "shrinks r \<longleftrightarrow> (\<forall>f x g. r f = Inr (x, g) \<longrightarrow> length g \<le> length f)"

lemma shrinksI: "(\<And>f x g. r f = Inr (x, g) \<Longrightarrow> length g \<le> length f) \<Longrightarrow> shrinks r"
  by (auto simp: shrinks_def)

lemma shrinksD: "shrinks r \<Longrightarrow> r f = Inr (x, g) \<Longrightarrow> length g \<le> length f"
  by (auto simp: shrinks_def)

lemma rd_bindE:
  assumes "rd_bind r k f = Inr (y, h)"
  obtains x g where "r f = Inr (x, g)" "k x g = Inr (y, h)"
  using assms by (auto simp: rd_bind_def res_bind_Inr_iff)

lemma shrinks_simps [intro!]:
  "shrinks (rd_return x)" "shrinks (rd_fail e)" "shrinks (rd_lift m)" "shrinks (rd_read n)"
  by (auto simp: shrinks_def rd_lift_def rd_read_def res_bind_Inr_iff)

lemma shrinks_bind [intro!]: "shrinks r \<Longrightarrow> (\<And>x. shrinks (k x)) \<Longrightarrow> shrinks (rd_bind r k)"
  by (rule shrinksI) (erule rd_bindE, meson le_trans shrinksD)

lemma shrinks_read [intro!]: "shrinks read_short" "shrinks read_string" "shrinks read_binary_string"
  unfolding read_short_def read_string_def read_binary_string_def by blast+

lemma shrinks_reg_times: "(\<And>reg. shrinks (r reg)) \<Longrightarrow> shrinks (reg_times n r reg)"
  by (induction n arbitrary: reg) (auto intro!: shrinks_bind split: prod.split)

lemma shrinks_udt_field: "(\<And>reg. shrinks (r reg)) \<Longrightarrow> shrinks (udt_field r reg)"
  by (auto simp: udt_field_def intro!: shrinks_bind split: prod.split)

lemma shrinks_reg_lift [intro!]: "shrinks (reg_lift m)"
  by (auto simp: reg_lift_def split: prod.split sum.split)

lemma shrinks_type_step: "(\<And>reg. shrinks (r reg)) \<Longrightarrow> shrinks (read_type_step r reg)"
  unfolding read_type_step_def read_class_type_def
  by (auto intro!: shrinks_bind shrinks_reg_times shrinks_udt_field split: prod.split option.split type_code.split)

lemma shrinks_type_fuel: "shrinks (read_type_fuel n reg)"
  by (induction n arbitrary: reg) (auto intro: shrinks_type_step)

lemma read_short_consumes: "read_short f = Inr (n, g) \<Longrightarrow> length g < length f"
proof -
  assume "read_short f = Inr (n, g)"
  then have "uint16_unpack (take 2 f) = Inr n" "g = drop 2 f"
    by (auto simp: read_short_def rd_read_def rd_bind_def rd_lift_def res_bind_Inr_iff)
  then have "length (take 2 f) = 2" by (auto simp: uint16_unpack_def unpack_unsigned_def split: if_splits)
  with \<open>g = drop 2 f\<close> show ?thesis by auto
qed

text \<open>Two readers that agree on inputs of at most \<open>n\<close> bytes.\<close>

definition agree :: "nat \<Rightarrow> 'a reg_reader \<Rightarrow> 'a reg_reader \<Rightarrow> bool" where
  "agree n r r' \<longleftrightarrow> (\<forall>reg f. length f \<le> n \<longrightarrow> r reg f = r' reg f)"

lemma agreeD: "agree n r r' \<Longrightarrow> length f \<le> n \<Longrightarrow> r reg f = r' reg f"
  by (auto simp: agree_def)

lemma bind_agree:
  assumes "r f = r' f" "\<And>x g. r' f = Inr (x, g) \<Longrightarrow> k x g = k' x g"
  shows "rd_bind r k f = rd_bind r' k' f"
  using assms by (intro rd_bind_cong) auto

lemma reg_times_agree:
  assumes "agree n r r'" "\<And>reg. shrinks (r' reg)" "length f \<le> n"
  shows "reg_times m r reg f = reg_times m r' reg f"
  using assms(3)
proof (induction m arbitrary: reg f)
  case (Suc m)
  have "reg_times m r reg' g = reg_times m r' reg' g" if "r' reg f = Inr (x, g)" for x reg' g
    using shrinksD [OF assms(2) that] Suc.prems by (intro Suc.IH) simp
  with agreeD [OF assms(1) Suc.prems] show ?case
    by (auto intro!: bind_agree split: prod.split)
qed simp

lemma udt_field_agree: "agree n r r' \<Longrightarrow> agree n (udt_field r) (udt_field r')"
  unfolding agree_def [of n "udt_field r"] udt_field_def
  by (auto intro!: bind_agree agreeD [of n r r'] dest!: shrinksD [OF shrinks_read(2)])

lemma read_class_type_agree:
  assumes a: "agree n r r'" and s: "\<And>reg. shrinks (r' reg)" and f: "length f \<le> n"
  shows "read_class_type r c reg f = read_class_type r' c reg f"
proof -
  have rec: "r reg g = r' reg g" if "length g \<le> n" for reg g using agreeD [OF a that] .
  have times: "reg_times m r reg g = reg_times m r' reg g" if "length g \<le> n" for m reg g
    using reg_times_agree [OF a s that] .
  have field: "reg_times m (udt_field r) reg g = reg_times m (udt_field r') reg g" if "length g \<le> n" for m reg g
    using reg_times_agree [OF udt_field_agree [OF a] shrinks_udt_field [OF s] that] .
  have list: "rd_bind (r reg) k f = rd_bind (r' reg) k f" for k
    using rec [OF f] by (intro bind_agree) auto
  have map: "rd_bind (r' reg) (\<lambda>(k, reg1). rd_bind (r reg1) (j k)) f
      = rd_bind (r' reg) (\<lambda>(k, reg1). rd_bind (r' reg1) (j k)) f" for j
    using rec [OF f] shrinksD [OF s] f by (intro bind_agree) (fastforce intro!: bind_agree rec split: prod.split)+
  have tuple: "rd_bind read_short (\<lambda>n. rd_bind (reg_times (nat n) r reg) k) f
      = rd_bind read_short (\<lambda>n. rd_bind (reg_times (nat n) r' reg) k) f" for k
    using f by (intro bind_agree) (auto intro!: times dest!: shrinksD [OF shrinks_read(1)])
  have udt: "rd_bind read_string (\<lambda>ks. rd_bind read_string (\<lambda>u. rd_bind read_short (\<lambda>n.
        rd_bind (reg_times (nat n) (udt_field r) reg) (k ks u)))) f
      = rd_bind read_string (\<lambda>ks. rd_bind read_string (\<lambda>u. rd_bind read_short (\<lambda>n.
        rd_bind (reg_times (nat n) (udt_field r') reg) (k ks u)))) f" for k
    using f by (intro bind_agree)
      (auto intro!: field dest!: shrinksD [OF shrinks_read(1)] shrinksD [OF shrinks_read(2)])
  show ?thesis unfolding read_class_type_def by (simp add: list map tuple udt)
qed

lemma read_type_step_agree:
  assumes "agree n r r'" "\<And>reg. shrinks (r' reg)" "length f \<le> Suc n"
  shows "read_type_step r reg f = read_type_step r' reg f"
  unfolding read_type_step_def
proof (rule bind_agree, rule refl)
  fix optid g
  assume "read_short f = Inr (optid, g)"
  with read_short_consumes assms(3) have "length g \<le> n" by fastforce
  from read_class_type_agree [OF assms(1, 2) this]
  show "(case map_of type_codes optid of None \<Rightarrow> rd_fail NotSupportedError
     | Some CustomCode \<Rightarrow> rd_bind read_string (\<lambda>classname. rd_lift (lookup_casstype classname reg))
     | Some (ClassCode c) \<Rightarrow> read_class_type r c reg) g
    = (case map_of type_codes optid of None \<Rightarrow> rd_fail NotSupportedError
     | Some CustomCode \<Rightarrow> rd_bind read_string (\<lambda>classname. rd_lift (lookup_casstype classname reg))
     | Some (ClassCode c) \<Rightarrow> read_class_type r' c reg) g"
    by (simp split: option.split type_code.split)
qed

lemma read_type_fuel_enough: "length f \<le> n \<Longrightarrow> read_type_fuel n reg f = read_type reg f"
proof (induction n arbitrary: reg f rule: less_induct)
  case (less n)
  show ?case
  proof (cases "length f = n")
    case False
    with less.prems obtain m where m: "n = Suc m" "length f \<le> m" by (cases n) auto
    have "read_type_step (read_type_fuel m) reg f = read_type_fuel m reg f"
    proof (cases m)
      case 0
      with m have "f = []" by simp
      then show ?thesis
        by (simp add: 0 read_type_step_def read_short_def rd_bind_def rd_read_def uint16_unpack_def unpack_unsigned_def)
    next
      case (Suc l)
      have "read_type_fuel m reg g = read_type_fuel l reg g" if "length g \<le> l" for reg g
        using less.IH [of m g reg] less.IH [of l g reg] that m Suc by simp
      then have "agree l (read_type_fuel m) (read_type_fuel l)" by (simp add: agree_def)
      from read_type_step_agree [OF this shrinks_type_fuel] m Suc show ?thesis by simp
    qed
    with less.IH [of m f reg] m show ?thesis by simp
  qed (simp add: read_type_def)
qed

text \<open>\<open>read_type\<close> satisfies the recursive equation of the source, without fuel.\<close>

lemma read_type_unfold: "read_type reg f = read_type_step read_type reg f"
proof -
  have "agree (length f) (read_type_fuel (length f)) read_type"
    by (simp add: agree_def read_type_fuel_enough)
  moreover have "shrinks (read_type reg)" for reg
    using shrinks_type_fuel by (auto simp: shrinks_def read_type_def)
  ultimately have "read_type_step (read_type_fuel (length f)) reg f = read_type_step read_type reg f"
    by (rule read_type_step_agree) simp
  with read_type_fuel_enough [of f "Suc (length f)"] show ?thesis by simp
qed

section \<open>What a server sends: types\<close>

text \<open>
  Writers after the native protocol specification. A type is sent as its code, followed by its
  parameters.
\<close>

definition class_code :: "tclass \<Rightarrow> int option" where
  "class_code c = map_of (map (\<lambda>(n, k). (k, n)) type_codes) (ClassCode c)"

definition put_string :: "ptext \<Rightarrow> bytes res" where
  "put_string s = write_string (PyText s)"

definition put_code :: "tclass \<Rightarrow> bytes res" where
  "put_code c = (case class_code c of Some n \<Rightarrow> write_short n | None \<Rightarrow> Inl OutOfModel)"

fun names_of :: "ctype \<Rightarrow> ptext list" where
  "names_of (CType c subs names u) = (case names of Some ns \<Rightarrow> map the ns | None \<Rightarrow> [])"

function put_type :: "ctype \<Rightarrow> bytes res" where
  "put_type (CType c subs names u) =
     (let encs = map (\<lambda>s. put_type s) subs
      in wr_seq (put_code c #
        (if c = TupleType then write_short (int (length subs)) # encs
         else if c = UserType
         then [put_string (fst (the u)), put_string (snd (the u)), write_short (int (length subs))]
              @ map (\<lambda>(n, e). wr_seq [put_string n, e]) (zip (names_of (CType c subs names u)) encs)
         else encs)))"
  by pat_completeness auto
termination
  by (relation "measure size") (auto simp: less_Suc_eq_le size_list_estimation' intro: trans_le_add1)

declare put_type.simps [simp del]

text \<open>The types that have such a form, as \<open>read_type\<close> represents them.\<close>

function sendable :: "ctype \<Rightarrow> bool" where
  "sendable (CType c subs names u) =
     (list_all id (map (\<lambda>s. sendable s) subs) \<and>
      (if c = UserType
       then subs \<noteq> [] \<and> u \<noteq> None \<and> (\<exists>ns. names = Some (map Some ns) \<and> length ns = length subs)
       else names = None \<and> u = None \<and>
            (if c = ListType \<or> c = SetType then length subs = 1
             else if c = MapType then length subs = 2
             else if c = TupleType then True
             else subs = [])))"
  by pat_completeness auto
termination
  by (relation "measure size") (auto simp: less_Suc_eq_le size_list_estimation' intro: trans_le_add1)

declare sendable.simps [simp del]

lemma distinct_type_codes: "distinct (map fst type_codes)"
  by (simp add: type_codes_def)

lemma class_code_type: "class_code c = Some n \<Longrightarrow> map_of type_codes n = Some (ClassCode c)"
  by (rule map_of_is_SomeI [OF distinct_type_codes]) (auto simp: class_code_def dest!: map_of_SomeD)

lemma read_put_code:
  assumes "put_code c = Inr bs"
  shows "read_type reg (bs @ rest) = read_class_type read_type c reg rest"
proof -
  from assms obtain n where "class_code c = Some n" "write_short n = Inr bs"
    by (auto simp: put_code_def split: option.splits)
  then show ?thesis by (simp add: read_type_unfold [of reg "bs @ rest"] read_type_step_def short.read class_code_type)
qed

interpretation str: wire put_string read_string "\<lambda>s. s"
  using string.wire_axioms by (simp add: put_string_def [abs_def])

text \<open>What a reader that changes the registry gives on what a writer wrote.\<close>

definition reg_reads :: "'a reg_reader \<Rightarrow> bytes \<Rightarrow> 'a \<Rightarrow> bool" where
  "reg_reads r bs x \<longleftrightarrow> (\<forall>reg rest. \<exists>reg'. r reg (bs @ rest) = Inr ((x, reg'), rest))"

lemma reg_readsE:
  assumes "reg_reads r bs x"
  obtains reg' where "r reg (bs @ rest) = Inr ((x, reg'), rest)"
  using assms by (auto simp: reg_reads_def)

lemma reg_times_reads:
  assumes "wr_seq ws = Inr bs" "list_all2 (\<lambda>w x. \<forall>b. w = Inr b \<longrightarrow> reg_reads r b x) ws xs"
  shows "reg_reads (reg_times (length xs) r) bs xs"
  using assms(2, 1)
proof (induction arbitrary: bs rule: list_all2_induct)
  case (Cons w ws x xs)
  then obtain b c where b: "w = Inr b" "wr_seq ws = Inr c" "bs = b @ c" by (auto simp: res_bind_Inr_iff)
  show ?case unfolding reg_reads_def
  proof (intro allI)
    fix reg rest
    from Cons.hyps b obtain reg1 where 1: "r reg (b @ c @ rest) = Inr ((x, reg1), c @ rest)"
      by (metis reg_readsE)
    from Cons.IH [OF b(2)] obtain reg2 where "reg_times (length xs) r reg1 (c @ rest) = Inr ((xs, reg2), rest)"
      by (rule reg_readsE)
    with 1 show "\<exists>reg'. reg_times (length (x # xs)) r reg (bs @ rest) = Inr ((x # xs, reg'), rest)"
      by (simp add: b(3) rd_bind_def)
  qed
qed (simp add: reg_reads_def)

lemma apply_parameters_reads:
  assumes "case num_subtypes c of Exactly n \<Rightarrow> length subs = n | AnyNumber \<Rightarrow> True"
  shows "\<exists>reg'. reg_lift (apply_parameters (plain c) subs None reg) f = Inr ((CType c subs None None, reg'), f)"
  using assms by (auto simp: apply_parameters_def Let_def reg_lift_def split: arity.splits)

lemma make_udt_class_reads:
  assumes "length ns = length subs"
  shows "\<exists>reg'. reg_lift (make_udt_class ks name ns subs reg) f
    = Inr ((CType UserType subs (Some (map Some ns)) (Some (ks, name)), reg'), f)"
  using assms by (auto simp: make_udt_class_def Let_def reg_lift_def)

lemma put_subtypes_read:
  assumes "\<And>s b. s \<in> set subs \<Longrightarrow> put_type s = Inr b \<Longrightarrow> reg_reads read_type b s"
    and "wr_seq (map put_type subs) = Inr bs"
  shows "reg_reads (reg_times (length subs) read_type) bs subs"
  using assms(1) by (intro reg_times_reads [OF assms(2)]) (auto simp: list_all2_conv_all_nth)

lemma put_fields_read:
  assumes "\<And>s b. s \<in> set subs \<Longrightarrow> put_type s = Inr b \<Longrightarrow> reg_reads read_type b s" "length ns = length subs"
    and "wr_seq (map (\<lambda>(n, e). wr_seq [put_string n, e]) (zip ns (map put_type subs))) = Inr bs"
  shows "reg_reads (reg_times (length (zip ns subs)) (udt_field read_type)) bs (zip ns subs)"
proof (rule reg_times_reads [OF assms(3)], unfold list_all2_conv_all_nth, intro conjI allI impI)
  fix i b
  assume i: "i < length (map (\<lambda>(n, e). wr_seq [put_string n, e]) (zip ns (map put_type subs)))"
    and "map (\<lambda>(n, e). wr_seq [put_string n, e]) (zip ns (map put_type subs)) ! i = Inr b"
  with assms(2) have "i < length subs" "wr_seq [put_string (ns ! i), put_type (subs ! i)] = Inr b" by auto
  then obtain n e where e: "put_string (ns ! i) = Inr n" "put_type (subs ! i) = Inr e" "b = n @ e"
    by (auto simp: res_bind_Inr_iff)
  have "subs ! i \<in> set subs" using \<open>i < length subs\<close> by simp
  note reads = assms(1) [OF this e(2)]
  show "reg_reads (udt_field read_type) b (zip ns subs ! i)" unfolding reg_reads_def
  proof (intro allI)
    fix reg rest
    from reads obtain reg' where "read_type reg (e @ rest) = Inr ((subs ! i, reg'), rest)" by (rule reg_readsE)
    then show "\<exists>reg'. udt_field read_type reg (b @ rest) = Inr ((zip ns subs ! i, reg'), rest)"
      using \<open>i < length subs\<close> assms(2) by (simp add: udt_field_def e(3) str.read [OF e(1)] rd_bind_Inr)
  qed
qed (use assms(2) in simp)

lemma simple_class_reads:
  assumes sub: "\<And>s b. s \<in> set subs \<Longrightarrow> put_type s = Inr b \<Longrightarrow> reg_reads read_type b s"
    and w: "wr_seq (map put_type subs) = Inr bs"
    and c: "sendable (CType c subs names u)" "c \<noteq> TupleType" "c \<noteq> UserType"
  shows "\<exists>reg'. read_class_type read_type c reg (bs @ rest) = Inr ((CType c subs names u, reg'), rest)"
proof -
  from c have n: "names = None" "u = None" by (auto simp: sendable.simps)
  consider "c = ListType \<or> c = SetType" | "c = MapType" | "c \<notin> {ListType, SetType, MapType}" by blast
  then show ?thesis
  proof cases
    case 1
    with c obtain s where s: "subs = [s]" by (auto simp: sendable.simps length_Suc_conv)
    with w have "put_type s = Inr bs" by (simp add: res_bind_Inr_iff)
    with sub s have "reg_reads read_type bs s" by simp
    then obtain reg1 where "read_type reg (bs @ rest) = Inr ((s, reg1), rest)" by (rule reg_readsE)
    with 1 apply_parameters_reads [where c = c and subs = "[s]" and reg = reg1 and f = rest] show ?thesis
      by (auto simp: read_class_type_def rd_bind_Inr n s)
  next
    case 2
    with c obtain k t where s: "subs = [k, t]" by (auto simp: sendable.simps numeral_2_eq_2 length_Suc_conv)
    with w obtain a b where ab: "put_type k = Inr a" "put_type t = Inr b" "bs = a @ b" by (auto simp: res_bind_Inr_iff)
    with sub s have "reg_reads read_type a k" "reg_reads read_type b t" by simp_all
    then obtain reg1 reg2 where "read_type reg (a @ b @ rest) = Inr ((k, reg1), b @ rest)"
        "read_type reg1 (b @ rest) = Inr ((t, reg2), rest)" by (metis reg_readsE)
    with 2 apply_parameters_reads [where c = c and subs = "[k, t]" and reg = reg2 and f = rest] show ?thesis
      by (auto simp: read_class_type_def rd_bind_Inr n s ab(3))
  next
    case 3
    with c w show ?thesis by (auto simp: read_class_type_def sendable.simps)
  qed
qed

lemma put_type_reads: "sendable t \<Longrightarrow> put_type t = Inr bs \<Longrightarrow> reg_reads read_type bs t"
proof (induction t arbitrary: bs)
  case (CType c subs names u)
  have sub: "reg_reads read_type b s" if "s \<in> set subs" "put_type s = Inr b" for s b
    using CType.IH [OF that(1) _ that(2)] CType.prems(1) that(1) by (auto simp: sendable.simps list_all_iff)
  from CType.prems(2) obtain h as where h: "put_code c = Inr h" "bs = h @ as"
    and as: "wr_seq (if c = TupleType then write_short (int (length subs)) # map put_type subs
         else if c = UserType
         then [put_string (fst (the u)), put_string (snd (the u)), write_short (int (length subs))]
              @ map (\<lambda>(n, e). wr_seq [put_string n, e]) (zip (names_of (CType c subs names u)) (map put_type subs))
         else map put_type subs) = Inr as"
    unfolding put_type.simps Let_def by (rule wr_seq_ConsE)
  show ?case unfolding reg_reads_def h(2) append_assoc read_put_code [OF h(1)]
  proof (intro allI)
    fix reg rest
    consider "c = TupleType" | "c = UserType" | "c \<noteq> TupleType" "c \<noteq> UserType" by blast
    then show "\<exists>reg'. read_class_type read_type c reg (as @ rest) = Inr ((CType c subs names u, reg'), rest)"
    proof cases
      case 1
      with as obtain n b where n: "write_short (int (length subs)) = Inr n" "as = n @ b"
        and b: "wr_seq (map put_type subs) = Inr b" by (auto simp: res_bind_Inr_iff)
      obtain reg1 where "reg_times (length subs) read_type reg (b @ rest) = Inr ((subs, reg1), rest)"
        by (rule reg_readsE [OF put_subtypes_read [OF sub b]])
      with 1 CType.prems(1) apply_parameters_reads [where c = TupleType and subs = subs and reg = reg1 and f = rest] show ?thesis
        by (simp add: read_class_type_def n(2) short.read [OF n(1)] rd_bind_Inr sendable.simps)
    next
      case 2
      with CType.prems(1) obtain ns ks name where u: "u = Some (ks, name)" "names = Some (map Some ns)"
        "length ns = length subs" "subs \<noteq> []" by (auto simp: sendable.simps)
      then have ns: "names_of (CType c subs names u) = ns" by (simp add: comp_def)
      from as [unfolded ns] 2 u obtain k m n b where w: "put_string ks = Inr k" "put_string name = Inr m"
        "write_short (int (length subs)) = Inr n" "as = k @ m @ n @ b"
        and b: "wr_seq (map (\<lambda>(n, e). wr_seq [put_string n, e]) (zip ns (map put_type subs))) = Inr b"
        by (auto simp: res_bind_Inr_iff)
      obtain reg1 where "reg_times (length (zip ns subs)) (udt_field read_type) reg (b @ rest) = Inr ((zip ns subs, reg1), rest)"
        by (rule reg_readsE [OF put_fields_read [OF sub u(3) b]])
      moreover have "zip ns subs \<noteq> []" using u by (cases ns; cases subs) auto
      ultimately show ?thesis using 2 u make_udt_class_reads [OF u(3), of ks name reg1 rest]
        by (simp add: read_class_type_def w(4) str.read [OF w(1)] str.read [OF w(2)] short.read [OF w(3)] rd_bind_Inr)
    next
      case 3
      with as have "wr_seq (map put_type subs) = Inr as" by simp
      from simple_class_reads [OF sub this] CType.prems(1) 3 show ?thesis by simp
    qed
  qed
qed

section \<open>What a server sends: metadata and rows\<close>

definition put_table_spec :: "table_spec \<Rightarrow> bytes res" where
  "put_table_spec spec = (case spec of GlobalSpec ks cf \<Rightarrow> wr_seq [put_string ks, put_string cf] | ColumnSpec \<Rightarrow> Inr [])"

definition put_column :: "table_spec \<Rightarrow> column \<Rightarrow> bytes res" where
  "put_column spec = (\<lambda>(ks, cf, name, t).
     wr_seq [if spec = ColumnSpec then wr_seq [put_string ks, put_string cf] else Inr [], put_string name, put_type t])"

definition put_columns :: "table_spec \<Rightarrow> column list \<Rightarrow> bytes res" where
  "put_columns spec cols = wr_seq [put_table_spec spec, wr_seq (map (put_column spec) cols)]"

definition column_ok :: "table_spec \<Rightarrow> column \<Rightarrow> bool" where
  "column_ok spec = (\<lambda>(ks, cf, name, t). sendable t \<and> (spec = ColumnSpec \<or> spec = GlobalSpec ks cf))"

record server_metadata =
  sm_spec :: table_spec
  sm_columns :: "column list"
  sm_paging_state :: "bytes option"
  sm_metadata_id :: "bytes option"
  sm_no_metadata :: bool

definition metadata_flags :: "server_metadata \<Rightarrow> int" where
  "metadata_flags m = (if sm_spec m = ColumnSpec then 0 else 1) OR (if sm_paging_state m = None then 0 else 2)
     OR (if sm_no_metadata m then 4 else 0) OR (if sm_metadata_id m = None then 0 else 8)"

definition put_metadata :: "server_metadata \<Rightarrow> bytes res" where
  "put_metadata m = wr_seq
     [write_int (metadata_flags m),
      write_int (int (length (sm_columns m))),
      write_if (sm_paging_state m \<noteq> None) (\<lambda>bs. write_longstring (PyBytes bs)) (sm_paging_state m),
      write_if (sm_metadata_id m \<noteq> None) (\<lambda>bs. write_string (PyBytes bs)) (sm_metadata_id m),
      if sm_no_metadata m then Inr [] else put_columns (sm_spec m) (sm_columns m)]"

lemma metadata_flags_bits:
  "metadata_flags m AND 1 \<noteq> 0 \<longleftrightarrow> sm_spec m \<noteq> ColumnSpec" "metadata_flags m AND 2 \<noteq> 0 \<longleftrightarrow> sm_paging_state m \<noteq> None"
  "metadata_flags m AND 4 \<noteq> 0 \<longleftrightarrow> sm_no_metadata m" "metadata_flags m AND 8 \<noteq> 0 \<longleftrightarrow> sm_metadata_id m \<noteq> None"
  by (auto simp: metadata_flags_def)

interpretation raw: wire "\<lambda>bs. write_string (PyBytes bs)" read_binary_string "\<lambda>bs. bs"
  using binary_string.rd_wr by unfold_locales fastforce

lemma put_table_spec_reads:
  assumes "put_table_spec spec = Inr bs" "flags AND 1 \<noteq> 0 \<longleftrightarrow> spec \<noteq> ColumnSpec"
  shows "rd_bind (read_table_spec flags) k (bs @ rest) = k spec rest"
  using assms
  by (auto simp: put_table_spec_def read_table_spec_def res_bind_Inr_iff str.rd_wr rd_bind_def split: table_spec.splits)

lemma put_column_reads:
  assumes "column_ok spec col" "put_column spec col = Inr bs"
  shows "reg_reads (read_column spec) bs col"
  unfolding reg_reads_def
proof (intro allI)
  fix reg rest
  obtain ks cf name t where col: "col = (ks, cf, name, t)" by (cases col)
  with assms obtain a n b where w: "(if spec = ColumnSpec then wr_seq [put_string ks, put_string cf] else Inr []) = Inr a"
      "put_string name = Inr n" "put_type t = Inr b" "bs = a @ n @ b" and ok: "sendable t" "spec = ColumnSpec \<or> spec = GlobalSpec ks cf"
    by (auto simp: put_column_def column_ok_def res_bind_Inr_iff)
  obtain reg' where t: "read_type reg (b @ rest) = Inr ((t, reg'), rest)"
    by (rule reg_readsE [OF put_type_reads [OF ok(1) w(3)]])
  have spec: "rd_bind (case spec of GlobalSpec ksname cfname \<Rightarrow> rd_return (ksname, cfname)
       | ColumnSpec \<Rightarrow> read_pair read_string read_string) k (a @ f) = k (ks, cf) f" for k f
    using w(1) ok(2) by (auto simp: read_pair_def res_bind_Inr_iff str.rd_wr rd_bind_def)
  show "\<exists>reg'. read_column spec reg (bs @ rest) = Inr ((col, reg'), rest)"
    by (simp add: read_column_def w(4) spec str.read [OF w(2)] rd_bind_Inr [of "read_type reg", OF t] col)
qed

lemma put_columns_reads:
  assumes "list_all (column_ok spec) cols" "wr_seq (map (put_column spec) cols) = Inr bs"
  shows "reg_reads (reg_times (length cols) (read_column spec)) bs cols"
  using assms(1) by (intro reg_times_reads [OF assms(2)])
    (auto simp: list_all2_conv_all_nth list_all_length intro: put_column_reads)

definition metadata_ok :: "server_metadata \<Rightarrow> bool" where
  "metadata_ok m \<longleftrightarrow> list_all (column_ok (sm_spec m)) (sm_columns m)"

definition metadata_view :: "server_metadata \<Rightarrow> bytes option \<times> column list \<times> bytes option" where
  "metadata_view m = (sm_paging_state m, if sm_no_metadata m then [] else sm_columns m, sm_metadata_id m)"

lemma view_if_id: "view_if (x \<noteq> None) (\<lambda>y. y) x = x"
  by (cases x) (auto simp: view_if_def)

lemma put_metadata_reads:
  assumes "metadata_ok m" "put_metadata m = Inr bs"
  shows "reg_reads recv_results_metadata bs (metadata_view m)"
  unfolding reg_reads_def
proof (intro allI)
  fix reg rest
  from assms(2) obtain f n p i c where w: "write_int (metadata_flags m) = Inr f"
      "write_int (int (length (sm_columns m))) = Inr n"
      "write_if (sm_paging_state m \<noteq> None) (\<lambda>bs. write_longstring (PyBytes bs)) (sm_paging_state m) = Inr p"
      "write_if (sm_metadata_id m \<noteq> None) (\<lambda>bs. write_string (PyBytes bs)) (sm_metadata_id m) = Inr i"
      "(if sm_no_metadata m then Inr [] else put_columns (sm_spec m) (sm_columns m)) = Inr c" "bs = f @ n @ p @ i @ c"
    unfolding put_metadata_def by (force elim!: wr_seq_ConsE simp del: wr_seq.simps(2) not_None_eq)
  note head = int.read [OF w(1)] int.read [OF w(2)] metadata_flags_bits state.read_opt [OF w(3) set_imps(1)]
    raw.read_opt [OF w(4) set_imps(1)] view_if_id
  show "\<exists>reg'. recv_results_metadata reg (bs @ rest) = Inr ((metadata_view m, reg'), rest)"
  proof (cases "sm_no_metadata m")
    case True
    with w(5) show ?thesis
      unfolding recv_results_metadata_def w(6) append_assoc head by (simp add: metadata_view_def)
  next
    case False
    with w(5) obtain s b where s: "put_table_spec (sm_spec m) = Inr s" "c = s @ b"
        and b: "wr_seq (map (put_column (sm_spec m)) (sm_columns m)) = Inr b"
      by (auto simp: put_columns_def res_bind_Inr_iff)
    from assms(1) have "list_all (column_ok (sm_spec m)) (sm_columns m)" by (simp add: metadata_ok_def)
    from put_columns_reads [OF this b] obtain reg' where
      "reg_times (length (sm_columns m)) (read_column (sm_spec m)) reg (b @ rest) = Inr ((sm_columns m, reg'), rest)"
      by (rule reg_readsE)
    with False show ?thesis
      unfolding recv_results_metadata_def w(6) append_assoc head s(2)
      by (simp add: put_table_spec_reads [OF s(1) metadata_flags_bits(1)] metadata_view_def rd_bind_Inr)
  qed
qed

text \<open>A cell is null or the serialized value.\<close>

definition put_cell :: "int \<Rightarrow> ctype \<Rightarrow> pyval \<Rightarrow> bytes res" where
  "put_cell v t val =
     (if val = PNone then write_value NullValue else res_bind (to_binary t v val) (\<lambda>bs. write_value (Value bs)))"

definition put_row :: "int \<Rightarrow> ctype list \<Rightarrow> pyval list \<Rightarrow> bytes res" where
  "put_row v ts row = wr_seq (map (\<lambda>(t, val). put_cell v t val) (zip ts row))"

definition col_types :: "column list \<Rightarrow> ctype list" where
  "col_types = map (\<lambda>(_, _, _, t). t)"

definition put_rows :: "int \<Rightarrow> server_metadata \<Rightarrow> pyval list list \<Rightarrow> bytes res" where
  "put_rows v m rows = wr_seq
     [put_metadata m, write_int (int (length rows)), wr_seq (map (put_row v (col_types (sm_columns m))) rows)]"

definition row_ok :: "ctype list \<Rightarrow> pyval list \<Rightarrow> bool" where
  "row_ok ts row \<longleftrightarrow> list_all2 (\<lambda>t val. val = PNone \<or> typed True t val) ts row"

lemma put_cell_reads:
  assumes "put_cell v t val = Inr bs" "val = PNone \<or> typed True t val"
  shows "\<exists>b. read_value (bs @ rest) = Inr (b, rest) \<and> from_binary t v b = Inr val"
proof (cases "val = PNone")
  case True
  with assms(1) val.rd_wr [of NullValue bs rest] show ?thesis by (simp add: put_cell_def from_binary_def from_bin_def)
next
  case False
  with assms(1) obtain c where c: "serialize t v val = Inr c" "write_value (Value c) = Inr bs"
    by (auto simp: put_cell_def to_binary_def to_bin_def res_bind_Inr_iff)
  from False assms(2) have "from_binary t v (Some c) = Inr val" using reads_backD(1) [OF all_read_back _ c(1)] by blast
  with val.rd_wr [OF c(2), of rest] show ?thesis by simp
qed

lemma put_row_reads:
  assumes "put_row v ts row = Inr bs" "row_ok ts row"
  shows "\<exists>cells. rd_times (length ts) read_value (bs @ rest) = Inr (cells, rest)
    \<and> res_map (\<lambda>(t, val). from_binary t v val) (zip ts cells) = Inr row"
  using assms(2, 1) unfolding row_ok_def put_row_def
proof (induction arbitrary: bs rule: list_all2_induct)
  case (Cons t ts val row)
  then obtain a b where w: "put_cell v t val = Inr a" "wr_seq (map (\<lambda>(t, val). put_cell v t val) (zip ts row)) = Inr b" "bs = a @ b"
    by (auto simp: res_bind_Inr_iff)
  from put_cell_reads [OF w(1) Cons.hyps(1)] obtain c where "read_value (a @ b @ rest) = Inr (c, b @ rest)"
      "from_binary t v c = Inr val" by blast
  with Cons.IH [OF w(2)] show ?case by (auto simp: w(3) rd_bind_def)
qed simp

lemma put_all_rows_read:
  assumes "wr_seq (map (put_row v ts) rows) = Inr bs" "list_all (row_ok ts) rows"
  shows "\<exists>cells. rd_times (length rows) (rd_times (length ts) read_value) (bs @ rest) = Inr (cells, rest)
    \<and> res_map (\<lambda>row. res_map (\<lambda>(t, val). from_binary t v val) (zip ts row)) cells = Inr rows"
  using assms
proof (induction rows arbitrary: bs)
  case (Cons row rows)
  then obtain a b where w: "put_row v ts row = Inr a" "wr_seq (map (put_row v ts) rows) = Inr b" "bs = a @ b"
    by (auto simp: res_bind_Inr_iff)
  from put_row_reads [OF w(1), of "b @ rest"] Cons.prems(2) obtain c where
    "rd_times (length ts) read_value (a @ b @ rest) = Inr (c, b @ rest)"
    "res_map (\<lambda>(t, val). from_binary t v val) (zip ts c) = Inr row" by auto
  with Cons.IH [OF w(2)] Cons.prems(2) show ?case by (auto simp: w(3) rd_bind_def)
qed simp

definition result_columns :: "server_metadata \<Rightarrow> column list option" where
  "result_columns m = (if sm_no_metadata m then Some (sm_columns m) else None)"

definition rows_view :: "server_metadata \<Rightarrow> pyval list list \<Rightarrow> rows_result" where
  "rows_view m rows = rows_result.make (sm_paging_state m) (col_types (sm_columns m))
     (map (\<lambda>(_, _, n, _). n) (sm_columns m)) rows"

definition rows_ok :: "server_metadata \<Rightarrow> pyval list list \<Rightarrow> bool" where
  "rows_ok m rows \<longleftrightarrow> metadata_ok m \<and> sm_columns m \<noteq> [] \<and> list_all (row_ok (col_types (sm_columns m))) rows"

lemma put_rows_reads:
  assumes "rows_ok m rows" "put_rows v m rows = Inr bs"
    and cols: "(if sm_no_metadata m then cached_columns = Some (sm_columns m) else True)"
  shows "reg_reads (recv_results_rows v cached_columns) bs (rows_view m rows)"
  unfolding reg_reads_def
proof (intro allI)
  fix reg rest
  from assms(1) have ok: "metadata_ok m" "sm_columns m \<noteq> []" "list_all (row_ok (col_types (sm_columns m))) rows"
    by (simp_all add: rows_ok_def)
  from assms(2) obtain a n b where w: "put_metadata m = Inr a" "write_int (int (length rows)) = Inr n"
      "wr_seq (map (put_row v (col_types (sm_columns m))) rows) = Inr b" "bs = a @ n @ b"
    by (auto simp: put_rows_def res_bind_Inr_iff)
  obtain reg' where m: "recv_results_metadata reg (a @ n @ b @ rest) = Inr ((metadata_view m, reg'), n @ b @ rest)"
    by (rule reg_readsE [OF put_metadata_reads [OF ok(1) w(1)]])
  from put_all_rows_read [OF w(3) ok(3), of rest] obtain cells where
    c: "rd_times (length rows) (rd_times (length (col_types (sm_columns m))) read_value) (b @ rest) = Inr (cells, rest)"
      "res_map (\<lambda>row. res_map (\<lambda>(t, val). from_binary t v val) (zip (col_types (sm_columns m)) row)) cells = Inr rows"
    by blast
  have meta: "(if (if sm_no_metadata m then [] else sm_columns m) = [] then cached_columns
      else Some (if sm_no_metadata m then [] else sm_columns m)) = Some (sm_columns m)"
    using cols ok(2) by auto
  have len: "length (col_types (sm_columns m)) = length (sm_columns m)" by (simp add: col_types_def)
  have rows: "rd_bind (rd_times (length rows) (recv_row (int (length (sm_columns m))))) k (b @ rest) = k cells rest" for k
    using c(1) by (simp add: recv_row_def len rd_bind_Inr)
  have parse: "parse_rows v (map (\<lambda>(_, _, _, t). t) (sm_columns m)) cells = Inr rows"
    using c(2) by (simp add: parse_rows_def col_types_def)
  show "\<exists>reg'. recv_results_rows v cached_columns reg (bs @ rest) = Inr ((rows_view m rows, reg'), rest)"
    unfolding recv_results_rows_def w(4) append_assoc
    by (simp add: rd_bind_Inr [of "recv_results_metadata reg", OF m] metadata_view_def int.read [OF w(2)] meta rows
        Let_def parse rd_bind_Inr rows_view_def col_types_def del: if_split)
qed

record server_prepared =
  sp_query_id :: bytes
  sp_metadata_id :: "bytes option"
  sp_spec :: table_spec
  sp_columns :: "column list"
  sp_pk_indexes :: "int list"
  sp_result :: server_metadata

definition put_prepared :: "int \<Rightarrow> server_prepared \<Rightarrow> bytes res" where
  "put_prepared v p = wr_seq
     [write_string (PyBytes (sp_query_id p)),
      write_if (v \<ge> 5) (\<lambda>bs. write_string (PyBytes bs)) (sp_metadata_id p),
      write_int (if sp_spec p = ColumnSpec then 0 else 1),
      write_int (int (length (sp_columns p))),
      write_if (v \<ge> 4) (\<lambda>ix. wr_seq (write_int (int (length ix)) # map write_short ix)) (Some (sp_pk_indexes p)),
      put_table_spec (sp_spec p),
      wr_seq (map (put_column (sp_spec p)) (sp_columns p)),
      write_if (v \<ge> 2) put_metadata (Some (sp_result p))]"

definition prepared_ok :: "int \<Rightarrow> server_prepared \<Rightarrow> bool" where
  "prepared_ok v p \<longleftrightarrow> list_all (column_ok (sp_spec p)) (sp_columns p) \<and> metadata_ok (sp_result p)
     \<and> (v \<ge> 5 \<longrightarrow> sp_metadata_id p \<noteq> None)"

definition prepared_view :: "int \<Rightarrow> server_prepared \<Rightarrow> prepared" where
  "prepared_view v p = prepared.make (sp_query_id p) (sp_columns p)
     (if v \<ge> 4 then Some (sp_pk_indexes p) else None)
     (if v \<ge> 2 then Some (if sm_no_metadata (sp_result p) then [] else sm_columns (sp_result p)) else None)
     (if v \<ge> 5 then sp_metadata_id p else None)"

interpretation pk: wire "\<lambda>ix. wr_seq (write_int (int (length ix)) # map write_short ix)"
  "rd_bind read_int (\<lambda>n. rd_times (nat n) read_short)" "\<lambda>ix. ix"
proof
  fix ix bs rest
  assume "wr_seq (write_int (int (length ix)) # map write_short ix) = Inr bs"
  then obtain n b where "write_int (int (length ix)) = Inr n" "wr_seq (map write_short ix) = Inr b" "bs = n @ b"
    by (auto simp: res_bind_Inr_iff)
  then show "rd_bind read_int (\<lambda>n. rd_times (nat n) read_short) (bs @ rest) = Inr (ix, rest)"
    by (simp add: int.read short.times)
qed

lemma put_result_metadata_reads:
  assumes "metadata_ok m" "write_if (v \<ge> 2) put_metadata (Some m) = Inr bs"
  shows "\<exists>reg'. (if v \<ge> (2::int)
       then rd_bind (recv_results_metadata reg) (\<lambda>((_, result_metadata, _), reg2).
              rd_return ((cols, ix, Some result_metadata), reg2))
       else rd_return ((cols, ix, None), reg)) (bs @ rest)
    = Inr (((cols, ix, if v \<ge> 2 then Some (if sm_no_metadata m then [] else sm_columns m) else None), reg'), rest)"
proof (cases "v \<ge> 2")
  case True
  with assms(2) have "put_metadata m = Inr bs" by (simp add: write_if_def)
  then obtain reg' where "recv_results_metadata reg (bs @ rest) = Inr ((metadata_view m, reg'), rest)"
    by (rule reg_readsE [OF put_metadata_reads [OF assms(1)]])
  with True show ?thesis by (simp add: rd_bind_Inr metadata_view_def)
qed (use assms(2) in \<open>simp add: write_if_def\<close>)

lemma put_prepared_reads:
  assumes "prepared_ok v p" "put_prepared v p = Inr bs"
  shows "reg_reads (recv_results_prepared v) bs (prepared_view v p)"
  unfolding reg_reads_def
proof (intro allI)
  fix reg rest
  let ?flags = "if sp_spec p = ColumnSpec then 0 else (1 :: int)"
  from assms(2) obtain q i f n x s c m where w: "write_string (PyBytes (sp_query_id p)) = Inr q"
      "write_if (v \<ge> 5) (\<lambda>bs. write_string (PyBytes bs)) (sp_metadata_id p) = Inr i"
      "write_int ?flags = Inr f" "write_int (int (length (sp_columns p))) = Inr n"
      "write_if (v \<ge> 4) (\<lambda>ix. wr_seq (write_int (int (length ix)) # map write_short ix)) (Some (sp_pk_indexes p)) = Inr x"
      "put_table_spec (sp_spec p) = Inr s" "wr_seq (map (put_column (sp_spec p)) (sp_columns p)) = Inr c"
      "write_if (v \<ge> 2) put_metadata (Some (sp_result p)) = Inr m" and bs: "bs = q @ i @ f @ n @ x @ s @ c @ m"
    unfolding put_prepared_def by (force elim!: wr_seq_ConsE simp del: wr_seq.simps(2))
  from assms(1) have ok: "list_all (column_ok (sp_spec p)) (sp_columns p)" "metadata_ok (sp_result p)"
      "v \<ge> 5 \<longrightarrow> sp_metadata_id p \<noteq> None" by (simp_all add: prepared_ok_def)
  have flags: "?flags AND 1 \<noteq> 0 \<longleftrightarrow> sp_spec p \<noteq> ColumnSpec" by simp
  obtain reg1 where cols: "reg_times (length (sp_columns p)) (read_column (sp_spec p)) reg (c @ m @ rest)
      = Inr ((sp_columns p, reg1), m @ rest)"
    by (rule reg_readsE [OF put_columns_reads [OF ok(1) w(7)]])
  let ?ix = "view_if (v \<ge> 4) (\<lambda>ix. ix) (Some (sp_pk_indexes p))"
  let ?res = "if v \<ge> 2 then Some (if sm_no_metadata (sp_result p) then [] else sm_columns (sp_result p)) else None"
  obtain reg2 where res: "(if v \<ge> 2
       then rd_bind (recv_results_metadata reg1) (\<lambda>((_, result_metadata, _), reg2).
              rd_return ((sp_columns p, ?ix, Some result_metadata), reg2))
       else rd_return ((sp_columns p, ?ix, None), reg1)) (m @ rest) = Inr (((sp_columns p, ?ix, ?res), reg2), rest)"
    by (rule exE [OF put_result_metadata_reads [OF ok(2) w(8)]])
  have "recv_prepared_metadata v reg (f @ n @ x @ s @ c @ m @ rest) = Inr (((sp_columns p, ?ix, ?res), reg2), rest)"
    unfolding recv_prepared_metadata_def int.read [OF w(3)] int.read [OF w(4)] pk.read_opt [OF w(5) set_imps(3)]
      put_table_spec_reads [OF w(6) flags] nat_int rd_bind_Inr [of "reg_times _ _ reg", OF cols] prod.case res by (rule refl)
  then show "\<exists>reg'. recv_results_prepared v reg (bs @ rest) = Inr ((prepared_view v p, reg'), rest)"
    unfolding recv_results_prepared_def bs append_assoc raw.read [OF w(1)] uses_prepared_metadata_def raw.read_opt [OF w(2) ok(3)]
    by (cases "sp_metadata_id p") (simp_all add: rd_bind_Inr prepared_view_def view_if_def)
qed

section \<open>What a server sends: errors and events\<close>

fun write_type_name :: "write_type \<Rightarrow> string" where
  "write_type_name SIMPLE = ''SIMPLE''"
| "write_type_name BATCH = ''BATCH''"
| "write_type_name UNLOGGED_BATCH = ''UNLOGGED_BATCH''"
| "write_type_name COUNTER = ''COUNTER''"
| "write_type_name BATCH_LOG = ''BATCH_LOG''"
| "write_type_name CAS = ''CAS''"
| "write_type_name VIEW = ''VIEW''"
| "write_type_name CDC = ''CDC''"

definition put_write_type :: "write_type \<Rightarrow> bytes res" where
  "put_write_type w = put_string (text_of (write_type_name w))"

definition put_bool :: "bool \<Rightarrow> bytes res" where
  "put_bool b = write_byte (if b then 1 else 0)"

definition put_inet_addr :: "bytes \<Rightarrow> bytes res" where
  "put_inet_addr a =
     (if length a = 4 \<or> length a = 16 then wr_seq [write_byte (int (length a)), Inr a] else Inl OSError)"

fun put_failures :: "failures \<Rightarrow> bytes res" where
  "put_failures (FailureCount n) = write_int n"
| "put_failures (FailureMap m) = wr_seq (write_int (int (length m)) # map (write_pair put_inet_addr write_short) m)"

fun put_error_info :: "error_info \<Rightarrow> bytes res" where
  "put_error_info NoInfo = Inr []"
| "put_error_info (UnavailableInfo cl m n) = wr_seq [write_short cl, write_int m, write_int n]"
| "put_error_info (WriteTimeoutInfo cl m n w) = wr_seq [write_short cl, write_int m, write_int n, put_write_type w]"
| "put_error_info (ReadTimeoutInfo cl m n b) = wr_seq [write_short cl, write_int m, write_int n, put_bool b]"
| "put_error_info (ReadFailureInfo cl m n fs b) = wr_seq [write_short cl, write_int m, write_int n, put_failures fs, put_bool b]"
| "put_error_info (WriteFailureInfo cl m n fs w) =
     wr_seq [write_short cl, write_int m, write_int n, put_failures fs, put_write_type w]"
| "put_error_info (FunctionFailureInfo ks fn args) =
     wr_seq [put_string ks, put_string fn, wr_seq (write_short (int (length args)) # map put_string args)]"
| "put_error_info (PreparedQueryNotFoundInfo qid) = write_string (PyBytes qid)"
| "put_error_info (AlreadyExistsInfo ks tbl) = wr_seq [put_string ks, put_string tbl]"

text \<open>The information belongs to the class of the error, and lists each failed replica once.\<close>

fun failures_ok :: "int \<Rightarrow> failures \<Rightarrow> bool" where
  "failures_ok v (FailureCount n) = (v < 5)"
| "failures_ok v (FailureMap m) = (v \<ge> 5 \<and> distinct (map fst m))"

fun info_ok :: "int \<Rightarrow> error_class \<Rightarrow> error_info \<Rightarrow> bool" where
  "info_ok v UnavailableErrorMessage info = (\<exists>cl m n. info = UnavailableInfo cl m n)"
| "info_ok v WriteTimeoutErrorMessage info = (\<exists>cl m n w. info = WriteTimeoutInfo cl m n w)"
| "info_ok v ReadTimeoutErrorMessage info = (\<exists>cl m n b. info = ReadTimeoutInfo cl m n b)"
| "info_ok v ReadFailureMessage info = (\<exists>cl m n fs b. info = ReadFailureInfo cl m n fs b \<and> failures_ok v fs)"
| "info_ok v WriteFailureMessage info = (\<exists>cl m n fs w. info = WriteFailureInfo cl m n fs w \<and> failures_ok v fs)"
| "info_ok v FunctionFailureMessage info = (\<exists>ks fn args. info = FunctionFailureInfo ks fn args)"
| "info_ok v PreparedQueryNotFound info = (\<exists>qid. info = PreparedQueryNotFoundInfo qid)"
| "info_ok v AlreadyExistsException info = (\<exists>ks tbl. info = AlreadyExistsInfo ks tbl)"
| "info_ok v _ info = (info = NoInfo)"

lemma text_of_ascii: "list_all (\<lambda>c. c < 128) (text_of s) \<Longrightarrow> map char_of (text_of s) = s"
  by (simp add: text_of_def comp_def)

interpretation wtype: wire put_write_type read_write_type "\<lambda>w. w"
proof
  fix w bs rest
  assume "put_write_type w = Inr bs"
  then have *: "put_string (text_of (write_type_name w)) = Inr bs" by (simp add: put_write_type_def)
  have ascii: "list_all (\<lambda>c. c < 128) (text_of (write_type_name w))" by (cases w) (simp_all add: text_of_def)
  have "write_type_of_name (map char_of (text_of (write_type_name w))) = Some w"
    unfolding text_of_ascii [OF ascii] by (cases w) (simp_all add: write_type_of_name_def)
  with ascii show "read_write_type (bs @ rest) = Inr (w, rest)"
    by (simp add: read_write_type_def str.read [OF *])
qed

interpretation bool: wire put_bool read_bool "\<lambda>b. b"
  by unfold_locales (auto simp: put_bool_def read_bool_def byte.read)

interpretation addr: wire put_inet_addr read_inet_addr_only "\<lambda>a. a"
proof
  fix a bs rest
  assume "put_inet_addr a = Inr bs"
  then obtain b where "write_byte (int (length a)) = Inr b" "bs = b @ a" "length a = 4 \<or> length a = 16"
    by (auto simp: put_inet_addr_def res_bind_Inr_iff split: if_splits)
  then show "read_inet_addr_only (bs @ rest) = Inr (a, rest)"
    by (auto simp: read_inet_addr_only_def rd_bind_def rd_read_append byte.rd_wr)
qed

lemma put_failures_reads:
  assumes "put_failures fs = Inr bs" "failures_ok v fs"
  shows "rd_bind (read_failures v) k (bs @ rest) = k fs rest"
proof (cases fs)
  case (FailureCount n)
  with assms show ?thesis by (simp add: read_failures_def version_defs rd_bind_def int.rd_wr)
next
  case (FailureMap m)
  with assms(1) obtain n b where w: "write_int (int (length m)) = Inr n"
      "wr_seq (map (write_pair put_inet_addr write_short) m) = Inr b" "bs = n @ b" by (auto simp: res_bind_Inr_iff)
  have "wire (write_pair put_inet_addr write_short) (read_pair read_inet_addr_only read_short) (\<lambda>kv. (fst kv, snd kv))"
    by unfold_locales (rule addr.pair [OF short.wire_axioms])
  from wire.times [OF this w(2), of rest] have "rd_times (length m) (read_pair read_inet_addr_only read_short) (b @ rest) = Inr (m, rest)"
    by simp
  then have "read_error_code_map (bs @ rest) = Inr (dict_of m, rest)"
    by (simp add: read_error_code_map_def w(3) int.read [OF w(1)] rd_bind_Inr)
  with FailureMap assms(2) show ?thesis by (simp add: read_failures_def version_defs rd_bind_def dict_of_distinct)
qed

lemma read_counts_reads:
  assumes "write_short cl = Inr a" "write_int m = Inr b" "write_int n = Inr c"
  shows "read_counts k (a @ b @ c @ rest) = k cl m n rest"
  using assms by (simp add: read_counts_def read_consistency_level_def short.read int.read)

lemma put_error_info_reads:
  assumes "info_ok v c info" "put_error_info info = Inr bs"
  shows "recv_error_info c v (bs @ rest) = Inr (info, rest)"
  using assms
  by (cases c) (auto simp: res_bind_Inr_iff read_counts_reads wtype.read bool.read put_failures_reads str.read raw.read
      short.read str.times rd_bind_Inr)

fun target_ok :: "int \<Rightarrow> schema_change \<Rightarrow> bool" where
  "target_ok v c =
     (case sc_target c of
        KeyspaceTarget \<Rightarrow> sc_target_type c = text_of ''KEYSPACE''
      | FunctionTarget n args \<Rightarrow> v \<ge> 3 \<and> sc_target_type c = text_of ''FUNCTION''
      | AggregateTarget n args \<Rightarrow> v \<ge> 3 \<and> sc_target_type c = text_of ''AGGREGATE''
      | NamedTarget n \<Rightarrow>
          if v \<ge> 3 then sc_target_type c \<notin> {text_of ''KEYSPACE'', text_of ''FUNCTION'', text_of ''AGGREGATE''}
          else sc_target_type c = text_of ''TABLE'' \<and> n \<noteq> [])"

fun put_target :: "schema_target \<Rightarrow> bytes res" where
  "put_target KeyspaceTarget = Inr []"
| "put_target (FunctionTarget n args) = wr_seq [put_string n, wr_seq (write_short (int (length args)) # map put_string args)]"
| "put_target (AggregateTarget n args) = wr_seq [put_string n, wr_seq (write_short (int (length args)) # map put_string args)]"
| "put_target (NamedTarget n) = put_string n"

definition put_schema_change :: "int \<Rightarrow> schema_change \<Rightarrow> bytes res" where
  "put_schema_change v c = wr_seq (put_string (sc_change_type c) #
     (if v \<ge> 3 then [put_string (sc_target_type c), put_string (sc_keyspace c), put_target (sc_target c)]
      else [put_string (sc_keyspace c), put_string (case sc_target c of NamedTarget n \<Rightarrow> n | _ \<Rightarrow> [])]))"

lemma signature_reads:
  assumes "wr_seq (write_short (int (length args)) # map put_string args) = Inr bs"
  shows "rd_bind read_signature k (bs @ rest) = k args rest"
  using str.counted [OF assms, of rest] by (simp add: read_signature_def rd_bind_def)

lemma targets_distinct:
  "text_of ''KEYSPACE'' \<noteq> text_of ''FUNCTION''" "text_of ''KEYSPACE'' \<noteq> text_of ''AGGREGATE''"
  "text_of ''FUNCTION'' \<noteq> text_of ''AGGREGATE''"
  by (simp_all add: text_of_def)

lemma put_schema_change_reads:
  assumes "target_ok v c" "put_schema_change v c = Inr bs"
  shows "recv_schema_change v (bs @ rest) = Inr (c, rest)"
proof -
  obtain ty ch ks tg where c: "c = schema_change.make ty ch ks tg" by (cases c) (simp add: schema_change.make_def)
  show ?thesis
  proof (cases "v \<ge> 3")
    case True
    with assms(2) c obtain a t k g where w: "put_string ch = Inr a" "put_string ty = Inr t" "put_string ks = Inr k"
        "put_target tg = Inr g" "bs = a @ t @ k @ g"
      by (auto simp: put_schema_change_def schema_change.make_def res_bind_Inr_iff)
    note h = str.read [OF w(1)] str.read [OF w(2)] str.read [OF w(3)]
    show ?thesis
    proof (cases tg)
      case (FunctionTarget n args)
      with w(4) obtain p q where "put_string n = Inr p" "wr_seq (write_short (int (length args)) # map put_string args) = Inr q" "g = p @ q"
        by (auto simp: res_bind_Inr_iff)
      with True assms(1) c FunctionTarget targets_distinct show ?thesis
        by (simp add: recv_schema_change_def w(5) h str.read signature_reads schema_change.make_def)
    next
      case (AggregateTarget n args)
      with w(4) obtain p q where "put_string n = Inr p" "wr_seq (write_short (int (length args)) # map put_string args) = Inr q" "g = p @ q"
        by (auto simp: res_bind_Inr_iff)
      with True assms(1) c AggregateTarget targets_distinct show ?thesis
        by (simp add: recv_schema_change_def w(5) h str.read signature_reads schema_change.make_def)
    qed (use True assms(1) c w(4) in \<open>auto simp: recv_schema_change_def w(5) h str.read schema_change.make_def\<close>)
  next
    case False
    with assms(2) c obtain a k n where "put_string ch = Inr a" "put_string ks = Inr k"
        "put_string (case tg of NamedTarget n \<Rightarrow> n | _ \<Rightarrow> []) = Inr n" "bs = a @ k @ n"
      by (auto simp: put_schema_change_def schema_change.make_def res_bind_Inr_iff)
    with False assms(1) c show ?thesis
      by (cases tg) (auto simp: recv_schema_change_def str.read schema_change.make_def)
  qed
qed

section \<open>Every message is read as it was sent\<close>

definition event_name :: "event \<Rightarrow> ptext" where
  "event_name e = text_of (case e of TopologyChange _ _ \<Rightarrow> ''TOPOLOGY_CHANGE''
     | StatusChange _ _ \<Rightarrow> ''STATUS_CHANGE'' | SchemaChange _ \<Rightarrow> ''SCHEMA_CHANGE'')"

definition put_event :: "int \<Rightarrow> event \<Rightarrow> bytes res" where
  "put_event v e = wr_seq [put_string (event_name e),
     case e of TopologyChange c a \<Rightarrow> wr_seq [put_string c, write_inet a]
     | StatusChange c a \<Rightarrow> wr_seq [put_string c, write_inet a]
     | SchemaChange c \<Rightarrow> put_schema_change v c]"

fun event_ok :: "int \<Rightarrow> event \<Rightarrow> bool" where
  "event_ok v (SchemaChange c) = target_ok v c"
| "event_ok v _ = True"

lemma event_upper: "ascii_upper (event_name e) = Inr (event_name e)"
  by (cases e) (simp_all add: event_name_def ascii_upper_def text_of_def)

lemma event_names_distinct:
  "text_of ''TOPOLOGY_CHANGE'' \<noteq> text_of ''STATUS_CHANGE''" "text_of ''TOPOLOGY_CHANGE'' \<noteq> text_of ''SCHEMA_CHANGE''"
  "text_of ''STATUS_CHANGE'' \<noteq> text_of ''SCHEMA_CHANGE''"
  by (simp_all add: text_of_def)

lemma put_event_reads:
  assumes "event_ok v e" "put_event v e = Inr bs"
  shows "event_recv_body v (bs @ rest) = Inr (e, rest)"
proof -
  from assms(2) obtain n b where w: "put_string (event_name e) = Inr n" "bs = n @ b"
      "(case e of TopologyChange c a \<Rightarrow> wr_seq [put_string c, write_inet a]
        | StatusChange c a \<Rightarrow> wr_seq [put_string c, write_inet a] | SchemaChange c \<Rightarrow> put_schema_change v c) = Inr b"
    by (auto simp: put_event_def res_bind_Inr_iff)
  have up: "rd_bind (rd_lift (ascii_upper (event_name e))) k f = k (event_name e) f" for k :: "ptext \<Rightarrow> event reader" and f
    by (simp add: event_upper rd_bind_def)
  show ?thesis
    unfolding event_recv_body_def w(2) append_assoc str.read [OF w(1)] up
    using w(3) assms(1) put_schema_change_reads [of v _ b rest] event_names_distinct
    by (cases e) (auto simp: event_name_def recv_topology_change_def recv_status_change_def read_pair_def res_bind_Inr_iff
        str.read inet.read rd_bind_def str.rd_wr inet.rd_wr)
qed

datatype server_result =
    SVoid
  | SRows server_metadata "pyval list list"
  | SSetKeyspace ptext
  | SPrepared server_prepared
  | SSchemaChange schema_change

datatype server_response =
    SError int ptext error_info
  | SReady
  | SAuthenticate ptext
  | SSupported "(ptext \<times> ptext list) list"
  | SAuthChallenge bytes
  | SAuthSuccess ptext
  | SResult server_result
  | SEvent event

fun put_result :: "int \<Rightarrow> server_result \<Rightarrow> bytes res" where
  "put_result v SVoid = write_int 1"
| "put_result v (SRows m rows) = wr_seq [write_int 2, put_rows v m rows]"
| "put_result v (SSetKeyspace ks) = wr_seq [write_int 3, put_string ks]"
| "put_result v (SPrepared p) = wr_seq [write_int 4, put_prepared v p]"
| "put_result v (SSchemaChange c) = wr_seq [write_int 5, put_schema_change v c]"

fun put_response :: "int \<Rightarrow> server_response \<Rightarrow> bytes res" where
  "put_response v (SError code msg info) = wr_seq [write_int code, put_string msg, put_error_info info]"
| "put_response v SReady = Inr []"
| "put_response v (SAuthenticate a) = put_string a"
| "put_response v (SSupported m) = write_stringmultimap (map (\<lambda>(k, xs). (PyText k, map PyText xs)) m)"
| "put_response v (SAuthChallenge c) = write_longstring (PyBytes c)"
| "put_response v (SAuthSuccess s) = write_longstring (PyText s)"
| "put_response v (SResult r) = put_result v r"
| "put_response v (SEvent e) = put_event v e"

fun response_opcode :: "server_response \<Rightarrow> int" where
  "response_opcode (SError _ _ _) = 0x00"
| "response_opcode SReady = 0x02"
| "response_opcode (SAuthenticate _) = 0x03"
| "response_opcode (SSupported _) = 0x06"
| "response_opcode (SResult _) = 0x08"
| "response_opcode (SEvent _) = 0x0C"
| "response_opcode (SAuthChallenge _) = 0x0E"
| "response_opcode (SAuthSuccess _) = 0x10"

text \<open>
  \<open>cached_columns\<close> are the columns the client kept when it prepared the statement: a result
  without metadata is read with them.
\<close>

fun result_ok :: "int \<Rightarrow> column list option \<Rightarrow> server_result \<Rightarrow> bool" where
  "result_ok v cached_columns (SRows m rows) = (rows_ok m rows
     \<and> (if sm_no_metadata m then cached_columns = Some (sm_columns m) else True))"
| "result_ok v cached_columns (SPrepared p) = prepared_ok v p"
| "result_ok v cached_columns (SSchemaChange c) = target_ok v c"
| "result_ok v cached_columns _ = True"

fun response_ok :: "int \<Rightarrow> column list option \<Rightarrow> server_response \<Rightarrow> bool" where
  "response_ok v cached_columns (SError code msg info) = info_ok v (error_class_of code) info"
| "response_ok v cached_columns (SSupported m) = (distinct (map fst m) \<and> text_of ''CQL_VERSION'' \<in> set (map fst m))"
| "response_ok v cached_columns (SResult r) = result_ok v cached_columns r"
| "response_ok v cached_columns (SEvent e) = event_ok v e"
| "response_ok v cached_columns _ = True"

fun result_view :: "int \<Rightarrow> server_result \<Rightarrow> result" where
  "result_view v SVoid = VoidResult"
| "result_view v (SRows m rows) = RowsResult (rows_view m rows)"
| "result_view v (SSetKeyspace ks) = SetKeyspaceResult ks"
| "result_view v (SPrepared p) = PreparedResult (prepared_view v p)"
| "result_view v (SSchemaChange c) = SchemaChangeResult c"

fun response_view :: "int \<Rightarrow> server_response \<Rightarrow> response" where
  "response_view v (SError code msg info) = Error code msg info"
| "response_view v SReady = Ready"
| "response_view v (SAuthenticate a) = Authenticate a"
| "response_view v (SSupported m) =
     Supported (the (map_of m (text_of ''CQL_VERSION''))) (AList.delete (text_of ''CQL_VERSION'') m)"
| "response_view v (SAuthChallenge c) = AuthChallenge c"
| "response_view v (SAuthSuccess s) = AuthSuccess s"
| "response_view v (SResult r) = Result (result_view v r)"
| "response_view v (SEvent e) = Event e"

lemma put_result_reads:
  assumes "result_ok v cached_columns r" "put_result v r = Inr bs"
  shows "reg_reads (result_recv_body v cached_columns) bs (result_view v r)"
  unfolding reg_reads_def
proof (intro allI)
  fix reg rest
  show "\<exists>reg'. result_recv_body v cached_columns reg (bs @ rest) = Inr ((result_view v r, reg'), rest)"
  proof (cases r)
    case SVoid
    with assms show ?thesis by (simp add: result_recv_body_def int.read)
  next
    case (SRows m rows)
    with assms(2) obtain k b where k: "write_int 2 = Inr k" "put_rows v m rows = Inr b" "bs = k @ b"
      by (auto simp: res_bind_Inr_iff)
    from SRows assms(1) have "rows_ok m rows" "if sm_no_metadata m then cached_columns = Some (sm_columns m) else True"
      by simp_all
    from put_rows_reads [OF this(1) k(2) this(2)] obtain reg' where
      "recv_results_rows v cached_columns reg (b @ rest) = Inr ((rows_view m rows, reg'), rest)" by (rule reg_readsE)
    then show ?thesis by (simp add: SRows result_recv_body_def k(3) int.read [OF k(1)] rd_bind_Inr)
  next
    case (SSetKeyspace ks)
    with assms(2) obtain k b where "write_int 3 = Inr k" "put_string ks = Inr b" "bs = k @ b"
      by (auto simp: res_bind_Inr_iff)
    then show ?thesis by (simp add: SSetKeyspace result_recv_body_def int.read str.read)
  next
    case (SPrepared p)
    with assms(2) obtain k b where k: "write_int 4 = Inr k" "put_prepared v p = Inr b" "bs = k @ b"
      by (auto simp: res_bind_Inr_iff)
    from SPrepared assms(1) have "prepared_ok v p" by simp
    from put_prepared_reads [OF this k(2)] obtain reg' where
      "recv_results_prepared v reg (b @ rest) = Inr ((prepared_view v p, reg'), rest)" by (rule reg_readsE)
    then show ?thesis by (simp add: SPrepared result_recv_body_def k(3) int.read [OF k(1)] rd_bind_Inr)
  next
    case (SSchemaChange c)
    with assms(2) obtain k b where k: "write_int 5 = Inr k" "put_schema_change v c = Inr b" "bs = k @ b"
      by (auto simp: res_bind_Inr_iff)
    with SSchemaChange assms(1) put_schema_change_reads [of v c b rest] show ?thesis
      by (simp add: result_recv_body_def int.read [OF k(1)] rd_bind_Inr)
  qed
qed

lemma put_response_reads:
  assumes "response_ok v cached_columns r" "put_response v r = Inr bs"
  shows "reg_reads (recv_body (response_opcode r) v cached_columns) bs (response_view v r)"
  unfolding reg_reads_def
proof (intro allI)
  fix reg rest
  show "\<exists>reg'. recv_body (response_opcode r) v cached_columns reg (bs @ rest) = Inr ((response_view v r, reg'), rest)"
  proof (cases r)
    case (SError code msg info)
    with assms(2) obtain a b c where w: "write_int code = Inr a" "put_string msg = Inr b" "put_error_info info = Inr c"
        "bs = a @ b @ c" by (auto simp: res_bind_Inr_iff)
    from SError assms(1) have "info_ok v (error_class_of code) info" by simp
    from put_error_info_reads [OF this w(3), of rest] show ?thesis
      by (simp add: SError recv_body_def error_recv_body_def w(4) rd_bind_def int.rd_wr [OF w(1)] str.rd_wr [OF w(2)])
  next
    case (SSupported m)
    with assms obtain c where c: "map_of m (text_of ''CQL_VERSION'') = Some c" "distinct (map fst m)"
      by (auto simp: dest: weak_map_of_SomeI)
    have "read_stringmultimap (bs @ rest) = Inr (m, rest)"
      using stringmultimap.rd_wr [of m bs rest] assms(2) SSupported c(2) by (simp add: dict_of_distinct)
    then show ?thesis using SSupported c by (simp add: recv_body_def supported_recv_body_def rd_bind_def)
  next
    case (SResult res)
    with assms have "result_ok v cached_columns res" "put_result v res = Inr bs" by simp_all
    from put_result_reads [OF this] obtain reg' where
      "result_recv_body v cached_columns reg (bs @ rest) = Inr ((result_view v res, reg'), rest)" by (rule reg_readsE)
    then show ?thesis by (simp add: SResult recv_body_def rd_bind_Inr)
  next
    case (SEvent e)
    with assms put_event_reads [of v e bs rest] show ?thesis by (simp add: recv_body_def rd_bind_Inr)
  qed (use assms(2) in \<open>auto simp: recv_body_def Let_def str.read state.read longstring.read\<close>)
qed

record server_frame =
  sf_trace_id :: "bytes option"
  sf_warnings :: "ptext list option"
  sf_payload :: "(ptext \<times> bytes option) list option"
  sf_response :: server_response

definition payload_value :: "bytes option \<Rightarrow> wire_value" where
  "payload_value x = (case x of None \<Rightarrow> NullValue | Some bs \<Rightarrow> Value bs)"

definition put_frame :: "int \<Rightarrow> server_frame \<Rightarrow> bytes res" where
  "put_frame v m = wr_seq
     [write_if (sf_trace_id m \<noteq> None) Inr (sf_trace_id m),
      write_if (sf_warnings m \<noteq> None) (\<lambda>xs. write_stringlist (map PyText xs)) (sf_warnings m),
      write_if (sf_payload m \<noteq> None)
        (\<lambda>p. write_bytesmap (map (\<lambda>(k, x). (PyText k, payload_value x)) p)) (sf_payload m),
      put_response v (sf_response m)]"

definition frame_flags :: "server_frame \<Rightarrow> int" where
  "frame_flags m = (if sf_trace_id m = None then 0 else 2) OR (if sf_warnings m = None then 0 else 8)
     OR (if sf_payload m = None then 0 else 4)"

definition frame_ok :: "int \<Rightarrow> column list option \<Rightarrow> server_frame \<Rightarrow> bool" where
  "frame_ok v cached_columns m \<longleftrightarrow> response_ok v cached_columns (sf_response m)
     \<and> (case sf_trace_id m of Some bs \<Rightarrow> length bs = 16 | None \<Rightarrow> True)
     \<and> (case sf_payload m of Some p \<Rightarrow> distinct (map fst p) | None \<Rightarrow> True)"

lemma frame_flags_bits:
  "frame_flags m AND 1 = 0" "frame_flags m AND 2 \<noteq> 0 \<longleftrightarrow> sf_trace_id m \<noteq> None"
  "frame_flags m AND 8 \<noteq> 0 \<longleftrightarrow> sf_warnings m \<noteq> None" "frame_flags m AND 4 \<noteq> 0 \<longleftrightarrow> sf_payload m \<noteq> None"
  by (auto simp: frame_flags_def)

lemma payload_view: "value_view (payload_value x) = x"
  by (cases x) (simp_all add: payload_value_def)

lemma payload_reads:
  assumes "write_bytesmap (map (\<lambda>(k, x). (PyText k, payload_value x)) p) = Inr bs" "distinct (map fst p)"
  shows "read_bytesmap (bs @ rest) = Inr (p, rest)"
proof -
  have 1: "map (\<lambda>(k, x). (PyText k, x)) (map (\<lambda>(k, x). (k, payload_value x)) p) = map (\<lambda>(k, x). (PyText k, payload_value x)) p"
    by auto
  have 2: "map (\<lambda>(k, v). (k, value_view v)) (map (\<lambda>(k, x). (k, payload_value x)) p) = p"
    by (auto simp: payload_view intro!: map_idI)
  show ?thesis
    using bytesmap.rd_wr [of "map (\<lambda>(k, x). (k, payload_value x)) p" bs rest, unfolded 1 2, OF assms(1)]
    by (simp add: dict_of_distinct [OF assms(2)])
qed

lemma put_frame_decodes:
  assumes "frame_ok v cached_columns m" "put_frame v m = Inr body"
  shows "\<exists>reg'. decode_message v stream_id (frame_flags m) (response_opcode (sf_response m)) body d cached_columns reg
    = Inr (message.make stream_id (sf_trace_id m) (sf_warnings m) (sf_payload m) (response_view v (sf_response m)), reg')"
proof -
  from assms(2) obtain t w p r where b: "write_if (sf_trace_id m \<noteq> None) Inr (sf_trace_id m) = Inr t"
      "write_if (sf_warnings m \<noteq> None) (\<lambda>xs. write_stringlist (map PyText xs)) (sf_warnings m) = Inr w"
      "write_if (sf_payload m \<noteq> None)
        (\<lambda>p. write_bytesmap (map (\<lambda>(k, x). (PyText k, payload_value x)) p)) (sf_payload m) = Inr p"
      "put_response v (sf_response m) = Inr r" "body = t @ w @ p @ r"
    unfolding put_frame_def by (force elim!: wr_seq_ConsE simp del: wr_seq.simps(2) not_None_eq)
  from assms(1) have ok: "response_ok v cached_columns (sf_response m)" "\<forall>bs. sf_trace_id m = Some bs \<longrightarrow> length bs = 16"
      "\<forall>p. sf_payload m = Some p \<longrightarrow> distinct (map fst p)" by (auto simp: frame_ok_def)
  have trace: "rd_bind (read_if (sf_trace_id m \<noteq> None) read_trace_id) k (t @ f) = k (sf_trace_id m) f"
    for k :: "_ \<Rightarrow> (message \<times> registry) reader" and f
    using b(1) ok(2) by (cases "sf_trace_id m") (auto simp: write_if_def read_if_def read_trace_id_def rd_bind_def rd_read_def)
  have warn: "rd_bind (read_if (sf_warnings m \<noteq> None) read_stringlist) k (w @ f) = k (sf_warnings m) f"
    for k :: "_ \<Rightarrow> (message \<times> registry) reader" and f
    using stringlist.read_opt [OF b(2) set_imps(1)] by (simp add: view_if_id del: not_None_eq)
  have payload: "rd_bind (read_if (sf_payload m \<noteq> None) read_bytesmap) k (p @ f) = k (sf_payload m) f"
    for k :: "_ \<Rightarrow> (message \<times> registry) reader" and f
    using b(3) ok(3) by (cases "sf_payload m") (auto simp: write_if_def read_if_def rd_bind_def payload_reads)
  obtain reg' where "recv_body (response_opcode (sf_response m)) v cached_columns reg (r @ []) = Inr ((response_view v (sf_response m), reg'), [])"
    by (rule reg_readsE [OF put_response_reads [OF ok(1) b(4)]])
  then show ?thesis
    unfolding decode_message_def frame_flags_bits b(5)
    by (simp add: trace warn payload rd_bind_Inr del: not_None_eq)
qed

definition example_columns :: "column list" where
  "example_columns = [(text_of ''ks'', text_of ''t'', text_of ''a'', plain Int32Type)]"

definition example_frame :: server_frame where
  "example_frame = \<lparr>sf_trace_id = None, sf_warnings = Some [text_of ''w''], sf_payload = None,
     sf_response = SResult (SRows \<lparr>sm_spec = GlobalSpec (text_of ''ks'') (text_of ''t''), sm_columns = example_columns,
       sm_paging_state = None, sm_metadata_id = None, sm_no_metadata = False\<rparr> [[PInt 7], [PNone]])\<rparr>"


lemma example_put:
  "put_frame 4 example_frame = Inr ([0, 1, 0, 1, 119] @ [0, 0, 0, 2] @ [0, 0, 0, 1, 0, 0, 0, 1] @ [0, 2, 107, 115, 0, 1, 116]
     @ [0, 1, 97, 0, 9] @ [0, 0, 0, 2] @ [0, 0, 0, 4, 0, 0, 0, 7] @ [255, 255, 255, 255])"
  by (simp add: example_frame_def example_columns_def put_frame_def send_eval write_stringlist_def text_of_def scalar_def
      utf8_char_def byte_of_def put_rows_def put_metadata_def metadata_flags_def put_columns_def put_table_spec_def
      put_column_def put_string_def put_type.simps put_code_def class_code_def type_codes_def col_types_def put_row_def
      put_cell_def to_binary_def to_bin_def serialize.simps parameterized_def)


end
