(* ===== verification/Framing.thy ===== *)
theory Framing
  imports Requests
begin

text \<open>
  Frames: \<open>encode_message\<close> of \<open>cassandra/protocol.py\<close>, which puts a header in front of the body
  of a request, and the buffer of \<open>cassandra/connection.py\<close> that cuts the received bytes into
  frames again, however the socket delivers them.
\<close>

section \<open>Encoding a request\<close>

text \<open>What a request carries besides its body: \<open>tracing\<close> and \<open>custom_payload\<close>.\<close>

record out_message =
  om_request :: request
  om_tracing :: bool
  om_custom_payload :: "(py_str \<times> wire_value) list option"

definition update_custom_payload ::
    "(py_str \<times> wire_value) list \<Rightarrow> (py_str \<times> wire_value) list option
      \<Rightarrow> unit res \<times> (py_str \<times> wire_value) list option" where
  "update_custom_payload other payload =
     (if other = [] then (Inr (), payload)
      else let p = fold (\<lambda>(k, v). AList.update k v) other (case payload of Some q \<Rightarrow> q | None \<Rightarrow> [])
           in (if length p > 65535 then Inl ValueError else Inr (), Some p))"

definition write_header :: "int \<Rightarrow> int \<Rightarrow> int \<Rightarrow> int \<Rightarrow> int \<Rightarrow> bytes res" where
  "write_header version flags stream_id opcode len = wr_seq
     [(if version \<ge> 3 then v3_header_pack else header_pack) (version, flags, stream_id, opcode), write_int len]"

definition payload_given :: "(py_str \<times> wire_value) list option \<Rightarrow> bool" where
  "payload_given p \<longleftrightarrow> p \<noteq> None \<and> p \<noteq> Some []"

definition encode_body :: "int \<Rightarrow> out_message \<Rightarrow> bytes res" where
  "encode_body v m = wr_seq
     [if payload_given (om_custom_payload m) \<and> v < 4 then Inl UnsupportedOperation else Inr [],
      write_if (payload_given (om_custom_payload m)) write_bytesmap (om_custom_payload m),
      send_body v (om_request m)]"

definition encode_message ::
    "out_message \<Rightarrow> int \<Rightarrow> int \<Rightarrow> (bytes \<Rightarrow> bytes) option \<Rightarrow> bool \<Rightarrow> bytes res" where
  "encode_message m stream_id v compressor allow_beta =
     res_bind (encode_body v m) (\<lambda>body.
       let flags0 = (if payload_given (om_custom_payload m) then 0x04 else 0);
           (body1, flags1) = (case compressor of
              Some c \<Rightarrow> if body \<noteq> [] then (c body, flags0 OR 0x01) else (body, flags0)
            | None \<Rightarrow> (body, flags0));
           flags2 = (if om_tracing m then flags1 OR 0x02 else flags1);
           flags3 = (if allow_beta then flags2 OR 0x10 else flags2)
       in wr_seq [write_header v flags3 stream_id (request_opcode (om_request m)) (int (length body1)), Inr body1])"

section \<open>The receive buffer\<close>

definition MAX_SUPPORTED :: int where
  "MAX_SUPPORTED = 5"

record frame =
  fr_version :: int
  fr_flags :: int
  fr_stream :: int
  fr_opcode :: int
  fr_body_offset :: nat
  fr_end_pos :: nat

record io_state =
  iobuf :: bytes
  current_frame :: "frame option"

definition io_init :: io_state where
  "io_init = \<lparr>iobuf = [], current_frame = None\<rparr>"

text \<open>\<open>frame_header_v3\<close> (\<open>>BhBi\<close>) and \<open>frame_header_v1_v2\<close> (\<open>>BbBi\<close>), after the version byte.\<close>

definition unpack_frame_header :: "int \<Rightarrow> bytes \<Rightarrow> (int \<times> int \<times> int \<times> int) res" where
  "unpack_frame_header version buf =
     (if version \<ge> 3
      then (case buf of
          [f, s1, s2, op, l1, l2, l3, l4] \<Rightarrow> Inr (uint f, be_sint [s1, s2], uint op, be_sint [l1, l2, l3, l4])
        | _ \<Rightarrow> Inl StructError)
      else (case buf of
          [f, s, op, l1, l2, l3, l4] \<Rightarrow> Inr (uint f, be_sint [s], uint op, be_sint [l1, l2, l3, l4])
        | _ \<Rightarrow> Inl StructError))"

definition header_size :: "int \<Rightarrow> nat" where
  "header_size version = (if version \<ge> 3 then 9 else 8)"

definition read_frame_header :: "io_state \<Rightarrow> io_state res" where
  "read_frame_header io =
     (case iobuf io of
        [] \<Rightarrow> Inr io
      | b # buf \<Rightarrow>
          let version = uint b AND 0x7f
          in if version > MAX_SUPPORTED then Inl ProtocolError
             else if length (iobuf io) \<ge> header_size version
             then res_bind (unpack_frame_header version (take (header_size version - 1) buf))
                    (\<lambda>(flags, stream, opcode, body_len).
                      if body_len < 0 then Inl ProtocolError
                      else Inr (io\<lparr>current_frame := Some (frame.make version flags stream opcode
                             (header_size version) (nat body_len + header_size version))\<rparr>))
             else Inr io)"

definition reset_frame :: "nat \<Rightarrow> io_state \<Rightarrow> io_state" where
  "reset_frame pos io = \<lparr>iobuf = drop pos (iobuf io), current_frame = None\<rparr>"

text \<open>
  What the loop of \<open>process_io_buffer\<close> does: it hands a frame to \<open>process_msg\<close>, or the header is
  bad, which makes the connection defunct and ends the loop. Neither what \<open>process_msg\<close> does nor
  a defunct connection ends it.
\<close>

datatype io_event = Frame frame bytes | BadHeader

definition have_frame :: "io_state \<Rightarrow> io_state res" where
  "have_frame io = (if current_frame io = None then read_frame_header io else Inr io)"

lemma read_frame_header_buf: "read_frame_header io = Inr io' \<Longrightarrow> iobuf io' = iobuf io"
  by (auto simp: read_frame_header_def Let_def res_bind_Inr_iff split: list.splits if_splits prod.splits)

lemma read_frame_header_end:
  "current_frame io = None \<Longrightarrow> read_frame_header io = Inr io' \<Longrightarrow> current_frame io' = Some fr \<Longrightarrow> 0 < fr_end_pos fr"
  by (auto simp: read_frame_header_def Let_def res_bind_Inr_iff frame.make_def header_size_def
      split: list.splits if_splits prod.splits)

function process_io_buffer :: "io_state \<Rightarrow> io_event list \<times> io_state" where
  "process_io_buffer io =
     (case have_frame io of
        Inl e \<Rightarrow> ([BadHeader], io)
      | Inr io1 \<Rightarrow>
          (case current_frame io1 of
             None \<Rightarrow> ([], io1)
           | Some fr \<Rightarrow>
               if length (iobuf io1) < fr_end_pos fr then ([], io1)
               else let msg = take (fr_end_pos fr - fr_body_offset fr) (drop (fr_body_offset fr) (iobuf io1));
                        (evs, io2) = process_io_buffer (reset_frame (fr_end_pos fr) io1)
                    in (Frame fr msg # evs, io2)))"
  by pat_completeness auto
termination
proof (relation "measure (\<lambda>io. 2 * length (iobuf io) + (if current_frame io = None then 0 else 1))")
  fix io io1 fr
  assume *: "have_frame io = Inr io1" "current_frame io1 = Some fr" "\<not> length (iobuf io1) < fr_end_pos fr"
  show "(reset_frame (fr_end_pos fr) io1, io)
      \<in> measure (\<lambda>io. 2 * length (iobuf io) + (if current_frame io = None then 0 else 1))"
  proof (cases "current_frame io = None")
    case True
    with * have h: "read_frame_header io = Inr io1" by (simp add: have_frame_def)
    from read_frame_header_end [OF True h *(2)] read_frame_header_buf [OF h] *(3) True show ?thesis
      by (simp add: reset_frame_def)
  next
    case False
    with * have "io1 = io" by (simp add: have_frame_def)
    with False show ?thesis by (auto simp: reset_frame_def)
  qed
qed simp

declare process_io_buffer.simps [simp del]

text \<open>
  \<open>handle_read\<close> of \<open>AsyncoreConnection\<close>: it takes what the socket has, in pieces of at most
  \<open>in_buffer_size\<close> bytes, until a piece is short, the socket would block, or it fails, which makes
  the connection defunct and leaves the buffer as it is.
\<close>

datatype recv_result = Received bytes | RecvBlock | RecvError

fun recv_loop :: "nat \<Rightarrow> recv_result list \<Rightarrow> bytes \<times> bool" where
  "recv_loop n [] = ([], False)"
| "recv_loop n (RecvBlock # results) = ([], False)"
| "recv_loop n (RecvError # results) = ([], True)"
| "recv_loop n (Received buf # results) =
     (if length buf < n then (buf, False) else let (bs, failed) = recv_loop n results in (buf @ bs, failed))"

definition handle_read :: "nat \<Rightarrow> recv_result list \<Rightarrow> io_state \<Rightarrow> io_event list \<times> bool \<times> io_state" where
  "handle_read in_buffer_size results io =
     (let (bs, failed) = recv_loop in_buffer_size results; io1 = io\<lparr>iobuf := iobuf io @ bs\<rparr>
      in if failed then ([], True, io1)
         else if iobuf io1 \<noteq> [] then let (evs, io2) = process_io_buffer io1 in (evs, False, io2)
         else ([], False, io1))"

text \<open>The bytes of one call as a chunk.\<close>

definition feed_chunk :: "bytes \<Rightarrow> io_state \<Rightarrow> io_event list \<times> io_state" where
  "feed_chunk chunk io = process_io_buffer (io\<lparr>iobuf := iobuf io @ chunk\<rparr>)"

fun feed :: "bytes list \<Rightarrow> io_state \<Rightarrow> io_event list \<times> io_state" where
  "feed [] io = ([], io)"
| "feed (chunk # chunks) io =
     (let (evs, io1) = feed_chunk chunk io; (evs', io2) = feed chunks io1 in (evs @ evs', io2))"

section \<open>The frames received do not depend on how the bytes are cut\<close>

definition raw :: "bytes \<Rightarrow> io_state" where
  "raw bs = \<lparr>iobuf = bs, current_frame = None\<rparr>"

text \<open>A buffer that remembers a frame remembers the one its bytes start with.\<close>

definition io_ok :: "io_state \<Rightarrow> bool" where
  "io_ok io \<longleftrightarrow> current_frame io = None \<or> read_frame_header (raw (iobuf io)) = Inr io"

lemma raw_sel [simp]: "iobuf (raw bs) = bs" "current_frame (raw bs) = None"
  by (simp_all add: raw_def)

lemma reset_frame_raw: "reset_frame n io = raw (drop n (iobuf io))"
  by (simp add: reset_frame_def raw_def)

lemma raw_eq: "current_frame io = None \<Longrightarrow> raw (iobuf io) = io"
  by (cases io) (simp add: raw_def)

lemma io_ok_process: "io_ok io \<Longrightarrow> process_io_buffer io = process_io_buffer (raw (iobuf io))"
proof (cases "current_frame io = None")
  case False
  assume "io_ok io"
  with False have "have_frame (raw (iobuf io)) = Inr io" "have_frame io = Inr io"
    by (auto simp: io_ok_def have_frame_def)
  then show ?thesis by (simp add: process_io_buffer.simps)
qed (simp add: raw_eq)

text \<open>More bytes do not change a header that is complete.\<close>

lemma read_frame_header_append:
  assumes "read_frame_header (raw bs) = Inr io" "current_frame io = Some fr"
  shows "read_frame_header (raw (bs @ cs)) = Inr (io\<lparr>iobuf := bs @ cs\<rparr>)"
proof (cases bs)
  case (Cons b buf)
  with assms have "header_size (uint b AND 0x7f) \<le> Suc (length buf)"
    by (auto simp: read_frame_header_def Let_def split: if_splits)
  moreover from this have "take (header_size (uint b AND 0x7f) - 1) (buf @ cs) = take (header_size (uint b AND 0x7f) - 1) buf"
    by simp
  ultimately show ?thesis
    using assms Cons
    by (auto simp: read_frame_header_def Let_def raw_def res_bind_def split: sum.splits prod.splits if_splits)
qed (use assms in \<open>auto simp: read_frame_header_def\<close>)

lemma read_frame_header_error_append:
  assumes "read_frame_header (raw bs) = Inl e"
  shows "\<exists>e'. read_frame_header (raw (bs @ cs)) = Inl e'"
proof (cases bs)
  case (Cons b buf)
  show ?thesis
  proof (cases "uint b AND 0x7f > MAX_SUPPORTED")
    case True
    with Cons show ?thesis by (simp add: read_frame_header_def Let_def)
  next
    case False
    with assms Cons have "header_size (uint b AND 0x7f) \<le> Suc (length buf)"
      by (auto simp: read_frame_header_def Let_def split: if_splits)
    moreover from this have "take (header_size (uint b AND 0x7f) - 1) (buf @ cs) = take (header_size (uint b AND 0x7f) - 1) buf"
      by simp
    ultimately show ?thesis
      using assms Cons
      by (auto simp: read_frame_header_def Let_def raw_def res_bind_def split: sum.splits prod.splits if_splits)
  qed
qed (use assms in \<open>simp add: read_frame_header_def\<close>)

lemma read_frame_header_raw:
  "read_frame_header (raw bs) = Inr io \<Longrightarrow> io_ok io \<and> iobuf io = bs"
  using read_frame_header_buf [of "raw bs" io] by (auto simp: io_ok_def raw_def)

lemma io_ok_append: "io_ok io \<Longrightarrow> io_ok (io\<lparr>iobuf := iobuf io @ cs\<rparr>)"
  using read_frame_header_append [of "iobuf io" io _ cs] by (cases "current_frame io") (auto simp: io_ok_def)

lemma handle_read_feed:
  assumes "io_ok io" "recv_loop n results = (chunk, False)"
  shows "handle_read n results io = (fst (feed_chunk chunk io), False, snd (feed_chunk chunk io))"
proof (cases "iobuf io @ chunk = []")
  case True
  with assms(1) have "io = raw []" by (auto simp: io_ok_def read_frame_header_def raw_eq intro: io_state.equality)
  moreover have "process_io_buffer (raw []) = ([], raw [])"
    by (simp add: process_io_buffer.simps have_frame_def read_frame_header_def)
  ultimately show ?thesis using True assms(2) by (simp add: handle_read_def feed_chunk_def raw_def)
next
  case False
  with assms(2) show ?thesis by (auto simp: handle_read_def feed_chunk_def split: prod.split)
qed

text \<open>
  The buffer after the frames of \<open>bs\<close> goes on with \<open>cs\<close> as the whole would have: the frames of
  \<open>bs @ cs\<close> are those of \<open>bs\<close> and then those of what was left of \<open>bs\<close> and \<open>cs\<close>.
\<close>

fun frames :: "io_event list \<Rightarrow> (frame \<times> bytes) list" where
  "frames [] = []"
| "frames (Frame fr msg # evs) = (fr, msg) # frames evs"
| "frames (BadHeader # evs) = frames evs"

lemma frames_append: "frames (evs @ evs') = frames evs @ frames evs'"
  by (induction evs rule: frames.induct) simp_all

lemma process_append:
  assumes "process_io_buffer (raw bs) = (evs, io)"
  shows "io_ok io \<and> frames (fst (process_io_buffer (raw (bs @ cs))))
      = frames evs @ frames (fst (process_io_buffer (raw (iobuf io @ cs))))
    \<and> (BadHeader \<in> set evs \<union> set (fst (process_io_buffer (raw (iobuf io @ cs))))
        \<longrightarrow> BadHeader \<in> set (fst (process_io_buffer (raw (bs @ cs)))))"
  using assms
proof (induction "length bs" arbitrary: bs evs io rule: less_induct)
  case less
  show ?case
  proof (cases "read_frame_header (raw bs)")
    case (Inl e)
    then have "evs = [BadHeader]" "io = raw bs"
      using less.prems by (simp_all add: process_io_buffer.simps [of "raw bs"] have_frame_def)
    moreover obtain e' where "read_frame_header (raw (bs @ cs)) = Inl e'"
      using read_frame_header_error_append [OF Inl] by blast
    ultimately show ?thesis
      by (auto simp: io_ok_def process_io_buffer.simps [of "raw (bs @ cs)"] have_frame_def)
  next
    case (Inr io1)
    from read_frame_header_raw [OF Inr] have io1: "io_ok io1" "iobuf io1 = bs" by simp_all
    show ?thesis
    proof (cases "current_frame io1")
      case None
      with Inr less.prems have "evs = []" "io = io1"
        by (simp_all add: process_io_buffer.simps [of "raw bs"] have_frame_def)
      with io1 show ?thesis by simp
    next
      case (Some fr)
      show ?thesis
      proof (cases "length bs < fr_end_pos fr")
        case True
        with Some Inr io1 less.prems have "evs = []" "io = io1"
          by (simp_all add: process_io_buffer.simps [of "raw bs"] have_frame_def)
        with io1 show ?thesis by simp
      next
        case False
        let ?msg = "take (fr_end_pos fr - fr_body_offset fr) (drop (fr_body_offset fr) bs)"
        obtain evs1 where evs: "evs = Frame fr ?msg # evs1"
          and rest: "process_io_buffer (raw (drop (fr_end_pos fr) bs)) = (evs1, io)"
          using Some Inr io1 less.prems False
          by (auto simp: process_io_buffer.simps [of "raw bs"] have_frame_def reset_frame_raw split: prod.splits)
        have pos: "0 < fr_end_pos fr" by (rule read_frame_header_end [OF _ Inr Some]) simp
        with False have "length (drop (fr_end_pos fr) bs) < length bs" by simp
        from less.hyps [OF this rest] have IH: "io_ok io"
          "frames (fst (process_io_buffer (raw (drop (fr_end_pos fr) bs @ cs))))
            = frames evs1 @ frames (fst (process_io_buffer (raw (iobuf io @ cs))))"
          "BadHeader \<in> set evs1 \<union> set (fst (process_io_buffer (raw (iobuf io @ cs))))
            \<longrightarrow> BadHeader \<in> set (fst (process_io_buffer (raw (drop (fr_end_pos fr) bs @ cs))))" by simp_all
        have "take (fr_end_pos fr - fr_body_offset fr) (drop (fr_body_offset fr) (bs @ cs)) = ?msg"
          using False by simp
        then have "fst (process_io_buffer (raw (bs @ cs)))
            = Frame fr ?msg # fst (process_io_buffer (raw (drop (fr_end_pos fr) bs @ cs)))"
          using read_frame_header_append [OF Inr Some, of cs] Some False
          by (simp add: process_io_buffer.simps [of "raw (bs @ cs)"] have_frame_def reset_frame_raw
              split: prod.splits)
        with IH evs show ?thesis by simp
      qed
    qed
  qed
qed

definition drained :: "io_state \<Rightarrow> bool" where
  "drained io \<longleftrightarrow> io_ok io \<and> frames (fst (process_io_buffer (raw (iobuf io)))) = []"

lemma process_drains:
  assumes "process_io_buffer (raw bs) = (evs, io)"
  shows "drained io"
  using process_append [OF assms, of "[]"] assms by (simp add: drained_def)

lemma drained_init: "drained io_init"
  by (simp add: drained_def io_init_def io_ok_def process_io_buffer.simps have_frame_def read_frame_header_def)

lemma feed_frames:
  assumes "drained io" "feed chunks io = (evs, io')"
  shows "frames evs = frames (fst (process_io_buffer (raw (iobuf io @ concat chunks)))) \<and> drained io'
    \<and> (BadHeader \<in> set evs \<longrightarrow> BadHeader \<in> set (fst (process_io_buffer (raw (iobuf io @ concat chunks)))))"
  using assms
proof (induction chunks arbitrary: io evs)
  case (Cons c chunks)
  obtain evs1 io1 evs2 where 1: "feed_chunk c io = (evs1, io1)" and 2: "feed chunks io1 = (evs2, io')"
    and evs: "evs = evs1 @ evs2"
    using Cons.prems(2) by (auto simp: Let_def split: prod.splits)
  have "io_ok io" using Cons.prems(1) by (simp add: drained_def)
  from io_ok_process [OF io_ok_append [OF this, of c]] 1 have p: "process_io_buffer (raw (iobuf io @ c)) = (evs1, io1)"
    by (simp add: feed_chunk_def)
  from Cons.IH [OF process_drains [OF p] 2] process_append [OF p, of "concat chunks"] show ?case
    by (auto simp: evs frames_append)
qed (simp add: drained_def)

section \<open>Frames on the wire\<close>

text \<open>
  A frame after the specification: the version byte with the direction bit \<open>0x80\<close> in responses,
  flags, stream, opcode, length, body.
\<close>

record wire_frame =
  wf_response :: bool
  wf_version :: int
  wf_flags :: int
  wf_stream :: int
  wf_opcode :: int
  wf_body :: bytes

definition put_wire_frame :: "wire_frame \<Rightarrow> bytes res" where
  "put_wire_frame m = wr_seq
     [(if wf_version m \<ge> 3 then v3_header_pack else header_pack)
        (wf_version m OR (if wf_response m then 0x80 else 0), wf_flags m, wf_stream m, wf_opcode m),
      write_int (int (length (wf_body m))), Inr (wf_body m)]"

definition frame_of :: "wire_frame \<Rightarrow> frame" where
  "frame_of m = frame.make (wf_version m) (wf_flags m) (wf_stream m) (wf_opcode m) (header_size (wf_version m))
     (length (wf_body m) + header_size (wf_version m))"

definition version_ok :: "wire_frame \<Rightarrow> bool" where
  "version_ok m \<longleftrightarrow> 0 \<le> wf_version m \<and> wf_version m \<le> 5"

lemma version_byte:
  assumes "version_ok m"
  shows "(wf_version m OR (if wf_response m then 0x80 else 0)) AND 0x7f = wf_version m"
proof -
  from assms have "wf_version m \<in> {0, 1, 2, 3, 4, 5}" by (auto simp: version_ok_def)
  then show ?thesis by auto
qed

lemma v3_header_bytes:
  assumes "v3_header_pack (v, f, s, p) = Inr h"
  obtains b0 b1 b2 b3 b4 where "h = [b0, b1, b2, b3, b4]" "uint b0 = v" "uint b1 = f" "be_sint [b2, b3] = s" "uint b4 = p"
  using v3hdr.unpack_pack [OF assms] by (cases h rule: v3_header_unpack.cases) auto

lemma header_bytes:
  assumes "header_pack (v, f, s, p) = Inr h"
  obtains b0 b1 b2 b3 where "h = [b0, b1, b2, b3]" "uint b0 = v" "uint b1 = f" "be_sint [b2] = s" "uint b3 = p"
  using hdr.unpack_pack [OF assms] by (cases h rule: header_unpack.cases) auto

lemma int_bytes:
  assumes "write_int n = Inr l"
  obtains l1 l2 l3 l4 where "l = [l1, l2, l3, l4]" "be_sint [l1, l2, l3, l4] = n"
proof -
  have "length l = 4" using assms i32.pack_width by (simp add: write_int_def)
  then obtain l1 l2 l3 l4 where "l = [l1, l2, l3, l4]" by (auto simp: numeral_eq_Suc length_Suc_conv)
  moreover have "int32_unpack l = Inr n" using assms i32.unpack_pack by (simp add: write_int_def)
  ultimately show ?thesis by (intro that) (auto simp: int32_unpack_def unpack_signed_def)
qed

lemma put_wire_frame_bytes:
  assumes "put_wire_frame m = Inr bs" "version_ok m"
  obtains b h l where "bs = b # h @ wf_body m" "uint b AND 0x7f = wf_version m" "length h = header_size (wf_version m) - 1"
    "unpack_frame_header (wf_version m) h = Inr (wf_flags m, wf_stream m, wf_opcode m, int (length (wf_body m)))"
proof -
  let ?v = "wf_version m OR (if wf_response m then 0x80 else 0)"
  from assms(1) obtain hd l where hd: "(if wf_version m \<ge> 3 then v3_header_pack else header_pack)
      (?v, wf_flags m, wf_stream m, wf_opcode m) = Inr hd" and l: "write_int (int (length (wf_body m))) = Inr l"
    and bs: "bs = hd @ l @ wf_body m"
    unfolding put_wire_frame_def by (force elim!: wr_seq_ConsE simp del: wr_seq.simps(2))
  obtain l1 l2 l3 l4 where l': "l = [l1, l2, l3, l4]" "be_sint [l1, l2, l3, l4] = int (length (wf_body m))"
    by (rule int_bytes [OF l])
  show ?thesis
  proof (cases "wf_version m \<ge> 3")
    case True
    with hd have "v3_header_pack (?v, wf_flags m, wf_stream m, wf_opcode m) = Inr hd" by simp
    then obtain b0 b1 b2 b3 b4 where "hd = [b0, b1, b2, b3, b4]" "uint b0 = ?v" "uint b1 = wf_flags m"
        "be_sint [b2, b3] = wf_stream m" "uint b4 = wf_opcode m" by (rule v3_header_bytes)
    with True bs l' version_byte [OF assms(2)] show ?thesis
      by (intro that [of b0 "[b1, b2, b3, b4, l1, l2, l3, l4]"]) (simp_all add: header_size_def unpack_frame_header_def)
  next
    case False
    with hd have "header_pack (?v, wf_flags m, wf_stream m, wf_opcode m) = Inr hd" by simp
    then obtain b0 b1 b2 b3 where "hd = [b0, b1, b2, b3]" "uint b0 = ?v" "uint b1 = wf_flags m"
        "be_sint [b2] = wf_stream m" "uint b3 = wf_opcode m" by (rule header_bytes)
    with False bs l' version_byte [OF assms(2)] show ?thesis
      by (intro that [of b0 "[b1, b2, b3, l1, l2, l3, l4]"]) (simp_all add: header_size_def unpack_frame_header_def)
  qed
qed

lemma header_size_pos: "0 < header_size v"
  by (simp add: header_size_def)

lemma put_wire_frame_process:
  assumes "put_wire_frame m = Inr bs" "version_ok m"
  shows "fst (process_io_buffer (raw (bs @ rest))) = Frame (frame_of m) (wf_body m) # fst (process_io_buffer (raw rest))"
proof -
  obtain b h where bs: "bs = b # h @ wf_body m" "uint b AND 0x7f = wf_version m" "length h = header_size (wf_version m) - 1"
    "unpack_frame_header (wf_version m) h = Inr (wf_flags m, wf_stream m, wf_opcode m, int (length (wf_body m)))"
    by (rule put_wire_frame_bytes [OF assms])
  have size: "header_size (wf_version m) = Suc (length h)" using bs(3) header_size_pos [of "wf_version m"] by simp
  have "read_frame_header (raw (bs @ rest)) = Inr ((raw (bs @ rest))\<lparr>current_frame := Some (frame_of m)\<rparr>)"
    using assms(2) by (simp add: read_frame_header_def bs(1, 2, 4) size version_ok_def MAX_SUPPORTED_def frame_of_def)
  then show ?thesis
    unfolding process_io_buffer.simps [of "raw (bs @ rest)"]
    by (simp add: have_frame_def reset_frame_raw frame_of_def frame.make_def bs(1) size split: prod.split)
qed

lemma partial_frame_process:
  assumes "put_wire_frame m = Inr (tail @ cs)" "version_ok m" "cs \<noteq> []"
  shows "fst (process_io_buffer (raw tail)) = []"
proof -
  obtain b h where bs: "tail @ cs = b # h @ wf_body m" "uint b AND 0x7f = wf_version m" "length h = header_size (wf_version m) - 1"
    "unpack_frame_header (wf_version m) h = Inr (wf_flags m, wf_stream m, wf_opcode m, int (length (wf_body m)))"
    by (rule put_wire_frame_bytes [OF assms(1, 2)])
  have size: "header_size (wf_version m) = Suc (length h)" using bs(3) header_size_pos [of "wf_version m"] by simp
  show ?thesis
  proof (cases tail)
    case Nil
    then show ?thesis by (simp add: process_io_buffer.simps have_frame_def read_frame_header_def)
  next
    case (Cons b' t)
    with bs(1) have t: "b' = b" "t @ cs = h @ wf_body m" by simp_all
    from t(2) assms(3) have len: "length t < length h + length (wf_body m)"
      by (metis length_append length_greater_0_conv less_add_same_cancel1)
    show ?thesis
    proof (cases "length t \<ge> length h")
      case False
      then have "read_frame_header (raw tail) = Inr (raw tail)"
        using assms(2) by (simp add: read_frame_header_def Cons t(1) bs(2) size version_ok_def MAX_SUPPORTED_def)
      then show ?thesis by (simp add: process_io_buffer.simps have_frame_def)
    next
      case True
      with t(2) have "take (length h) t = h" by (metis append_eq_append_conv_if append_take_drop_id take_all_iff append_eq_conv_conj)
      then have "read_frame_header (raw tail) = Inr ((raw tail)\<lparr>current_frame := Some (frame_of m)\<rparr>)"
        using assms(2) True bs(4)
        by (simp add: read_frame_header_def Cons t(1) bs(2) size version_ok_def MAX_SUPPORTED_def frame_of_def)
      with len show ?thesis
        by (simp add: process_io_buffer.simps have_frame_def frame_of_def frame.make_def Cons size)
    qed
  qed
qed

section \<open>The claim\<close>

lemma process_frames:
  assumes "list_all2 (\<lambda>m bs. put_wire_frame m = Inr bs \<and> version_ok m) ms bss"
  shows "fst (process_io_buffer (raw (concat bss @ tail)))
    = map (\<lambda>m. Frame (frame_of m) (wf_body m)) ms @ fst (process_io_buffer (raw tail))"
  using assms
proof (induction rule: list_all2_induct)
  case (Cons m ms bs bss)
  with put_wire_frame_process [of m bs "concat bss @ tail"] show ?case by simp
qed simp

lemma frames_only: "BadHeader \<notin> set evs \<Longrightarrow> frames evs = map (\<lambda>m. (frame_of m, wf_body m)) ms
    \<Longrightarrow> evs = map (\<lambda>m. Frame (frame_of m) (wf_body m)) ms"
proof (induction evs arbitrary: ms rule: frames.induct)
  case (2 fr msg evs)
  then show ?case by (cases ms) auto
qed auto

lemma frames_map: "frames (map (\<lambda>m. Frame (f m) (g m)) ms) = map (\<lambda>m. (f m, g m)) ms"
  by (induction ms) simp_all

text \<open>
  A frame of which the last bytes are missing, or nothing.
\<close>

definition incomplete :: "bytes \<Rightarrow> bool" where
  "incomplete tail \<longleftrightarrow> tail = [] \<or> (\<exists>m cs. put_wire_frame m = Inr (tail @ cs) \<and> version_ok m \<and> cs \<noteq> [])"

lemma stream_delivered:
  assumes "list_all2 (\<lambda>m bs. put_wire_frame m = Inr bs \<and> version_ok m) ms bss" "incomplete tail"
    and "concat chunks = concat bss @ tail"
  shows "fst (feed chunks io_init) = map (\<lambda>m. Frame (frame_of m) (wf_body m)) ms"
proof -
  obtain evs io where feed: "feed chunks io_init = (evs, io)" by force
  have "fst (process_io_buffer (raw tail)) = []"
    using assms(2) partial_frame_process
    by (auto simp: incomplete_def process_io_buffer.simps have_frame_def read_frame_header_def)
  with process_frames [OF assms(1), of tail]
  have *: "fst (process_io_buffer (raw (concat chunks))) = map (\<lambda>m. Frame (frame_of m) (wf_body m)) ms"
    by (simp add: assms(3))
  from feed_frames [OF drained_init feed] have "frames evs = frames (fst (process_io_buffer (raw (concat chunks))))"
    "BadHeader \<in> set evs \<longrightarrow> BadHeader \<in> set (fst (process_io_buffer (raw (concat chunks))))" by (simp_all add: io_init_def)
  then have "frames evs = map (\<lambda>m. (frame_of m, wf_body m)) ms" "BadHeader \<notin> set evs"
    by (auto simp: * frames_map)
  with frames_only feed show ?thesis by simp
qed

text \<open>
  C8: however the socket cuts a stream of frames, of any of the supported protocol versions, into
  chunks, the buffer delivers exactly the frames that are complete, in order and with their
  bodies, and finds no bad header; of the frame that is not complete it delivers nothing.
\<close>

theorem stream_reassembly:
  assumes "list_all2 (\<lambda>m bs. put_wire_frame m = Inr bs \<and> version_ok m) ms bss" "incomplete tail"
    and "concat chunks = concat bss @ tail"
  shows "fst (feed chunks io_init) = map (\<lambda>m. Frame (frame_of m) (wf_body m)) ms"
  using assms by (rule stream_delivered)

definition example_wire_frame :: wire_frame where
  "example_wire_frame = \<lparr>wf_response = True, wf_version = 4, wf_flags = 0, wf_stream = 1, wf_opcode = 2, wf_body = []\<rparr>"

theorem stream_reassembly_witness:
  "fst (feed [[0x84, 0, 0, 1, 2], [0, 0, 0, 0, 0x84], [0, 0]] io_init) = [Frame (frame_of example_wire_frame) []]"
proof -
  have put: "put_wire_frame example_wire_frame = Inr [0x84, 0, 0, 1, 2, 0, 0, 0, 0]"
    by (simp add: put_wire_frame_def example_wire_frame_def send_eval uint8_pack_def int16_pack_def)
  have ok: "version_ok example_wire_frame" by (simp add: version_ok_def example_wire_frame_def)
  have "put_wire_frame example_wire_frame = Inr ([0x84, 0, 0] @ [1, 2, 0, 0, 0, 0])" using put by simp
  with ok have tail: "incomplete [0x84, 0, 0]" unfolding incomplete_def by blast
  have "wf_body example_wire_frame = []" by (simp add: example_wire_frame_def)
  with stream_reassembly [OF _ tail, of "[example_wire_frame]" "[[0x84, 0, 0, 1, 2, 0, 0, 0, 0]]"
      "[[0x84, 0, 0, 1, 2], [0, 0, 0, 0, 0x84], [0, 0]]"] put ok
  show ?thesis by simp
qed

section \<open>The output queue\<close>

text \<open>
  \<open>push\<close> and \<open>handle_write\<close> of \<open>AsyncoreConnection\<close>. What the socket does with each \<open>send\<close> is a
  list of results: it takes some bytes, it would block, or it fails and the connection becomes
  defunct. A socket of which no result is left would block.
\<close>

record out_state =
  deque :: "bytes list"
  writable :: bool

datatype send_result = Sent nat | WouldBlock | SocketError

definition out_init :: out_state where
  "out_init = \<lparr>deque = [], writable = True\<rparr>"

function split_chunks :: "nat \<Rightarrow> bytes \<Rightarrow> bytes list" where
  "split_chunks n data = (if n = 0 \<or> data = [] then [] else take n data # split_chunks n (drop n data))"
  by pat_completeness auto
termination by (relation "measure (\<lambda>(n, data). length data)") auto

declare split_chunks.simps [simp del]

definition push :: "nat \<Rightarrow> bytes \<Rightarrow> out_state \<Rightarrow> out_state" where
  "push sabs data s =
     \<lparr>deque = deque s @ (if length data > sabs then split_chunks sabs data else [data]), writable = True\<rparr>"

fun handle_write :: "send_result list \<Rightarrow> out_state \<Rightarrow> bytes \<times> bool \<times> out_state" where
  "handle_write results s =
     (case deque s of
        [] \<Rightarrow> ([], False, s\<lparr>writable := False\<rparr>)
      | next_msg # q \<Rightarrow>
          (case results of
             [] \<Rightarrow> ([], False, s)
           | WouldBlock # _ \<Rightarrow> ([], False, s)
           | SocketError # _ \<Rightarrow> ([], True, s\<lparr>deque := q\<rparr>)
           | Sent n # results' \<Rightarrow>
               if n < length next_msg
               then if n = 0 then ([], False, s)
                    else let (sent, failed, s') = handle_write results' (s\<lparr>deque := drop n next_msg # q\<rparr>)
                         in (take n next_msg @ sent, failed, s')
               else let (sent, failed, s') = handle_write results' (s\<lparr>deque := q\<rparr>)
                    in (next_msg @ sent, failed, s')))"

declare handle_write.simps [simp del]

lemma split_chunks_concat: "0 < n \<Longrightarrow> concat (split_chunks n data) = data"
proof (induction n data rule: split_chunks.induct)
  case (1 n data)
  then show ?case by (subst split_chunks.simps) auto
qed

lemma split_chunks_size: "c \<in> set (split_chunks n data) \<Longrightarrow> c \<noteq> [] \<and> length c \<le> n"
proof (induction n data rule: split_chunks.induct)
  case (1 n data)
  from 1(2) show ?case
    using 1(1) by (subst (asm) split_chunks.simps) (auto split: if_splits)
qed

lemma push_stream: "0 < sabs \<Longrightarrow> concat (deque (push sabs data s)) = concat (deque s) @ data"
  by (simp add: push_def split_chunks_concat)

lemma push_sizes: "list_all (\<lambda>c. length c \<le> sabs) (deque s) \<Longrightarrow> list_all (\<lambda>c. length c \<le> sabs) (deque (push sabs data s))"
  by (auto simp: push_def list_all_iff dest: split_chunks_size)

lemma handle_write_stream:
  "handle_write results s = (sent, False, s') \<Longrightarrow> sent @ concat (deque s') = concat (deque s)"
proof (induction results s arbitrary: sent s' rule: handle_write.induct)
  case (1 results s)
  show ?case
  proof (cases "deque s")
    case (Cons m q)
    show ?thesis
    proof (cases results)
      case (Cons r results')
      show ?thesis
      proof (cases r)
        case (Sent n)
        note IH = 1(1) [OF \<open>deque s = m # q\<close> Cons Sent] 1(2) [OF \<open>deque s = m # q\<close> Cons Sent]
        show ?thesis
        proof (cases "n < length m \<and> n \<noteq> 0")
          case True
          then obtain sent1 where *: "handle_write results' (s\<lparr>deque := drop n m # q\<rparr>) = (sent1, False, s')"
            and sent: "sent = take n m @ sent1"
            using 1(3) \<open>deque s = m # q\<close> Cons Sent by (subst (asm) handle_write.simps) (auto split: prod.splits)
          from True IH(1) * have "sent1 @ concat (deque s') = concat (drop n m # q)" by simp
          then show ?thesis by (simp add: sent \<open>deque s = m # q\<close>)
        next
          case False
          show ?thesis
          proof (cases "n < length m")
            case True
            with False 1(3) \<open>deque s = m # q\<close> Cons Sent show ?thesis by (subst (asm) handle_write.simps) auto
          next
            case False
            then obtain sent1 where *: "handle_write results' (s\<lparr>deque := q\<rparr>) = (sent1, False, s')"
              and sent: "sent = m @ sent1"
              using 1(3) \<open>deque s = m # q\<close> Cons Sent by (subst (asm) handle_write.simps) (auto split: prod.splits)
            from False IH(2) * have "sent1 @ concat (deque s') = concat q" by simp
            then show ?thesis by (simp add: sent \<open>deque s = m # q\<close>)
          qed
        qed
      qed (use 1(3) \<open>deque s = m # q\<close> Cons in \<open>subst (asm) handle_write.simps; simp\<close>)+
    qed (use 1(3) Cons in \<open>subst (asm) handle_write.simps; simp\<close>)
  qed (use 1(3) in \<open>subst (asm) handle_write.simps; auto\<close>)
qed

text \<open>A socket that takes whatever it is given empties the queue.\<close>

lemma handle_write_drains:
  "list_all2 (\<lambda>r m. r = Sent (length m)) results (deque s)
    \<Longrightarrow> handle_write results s = (concat (deque s), False, \<lparr>deque = [], writable = False, \<dots> = out_state.more s\<rparr>)"
proof (induction results "deque s" arbitrary: s rule: list_all2_induct)
  case Nil
  then show ?case by (cases s) (subst handle_write.simps, simp)
next
  case (Cons r results m q)
  have IH: "handle_write results (s\<lparr>deque := q\<rparr>) = (concat q, False, \<lparr>deque = [], writable = False, \<dots> = out_state.more s\<rparr>)"
    using Cons.hyps(3) [of "s\<lparr>deque := q\<rparr>"] by simp
  show ?case using Cons.hyps(1) Cons.hyps(4) [symmetric] IH by (subst handle_write.simps) simp
qed

datatype out_step = Push bytes | Write "send_result list"

fun run_out :: "nat \<Rightarrow> out_step list \<Rightarrow> out_state \<Rightarrow> bytes list \<times> bool \<times> out_state" where
  "run_out sabs [] s = ([], False, s)"
| "run_out sabs (Push data # steps) s = run_out sabs steps (push sabs data s)"
| "run_out sabs (Write results # steps) s =
     (let (sent, failed, s1) = handle_write results s
      in if failed then ([sent], True, s1)
         else let (sents, failed', s2) = run_out sabs steps s1 in (sent # sents, failed', s2))"

fun pushed :: "out_step list \<Rightarrow> bytes list" where
  "pushed [] = []"
| "pushed (Push data # steps) = data # pushed steps"
| "pushed (Write results # steps) = pushed steps"

lemma run_out_stream:
  "0 < sabs \<Longrightarrow> run_out sabs steps s = (sents, False, s')
    \<Longrightarrow> concat sents @ concat (deque s') = concat (deque s) @ concat (pushed steps)"
proof (induction sabs steps s arbitrary: sents s' rule: run_out.induct)
  case (3 sabs results steps s)
  obtain sent failed s1 where w: "handle_write results s = (sent, failed, s1)" by (cases "handle_write results s") auto
  with 3(3) have "\<not> failed" by (auto split: if_splits)
  with w 3(3) obtain sents2 where *: "sents = sent # sents2" "run_out sabs steps s1 = (sents2, False, s')"
    by (auto split: prod.splits)
  from 3(1) [OF w [symmetric] refl refl \<open>\<not> failed\<close> 3(2) *(2)] handle_write_stream w \<open>\<not> failed\<close> show ?case
    by (simp add: *(1))
qed (auto simp: push_stream)

section \<open>Requests on the wire\<close>

record out_request =
  or_message :: out_message
  or_stream :: int
  or_compressor :: "(bytes \<Rightarrow> bytes) option"
  or_beta :: bool

definition message_flags :: "out_message \<Rightarrow> bool \<Rightarrow> bool \<Rightarrow> int" where
  "message_flags m compressed beta =
     (if payload_given (om_custom_payload m) then 0x04 else 0) OR (if compressed then 0x01 else 0)
     OR (if om_tracing m then 0x02 else 0) OR (if beta then 0x10 else 0)"

definition request_frame :: "int \<Rightarrow> out_request \<Rightarrow> wire_frame" where
  "request_frame v r =
     (let body = projr (encode_body v (or_message r));
          compressed = (or_compressor r \<noteq> None \<and> body \<noteq> [])
      in \<lparr>wf_response = False, wf_version = v, wf_flags = message_flags (or_message r) compressed (or_beta r),
          wf_stream = or_stream r, wf_opcode = request_opcode (om_request (or_message r)),
          wf_body = if compressed then the (or_compressor r) body else body\<rparr>)"

definition encode_request :: "int \<Rightarrow> out_request \<Rightarrow> bytes res" where
  "encode_request v r = encode_message (or_message r) (or_stream r) v (or_compressor r) (or_beta r)"

lemma wr_seq_nested: "wr_seq [wr_seq [a, b], c] = wr_seq [a, b, c]"
  by (cases a; cases b; cases c) simp_all

lemma write_header_frame:
  "wr_seq [write_header v f st p (int (length body)), Inr body] = put_wire_frame
     \<lparr>wf_response = False, wf_version = v, wf_flags = f, wf_stream = st, wf_opcode = p, wf_body = body\<rparr>"
  unfolding write_header_def put_wire_frame_def wr_seq_nested by simp

lemma encode_request_frame:
  assumes "encode_request v r = Inr bs"
  shows "put_wire_frame (request_frame v r) = Inr bs"
proof -
  from assms obtain body where body: "encode_body v (or_message r) = Inr body"
    by (auto simp: encode_request_def encode_message_def res_bind_Inr_iff)
  show ?thesis
    using assms
    unfolding encode_request_def encode_message_def body res_bind_simps write_header_frame
    by (cases "or_compressor r"; cases "body = []")
      (simp_all add: request_frame_def message_flags_def body Let_def write_header_frame del: wr_seq.simps split: if_splits)
qed

text \<open>
  C17: requests that are encoded and pushed, with the writable socket taking any part of them at
  any time, are read from the other end in the order they were sent, each under its stream id,
  with its opcode, flags and (compressed) body, once the queue is empty and however the
  transport cuts the bytes.
\<close>

theorem requests_on_the_wire:
  assumes "list_all2 (\<lambda>r bs. encode_request v r = Inr bs) rs (pushed steps)" "0 \<le> v" "v \<le> 5" "0 < sabs"
    and "run_out sabs steps out_init = (sents, False, s')" "deque s' = []" "concat chunks = concat sents"
  shows "fst (feed chunks io_init)
    = map (\<lambda>r. Frame (frame_of (request_frame v r)) (wf_body (request_frame v r))) rs"
proof -
  have "list_all2 (\<lambda>m bs. put_wire_frame m = Inr bs \<and> version_ok m) (map (request_frame v) rs) (pushed steps)"
    using assms(1) assms(2, 3) encode_request_frame
    by (auto simp: list_all2_conv_all_nth version_ok_def request_frame_def Let_def)
  moreover have "concat chunks = concat (pushed steps) @ []"
    using run_out_stream [OF assms(4, 5)] assms(6, 7) by (simp add: out_init_def)
  moreover have "incomplete []" by (simp add: incomplete_def)
  ultimately have "fst (feed chunks io_init) = map (\<lambda>m. Frame (frame_of m) (wf_body m)) (map (request_frame v) rs)"
    by (intro stream_delivered)
  then show ?thesis by simp
qed

definition example_request :: out_request where
  "example_request = \<lparr>or_message = \<lparr>om_request = Options, om_tracing = True, om_custom_payload = None\<rparr>, or_stream = 5,
     or_compressor = None, or_beta = False\<rparr>"

theorem requests_on_the_wire_witness:
  "run_out 4 [Push [4, 2, 0, 5, 5, 0, 0, 0, 0], Write [Sent 3, Sent 1], Write [Sent 9, Sent 9]] out_init
     = ([[4, 2, 0, 5], [5, 0, 0, 0, 0]], False, \<lparr>deque = [], writable = False\<rparr>)
   \<and> fst (feed [[4, 2, 0, 5, 5, 0], [0, 0, 0]] io_init) = [Frame (frame.make 4 2 5 5 9 9) []]"
proof -
  have enc: "encode_request 4 example_request = Inr [4, 2, 0, 5, 5, 0, 0, 0, 0]"
    by (simp add: encode_request_def encode_message_def encode_body_def write_header_def example_request_def payload_given_def
        write_if_def send_eval uint8_pack_def int16_pack_def)
  have run: "run_out 4 [Push [4, 2, 0, 5, 5, 0, 0, 0, 0], Write [Sent 3, Sent 1], Write [Sent 9, Sent 9]] out_init
     = ([[4, 2, 0, 5], [5, 0, 0, 0, 0]], False, \<lparr>deque = [], writable = False\<rparr>)"
    by (simp add: push_def out_init_def split_chunks.simps handle_write.simps)
  have "fst (feed [[4, 2, 0, 5, 5, 0], [0, 0, 0]] io_init)
      = map (\<lambda>r. Frame (frame_of (request_frame 4 r)) (wf_body (request_frame 4 r))) [example_request]"
    by (rule requests_on_the_wire [OF _ _ _ _ run]) (simp_all add: enc)
  with run show ?thesis
    by (simp add: request_frame_def frame_of_def header_size_def example_request_def message_flags_def payload_given_def encode_body_def write_if_def)
qed

end
