(* ===== verification/Effects.thy ===== *)
theory Effects
  imports Prelude
begin

text \<open>
  Code that changes an object, calls out to others and may raise: a computation takes the state
  of the object and gives a result or an exception, the calls it made (in order) and the state it
  leaves. As in Python, a raise does not undo what was done before it. \<open>triple\<close> relates the state
  and the history of calls before and after.
\<close>

type_synonym ('s, 'o, 'e, 'a) op = "'s \<Rightarrow> ('e + 'a) \<times> 'o list \<times> 's"

definition op_return :: "'a \<Rightarrow> ('s, 'o, 'e, 'a) op" where
  "op_return x s = (Inr x, [], s)"

definition op_raise :: "'e \<Rightarrow> ('s, 'o, 'e, 'a) op" where
  "op_raise e s = (Inl e, [], s)"

definition op_read :: "('s \<Rightarrow> 'a) \<Rightarrow> ('s, 'o, 'e, 'a) op" where
  "op_read f s = (Inr (f s), [], s)"

definition op_modify :: "('s \<Rightarrow> 's) \<Rightarrow> ('s, 'o, 'e, unit) op" where
  "op_modify f s = (Inr (), [], f s)"

definition op_emit :: "'o list \<Rightarrow> ('s, 'o, 'e, unit) op" where
  "op_emit out s = (Inr (), out, s)"

definition op_bind :: "('s, 'o, 'e, 'a) op \<Rightarrow> ('a \<Rightarrow> ('s, 'o, 'e, 'b) op) \<Rightarrow> ('s, 'o, 'e, 'b) op" where
  "op_bind m f s =
     (case m s of
        (Inl e, out, s1) \<Rightarrow> (Inl e, out, s1)
      | (Inr x, out, s1) \<Rightarrow> (case f x s1 of (r, out', s2) \<Rightarrow> (r, out @ out', s2)))"

definition op_catch :: "('s, 'o, 'e, 'a) op \<Rightarrow> ('e \<Rightarrow> ('s, 'o, 'e, 'a) op) \<Rightarrow> ('s, 'o, 'e, 'a) op" where
  "op_catch m h s =
     (case m s of
        (Inl e, out, s1) \<Rightarrow> (case h e s1 of (r, out', s2) \<Rightarrow> (r, out @ out', s2))
      | (Inr x, out, s1) \<Rightarrow> (Inr x, out, s1))"

definition op_then :: "('s, 'o, 'e, 'a) op \<Rightarrow> ('s, 'o, 'e, 'b) op \<Rightarrow> ('s, 'o, 'e, 'b) op" where
  "op_then m m' = op_bind m (\<lambda>_. m')"

definition op_when :: "bool \<Rightarrow> ('s, 'o, 'e, unit) op \<Rightarrow> ('s, 'o, 'e, unit) op" where
  "op_when b m = (if b then m else op_return ())"

fun op_each :: "('b \<Rightarrow> ('s, 'o, 'e, unit) op) \<Rightarrow> 'b list \<Rightarrow> ('s, 'o, 'e, unit) op" where
  "op_each f [] = op_return ()"
| "op_each f (x # xs) = op_then (f x) (op_each f xs)"

named_theorems op_defs \<open>the computations unfolded\<close>
named_theorems triples \<open>introduction rules for triples\<close>

lemmas op_unfold [op_defs] = op_return_def op_raise_def op_read_def op_modify_def op_emit_def op_bind_def op_catch_def
  op_then_def op_when_def

definition triple ::
    "('s \<Rightarrow> 'o list \<Rightarrow> bool) \<Rightarrow> ('s, 'o, 'e, 'a) op \<Rightarrow> ('e + 'a \<Rightarrow> 's \<Rightarrow> 'o list \<Rightarrow> bool) \<Rightarrow> bool" where
  "triple P m Q \<longleftrightarrow> (\<forall>s out r out' s'. P s out \<longrightarrow> m s = (r, out', s') \<longrightarrow> Q r s' (out @ out'))"

lemma tripleI: "(\<And>s out r out' s'. P s out \<Longrightarrow> m s = (r, out', s') \<Longrightarrow> Q r s' (out @ out')) \<Longrightarrow> triple P m Q"
  by (simp add: triple_def)

lemma tripleD: "triple P m Q \<Longrightarrow> P s out \<Longrightarrow> m s = (r, out', s') \<Longrightarrow> Q r s' (out @ out')"
  by (simp add: triple_def)

lemma triple_weaken:
  "triple P' m Q' \<Longrightarrow> (\<And>s out. P s out \<Longrightarrow> P' s out) \<Longrightarrow> (\<And>r s out. Q' r s out \<Longrightarrow> Q r s out) \<Longrightarrow> triple P m Q"
  unfolding triple_def by blast

lemma triple_bind:
  assumes "triple P m R" "\<And>x. triple (R (Inr x)) (f x) Q" "\<And>e s out. R (Inl e) s out \<Longrightarrow> Q (Inl e) s out"
  shows "triple P (op_bind m f) Q"
proof (rule tripleI)
  fix s out r out' s'
  assume *: "P s out" "op_bind m f s = (r, out', s')"
  obtain r1 out1 s1 where m: "m s = (r1, out1, s1)" by (cases "m s") auto
  note R = tripleD [OF assms(1) *(1) m]
  show "Q r s' (out @ out')"
  proof (cases r1)
    case (Inl e)
    with m R *(2) assms(3) show ?thesis by (auto simp: op_bind_def)
  next
    case (Inr x)
    obtain out2 where "f x s1 = (r, out2, s')" "out' = out1 @ out2"
      using m Inr *(2) by (auto simp: op_bind_def split: prod.splits)
    with tripleD [OF assms(2) R [unfolded Inr]] show ?thesis by simp
  qed
qed

lemma triple_catch:
  assumes "triple P m R" "\<And>e. triple (R (Inl e)) (h e) Q" "\<And>x s out. R (Inr x) s out \<Longrightarrow> Q (Inr x) s out"
  shows "triple P (op_catch m h) Q"
proof (rule tripleI)
  fix s out r out' s'
  assume *: "P s out" "op_catch m h s = (r, out', s')"
  obtain r1 out1 s1 where m: "m s = (r1, out1, s1)" by (cases "m s") auto
  note R = tripleD [OF assms(1) *(1) m]
  show "Q r s' (out @ out')"
  proof (cases r1)
    case (Inr x)
    with m R *(2) assms(3) show ?thesis by (auto simp: op_catch_def)
  next
    case (Inl e)
    obtain out2 where "h e s1 = (r, out2, s')" "out' = out1 @ out2"
      using m Inl *(2) by (auto simp: op_catch_def split: prod.splits)
    with tripleD [OF assms(2) R [unfolded Inl]] show ?thesis by simp
  qed
qed

text \<open>A computation that keeps a relation between the state and the calls made so far.\<close>

abbreviation keeps :: "('s \<Rightarrow> 'o list \<Rightarrow> bool) \<Rightarrow> ('s, 'o, 'e, 'a) op \<Rightarrow> bool" where
  "keeps P m \<equiv> triple P m (\<lambda>_. P)"

lemma keeps_return [triples]: "keeps P (op_return x)"
  by (simp add: triple_def op_return_def)

lemma keeps_raise [triples]: "keeps P (op_raise e)"
  by (simp add: triple_def op_raise_def)

lemma keeps_read [triples]: "keeps P (op_read f)"
  by (simp add: triple_def op_read_def)

lemma keeps_modify: "(\<And>s out. P s out \<Longrightarrow> P (f s) out) \<Longrightarrow> keeps P (op_modify f)"
  by (simp add: triple_def op_modify_def)

lemma keeps_emit: "(\<And>s out. P s out \<Longrightarrow> P s (out @ out')) \<Longrightarrow> keeps P (op_emit out')"
  by (simp add: triple_def op_emit_def)

lemma keeps_bind [triples]: "keeps P m \<Longrightarrow> (\<And>x. keeps P (f x)) \<Longrightarrow> keeps P (op_bind m f)"
  by (rule triple_bind) simp_all

lemma keeps_then [triples]: "keeps P m \<Longrightarrow> keeps P m' \<Longrightarrow> keeps P (op_then m m')"
  by (simp add: op_then_def keeps_bind)

lemma keeps_catch [triples]: "keeps P m \<Longrightarrow> (\<And>e. keeps P (h e)) \<Longrightarrow> keeps P (op_catch m h)"
  by (rule triple_catch) simp_all

lemma keeps_when [triples]: "(b \<Longrightarrow> keeps P m) \<Longrightarrow> keeps P (op_when b m)"
  by (simp add: op_when_def keeps_return)

lemma keeps_if [triples]: "(b \<Longrightarrow> keeps P m) \<Longrightarrow> (\<not> b \<Longrightarrow> keeps P m') \<Longrightarrow> keeps P (if b then m else m')"
  by simp

lemma keeps_each [triples]: "(\<And>x. x \<in> set xs \<Longrightarrow> keeps P (f x)) \<Longrightarrow> keeps P (op_each f xs)"
  by (induction xs) (simp_all add: keeps_return keeps_then)

text \<open>Reading the state keeps what was read in mind.\<close>

lemma triple_read: "(\<And>x. triple (\<lambda>s out. P s out \<and> f s = x) (g x) Q) \<Longrightarrow> triple P (op_bind (op_read f) g) Q"
  by (rule triple_bind [where R = "\<lambda>r s out. P s out \<and> r = Inr (f s)"]) (auto simp: triple_def op_read_def)

lemma triple_then: "triple P m (\<lambda>_. R) \<Longrightarrow> triple R m' Q \<Longrightarrow> (\<And>e s out. R s out \<Longrightarrow> Q (Inl e) s out) \<Longrightarrow> triple P (op_then m m') Q"
  unfolding op_then_def by (rule triple_bind [where R = "\<lambda>_. R"])

lemma triple_when: "(b \<Longrightarrow> triple P m (\<lambda>_. Q)) \<Longrightarrow> (\<And>s out. P s out \<Longrightarrow> \<not> b \<Longrightarrow> Q s out) \<Longrightarrow> triple P (op_when b m) (\<lambda>_. Q)"
  by (auto simp: op_when_def triple_def op_return_def)

lemma triple_if: "(b \<Longrightarrow> triple P m Q) \<Longrightarrow> (\<not> b \<Longrightarrow> triple P m' Q) \<Longrightarrow> triple P (if b then m else m') Q"
  by simp

lemma triple_return: "(\<And>s out. P s out \<Longrightarrow> Q (Inr x) s out) \<Longrightarrow> triple P (op_return x) Q"
  by (simp add: op_return_def triple_def)

lemma triple_pre: "triple P' m Q \<Longrightarrow> (\<And>s out. P s out \<Longrightarrow> P' s out) \<Longrightarrow> triple P m Q"
  unfolding triple_def by blast

lemma triple_modify: "(\<And>s out. P s out \<Longrightarrow> Q (f s) out) \<Longrightarrow> triple P (op_modify f) (\<lambda>_. Q)"
  by (simp add: triple_def op_modify_def)

text \<open>A change of the state that cannot raise, first.\<close>

lemma triple_modify_then: "(\<And>s out. P s out \<Longrightarrow> R (f s) out) \<Longrightarrow> triple R m Q \<Longrightarrow> triple P (op_then (op_modify f) m) Q"
  by (fastforce simp: triple_def op_then_def op_bind_def op_modify_def split: prod.splits)

lemma triple_conj: "triple P m Q \<Longrightarrow> triple P m Q' \<Longrightarrow> triple P m (\<lambda>r s out. Q r s out \<and> Q' r s out)"
  by (simp add: triple_def)

lemma keeps_conj: "keeps P m \<Longrightarrow> keeps Q m \<Longrightarrow> keeps (\<lambda>s out. P s out \<and> Q s out) m"
  unfolding triple_def by blast

lemma triple_false: "(\<And>s out. \<not> P s out) \<Longrightarrow> triple P m Q"
  by (simp add: triple_def)

lemma keeps_run: "keeps P m \<Longrightarrow> P s out \<Longrightarrow> m s = (r, out', s') \<Longrightarrow> P s' (out @ out')"
  by (rule tripleD)

text \<open>Computations that do not raise.\<close>

definition never_raises :: "('s, 'o, 'e, 'a) op \<Rightarrow> bool" where
  "never_raises m \<longleftrightarrow> (\<forall>s. \<exists>x out s'. m s = (Inr x, out, s'))"

named_theorems never \<open>introduction rules for computations that do not raise\<close>

lemma never_basic [never]: "never_raises (op_return x)" "never_raises (op_read f)" "never_raises (op_modify g)" "never_raises (op_emit out)"
  by (simp_all add: never_raises_def op_defs)

lemma never_raisesE:
  assumes "never_raises m"
  obtains x out s' where "m s = (Inr x, out, s')"
  using assms unfolding never_raises_def by meson

lemma never_bind [never]:
  assumes "never_raises m" "\<And>x. never_raises (f x)"
  shows "never_raises (op_bind m f)"
  unfolding never_raises_def
proof
  fix s
  obtain x out s1 where m: "m s = (Inr x, out, s1)" by (rule never_raisesE [OF assms(1)])
  obtain y out' s2 where "f x s1 = (Inr y, out', s2)" by (rule never_raisesE [OF assms(2)])
  with m show "\<exists>x out s'. op_bind m f s = (Inr x, out, s')" by (simp add: op_bind_def)
qed

lemma never_then [never]: "never_raises m \<Longrightarrow> never_raises m' \<Longrightarrow> never_raises (op_then m m')"
  by (simp add: op_then_def never_bind)

lemma never_catch [never]:
  assumes "\<And>e. never_raises (h e)"
  shows "never_raises (op_catch m h)"
  unfolding never_raises_def
proof
  fix s
  show "\<exists>x out s'. op_catch m h s = (Inr x, out, s')"
  proof (cases "m s")
    case (fields r out s1)
    show ?thesis
    proof (cases r)
      case (Inl e)
      obtain y out' s2 where "h e s1 = (Inr y, out', s2)" by (rule never_raisesE [OF assms])
      with fields Inl show ?thesis by (simp add: op_catch_def)
    qed (use fields in \<open>simp add: op_catch_def\<close>)
  qed
qed

lemma never_when [never]: "never_raises m \<Longrightarrow> never_raises (op_when b m)"
  by (simp add: op_when_def never_basic)

lemma never_if [never]: "never_raises m \<Longrightarrow> never_raises m' \<Longrightarrow> never_raises (if b then m else m')"
  by simp

lemma never_each [never]: "(\<And>x. never_raises (f x)) \<Longrightarrow> never_raises (op_each f xs)"
  by (induction xs) (simp_all add: never_basic never_then)

lemma never_prod [never]: "(\<And>a b. never_raises (f a b)) \<Longrightarrow> never_raises (case p of (a, b) \<Rightarrow> f a b)"
  by (simp split: prod.split)

lemma triple_bind_never:
  assumes "never_raises m" "triple P m (\<lambda>_. R)" "\<And>x. triple R (f x) Q"
  shows "triple P (op_bind m f) Q"
proof (rule triple_bind [where R = "\<lambda>r s out. R s out \<and> (\<exists>x. r = Inr x)"])
  show "triple P m (\<lambda>r s out. R s out \<and> (\<exists>x. r = Inr x))"
  proof (rule tripleI)
    fix s out r out' s'
    assume *: "P s out" "m s = (r, out', s')"
    obtain x where "r = Inr x" using never_raisesE [OF assms(1), of s] *(2) by auto
    with tripleD [OF assms(2) *] show "R s' (out @ out') \<and> (\<exists>x. r = Inr x)" by simp
  qed
  show "triple (\<lambda>s out. R s out \<and> (\<exists>y. Inr x = Inr y)) (f x) Q" for x using assms(3) by simp
qed simp

lemma triple_then_never:
  "never_raises m \<Longrightarrow> triple P m (\<lambda>_. R) \<Longrightarrow> triple R m' Q \<Longrightarrow> triple P (op_then m m') Q"
  unfolding op_then_def by (rule triple_bind_never)

end
