(* ===== verification/Connection.thy ===== *)
theory Connection
  imports Responses Framing Effects
begin

text \<open>
  A connection (\<open>cassandra/connection.py\<close>, with \<open>close\<close> of \<open>cassandra/io/asyncorereactor.py\<close>): stream
  ids, the table of requests that wait for a response, the dispatch of responses, the start of
  the protocol (options, startup, authentication) and the end of a connection, by \<open>close\<close> or by
  \<open>defunct\<close>. Calls out of the connection are values of \<open>action\<close>, in the order they are made.
\<close>

section \<open>State\<close>

datatype exn =
    ConnectionShutdown | ConnectionException | AuthenticationFailed | OperationTimedOut | SocketFailure
  | ErrorResponse response
  | PyError py_error

text \<open>What a callback is called with.\<close>

datatype answer = Message message | Failure exn

text \<open>
  The callbacks a connection registers itself, and those of its users, which are known by a
  number. \<open>HandleStartup\<close> carries \<open>did_authenticate\<close>.
\<close>

datatype callback =
    HandleOptions | HandleStartup bool | HandleAuth
  | ProcessResult ptext nat
  | Client nat

type_synonym decoder = "int \<Rightarrow> int \<Rightarrow> int \<Rightarrow> int \<Rightarrow> bytes \<Rightarrow> (bytes \<Rightarrow> bytes res) option \<Rightarrow> column list option
  \<Rightarrow> registry \<Rightarrow> (message \<times> registry) res"

type_synonym encoder = "out_message \<Rightarrow> int \<Rightarrow> int \<Rightarrow> (bytes \<Rightarrow> bytes) option \<Rightarrow> bool \<Rightarrow> bytes res"

type_synonym codec = "(bytes \<Rightarrow> bytes) \<times> (bytes \<Rightarrow> bytes res)"

type_synonym request_entry = "int \<times> callback \<times> decoder \<times> column list option"

datatype action =
    Call nat answer
  | KeyspaceSet nat "exn option"
  | Watch nat event
  | Pushed bytes
  | SocketClosed
  | AuthenticationSuccess ptext

datatype compression = NoCompression | AnyCompression | NamedCompression ptext

text \<open>
  An authenticator of the user: what it first sends, and what it answers to the challenges so
  far; either may raise.
\<close>

datatype authenticator =
    NoAuthenticator
  | CredentialsDict "(py_str \<times> py_str) list"
  | Sasl "py_str option res" "bytes list \<Rightarrow> py_str option res"

record conn =
  protocol_version :: int
  max_request_id :: int
  request_ids :: "int list"
  highest_request_id :: int
  in_flight :: int
  requests :: "request_entry list"
  is_defunct :: bool
  is_closed :: bool
  connected :: bool
  last_error :: "exn option"
  msg_received :: bool
  is_unsupported_proto_version :: bool
  is_control_connection :: bool
  push_watchers :: "(ptext \<times> nat list) list"
  conn_keyspace :: "ptext option"
  cql_version :: "ptext option"
  no_compact :: bool
  allow_beta :: bool
  compression_opt :: compression
  codecs :: "(ptext \<times> codec) list"
  pending_compressor :: "(bytes \<Rightarrow> bytes) option"
  compressor :: "(bytes \<Rightarrow> bytes) option"
  decompressor :: "(bytes \<Rightarrow> bytes res) option"
  authenticator :: authenticator
  challenges :: "bytes list"
  types :: registry

type_synonym 'a cop = "(conn, action, exn, 'a) op"

definition dead :: "conn \<Rightarrow> bool" where
  "dead c \<longleftrightarrow> is_defunct c \<or> is_closed c"

section \<open>A new connection\<close>

definition max_request_id_for :: "int \<Rightarrow> int \<Rightarrow> int" where
  "max_request_id_for v max_in_flight =
     (if v \<ge> 3 then min (max_in_flight - 1) (2 ^ 15 - 1) else min max_in_flight (2 ^ 7 - 1))"

definition initial_size :: "int \<Rightarrow> int \<Rightarrow> int" where
  "initial_size v max_in_flight = (if v \<ge> 3 then min 300 max_in_flight else max_request_id_for v max_in_flight + 1)"

definition conn_init :: "int \<Rightarrow> int \<Rightarrow> compression \<Rightarrow> (ptext \<times> codec) list \<Rightarrow> authenticator \<Rightarrow> ptext option
    \<Rightarrow> bool \<Rightarrow> bool \<Rightarrow> bool \<Rightarrow> registry \<Rightarrow> conn" where
  "conn_init v max_in_flight cmpr local_codecs auth cql control beta nocompact reg =
     \<lparr>protocol_version = v, max_request_id = max_request_id_for v max_in_flight,
      request_ids = [0..initial_size v max_in_flight - 1],
      highest_request_id = initial_size v max_in_flight - 1,
      in_flight = 0, requests = [], is_defunct = False, is_closed = False, connected = False, last_error = None,
      msg_received = False, is_unsupported_proto_version = False, is_control_connection = control, push_watchers = [],
      conn_keyspace = None, cql_version = cql, no_compact = nocompact, allow_beta = beta, compression_opt = cmpr,
      codecs = local_codecs, pending_compressor = None, compressor = None, decompressor = None, authenticator = auth,
      challenges = [], types = reg\<rparr>"

section \<open>Compression\<close>

text \<open>
  The length of an lz4 block is big endian on the wire and little endian in the lz4 module, of
  which the two functions are parameters.
\<close>

definition lz4_compress :: "(bytes \<Rightarrow> bytes) \<Rightarrow> bytes \<Rightarrow> bytes res" where
  "lz4_compress block_compress byts = wr_seq [int32_pack (int (length byts)), Inr (drop 4 (block_compress byts))]"

definition lz4_decompress :: "(bytes \<Rightarrow> bytes res) \<Rightarrow> bytes \<Rightarrow> bytes res" where
  "lz4_decompress block_decompress byts = block_decompress (rev (take 4 byts) @ drop 4 byts)"

section \<open>Stream ids and sending\<close>

definition get_request_id :: "int cop" where
  "get_request_id = op_bind (op_read request_ids) (\<lambda>ids.
     case ids of
       n # ids' \<Rightarrow> op_then (op_modify (\<lambda>c. c\<lparr>request_ids := ids'\<rparr>)) (op_return n)
     | [] \<Rightarrow> op_bind (op_read (\<lambda>c. (highest_request_id c + 1, max_request_id c))) (\<lambda>(new_request_id, max_id).
         if new_request_id \<le> max_id
         then op_then (op_modify (\<lambda>c. c\<lparr>highest_request_id := new_request_id\<rparr>)) (op_return new_request_id)
         else op_raise (PyError AssertionError)))"

definition plain_message :: "request \<Rightarrow> out_message" where
  "plain_message r = \<lparr>om_request = r, om_tracing = False, om_custom_payload = None\<rparr>"

definition send_msg ::
    "encoder \<Rightarrow> decoder \<Rightarrow> column list option \<Rightarrow> out_message \<Rightarrow> int \<Rightarrow> callback \<Rightarrow> nat cop" where
  "send_msg enc dec result_metadata msg request_id cb =
     op_bind (op_read dead) (\<lambda>d.
     if d then op_raise ConnectionShutdown
     else op_then (op_modify (\<lambda>c. c\<lparr>requests := AList.update request_id (cb, dec, result_metadata) (requests c)\<rparr>))
       (op_bind (op_read (\<lambda>c. enc msg request_id (protocol_version c) (compressor c) (allow_beta c))) (\<lambda>r.
          case r of
            Inl e \<Rightarrow> op_raise (PyError e)
          | Inr bs \<Rightarrow> op_then (op_emit [Pushed bs]) (op_return (length bs)))))"

definition send_default :: "request \<Rightarrow> callback \<Rightarrow> unit cop" where
  "send_default r cb = op_bind get_request_id (\<lambda>request_id.
     op_then (send_msg encode_message decode_message None (plain_message r) request_id cb) (op_return ()))"

section \<open>The start of the protocol\<close>

text \<open>
  \<open>dfn\<close> is what a call of \<open>self.defunct\<close> does; \<open>defunct\<close> itself runs callbacks, and these may call it
  again, on a connection that is defunct by then.
\<close>

type_synonym on_defunct = "exn \<Rightarrow> exn option cop"

definition defunct_on_error :: "on_defunct \<Rightarrow> unit cop \<Rightarrow> unit cop" where
  "defunct_on_error dfn m = op_catch m (\<lambda>e. op_then (dfn e) (op_return ()))"

definition startup_options :: "ptext option \<Rightarrow> bool \<Rightarrow> (py_str \<times> py_str) list" where
  "startup_options cmpr nocompact =
     (case cmpr of Some k \<Rightarrow> if k = [] then [] else [(PyText (text_of ''COMPRESSION''), PyText k)] | None \<Rightarrow> [])
     @ (if nocompact then [(PyText (text_of ''NO_COMPACT''), PyText (text_of ''true''))] else [])"

definition send_startup_message :: "on_defunct \<Rightarrow> ptext option \<Rightarrow> unit cop" where
  "send_startup_message dfn cmpr = defunct_on_error dfn
     (op_bind (op_read (\<lambda>c. (cql_version c, no_compact c))) (\<lambda>(cql, nocompact).
        case cql of
          None \<Rightarrow> op_raise (PyError TypeError)
        | Some v \<Rightarrow> send_default (Startup (PyText v) (startup_options cmpr nocompact)) (HandleStartup False)))"

definition DEFAULT_CQL_VERSION :: ptext where
  "DEFAULT_CQL_VERSION = text_of ''3.0.0''"

definition send_options_message :: "on_defunct \<Rightarrow> unit cop" where
  "send_options_message dfn = defunct_on_error dfn
     (op_bind (op_read (\<lambda>c. cql_version c = None \<and> (compression_opt c = NoCompression \<or> codecs c = []))) (\<lambda>skip.
        if skip
        then op_then (op_modify (\<lambda>c. c\<lparr>pending_compressor := None, cql_version := Some DEFAULT_CQL_VERSION\<rparr>))
               (send_startup_message dfn None)
        else send_default Options HandleOptions))"

definition choose_cql_version :: "ptext list \<Rightarrow> ptext option \<Rightarrow> exn + ptext" where
  "choose_cql_version supported cql =
     (case cql of
        Some v \<Rightarrow> if v \<noteq> [] then if v \<in> set supported then Inr v else Inl (PyError ProtocolError)
                  else (case supported of [] \<Rightarrow> Inl (PyError IndexError) | s # _ \<Rightarrow> Inr s)
      | None \<Rightarrow> (case supported of [] \<Rightarrow> Inl (PyError IndexError) | s # _ \<Rightarrow> Inr s))"

definition choose_compression :: "compression \<Rightarrow> (ptext \<times> codec) list \<Rightarrow> ptext list \<Rightarrow> exn + ptext option" where
  "choose_compression cmpr local_codecs remote =
     (if cmpr = NoCompression then Inr None
      else case [k \<leftarrow> map fst local_codecs. k \<in> set remote] of
        [] \<Rightarrow> Inr None
      | k # _ \<Rightarrow>
          (case cmpr of
             NamedCompression name \<Rightarrow> if name \<in> set remote then Inr (Some name) else Inl (PyError ProtocolError)
           | _ \<Rightarrow> Inr (Some k)))"

definition set_codec :: "ptext option \<Rightarrow> unit cop" where
  "set_codec cmpr =
     (case cmpr of
        None \<Rightarrow> op_modify (\<lambda>c. c\<lparr>pending_compressor := None\<rparr>)
      | Some k \<Rightarrow> op_bind (op_read (\<lambda>c. map_of (codecs c) k)) (\<lambda>codec.
          case codec of
            None \<Rightarrow> op_raise (PyError KeyError)
          | Some (comp_fun, decomp_fun) \<Rightarrow>
              op_modify (\<lambda>c. c\<lparr>pending_compressor := Some comp_fun, decompressor := Some decomp_fun\<rparr>)))"

definition lift_sum :: "exn + 'a \<Rightarrow> 'a cop" where
  "lift_sum r = (case r of Inl e \<Rightarrow> op_raise e | Inr x \<Rightarrow> op_return x)"

definition unless_defunct :: "unit cop \<Rightarrow> unit cop" where
  "unless_defunct m = op_bind (op_read is_defunct) (\<lambda>d. op_when (\<not> d) m)"

definition handle_options_response :: "on_defunct \<Rightarrow> answer \<Rightarrow> unit cop" where
  "handle_options_response dfn ans = defunct_on_error dfn (unless_defunct
     (case ans of
        Failure e \<Rightarrow> op_raise (if e = ConnectionShutdown \<or> e = ConnectionException then e else ConnectionException)
      | Message m \<Rightarrow>
          (case msg_body m of
             Supported cql_versions opts \<Rightarrow>
               op_bind (lift_sum (case map_of opts (text_of ''COMPRESSION'') of None \<Rightarrow> Inl (PyError KeyError) | Some r \<Rightarrow> Inr r))
                 (\<lambda>remote.
               op_bind (op_bind (op_read cql_version) (\<lambda>cql. lift_sum (choose_cql_version cql_versions cql))) (\<lambda>v.
               op_then (op_modify (\<lambda>c. c\<lparr>cql_version := Some v, pending_compressor := None\<rparr>))
               (op_bind (op_bind (op_read (\<lambda>c. (compression_opt c, codecs c)))
                  (\<lambda>(cmpr, local_codecs). lift_sum (choose_compression cmpr local_codecs remote))) (\<lambda>cmpr.
                op_then (set_codec cmpr) (send_startup_message dfn cmpr)))))
           | _ \<Rightarrow> op_raise ConnectionException)))"

definition finish_startup :: "unit cop" where
  "finish_startup = op_modify (\<lambda>c. c\<lparr>connected := True,
     compressor := (case pending_compressor c of Some f \<Rightarrow> Some f | None \<Rightarrow> compressor c)\<rparr>)"

definition sasl_reply :: "py_str option res \<Rightarrow> unit cop" where
  "sasl_reply r =
     (case r of
        Inl e \<Rightarrow> op_raise (PyError e)
      | Inr reply \<Rightarrow> send_default (AuthResponse (case reply of Some s \<Rightarrow> s | None \<Rightarrow> PyText [])) HandleAuth)"

definition handle_startup_response :: "on_defunct \<Rightarrow> bool \<Rightarrow> answer \<Rightarrow> unit cop" where
  "handle_startup_response dfn did_authenticate ans = defunct_on_error dfn (unless_defunct
     (case ans of
        Failure e \<Rightarrow> op_raise (if e = ConnectionShutdown then e else PyError ProtocolError)
      | Message m \<Rightarrow>
          (case msg_body m of
             Ready \<Rightarrow> finish_startup
           | Authenticate cls \<Rightarrow> op_bind (op_read authenticator) (\<lambda>auth.
               case auth of
                 NoAuthenticator \<Rightarrow> op_raise AuthenticationFailed
               | CredentialsDict creds \<Rightarrow> send_default (Credentials creds) (HandleStartup True)
               | Sasl initial_response evaluate_challenge \<Rightarrow> sasl_reply initial_response)
           | Error _ _ _ \<Rightarrow> op_raise (if did_authenticate then AuthenticationFailed else ConnectionException)
           | _ \<Rightarrow> op_raise (PyError ProtocolError))))"

definition handle_auth_response :: "on_defunct \<Rightarrow> answer \<Rightarrow> unit cop" where
  "handle_auth_response dfn ans = defunct_on_error dfn (unless_defunct
     (case ans of
        Failure e \<Rightarrow> op_raise (if e = ConnectionShutdown then e else PyError ProtocolError)
      | Message m \<Rightarrow>
          (case msg_body m of
             AuthSuccess tok \<Rightarrow> op_then (op_emit [AuthenticationSuccess tok]) finish_startup
           | AuthChallenge challenge \<Rightarrow>
               op_then (op_modify (\<lambda>c. c\<lparr>challenges := challenges c @ [challenge]\<rparr>))
               (op_bind (op_read (\<lambda>c. (authenticator c, challenges c))) (\<lambda>(auth, asked).
                  case auth of
                    Sasl initial_response evaluate_challenge \<Rightarrow> sasl_reply (evaluate_challenge asked)
                  | _ \<Rightarrow> op_raise (PyError AttributeError)))
           | Error _ _ _ \<Rightarrow> op_raise AuthenticationFailed
           | _ \<Rightarrow> op_raise (PyError ProtocolError))))"

section \<open>Callbacks\<close>

text \<open>\<open>process_result\<close> of \<open>set_keyspace_async\<close>; the callback gets what \<open>defunct\<close> returned.\<close>

definition process_result :: "on_defunct \<Rightarrow> ptext \<Rightarrow> nat \<Rightarrow> answer \<Rightarrow> unit cop" where
  "process_result dfn ks tok ans =
     (let failed = op_bind (dfn ConnectionException) (\<lambda>err. op_emit [KeyspaceSet tok err])
      in case ans of
        Failure e \<Rightarrow> failed
      | Message m \<Rightarrow>
          (case msg_body m of
             Result r \<Rightarrow> op_then (op_modify (\<lambda>c. c\<lparr>conn_keyspace := Some ks\<rparr>)) (op_emit [KeyspaceSet tok None])
           | Error code msg info \<Rightarrow>
               if error_class_of code = InvalidRequestException
               then op_emit [KeyspaceSet tok (Some (ErrorResponse (Error code msg info)))]
               else failed
           | _ \<Rightarrow> failed))"

fun run_callback :: "on_defunct \<Rightarrow> callback \<Rightarrow> answer \<Rightarrow> unit cop" where
  "run_callback dfn HandleOptions ans = handle_options_response dfn ans"
| "run_callback dfn (HandleStartup did_authenticate) ans = handle_startup_response dfn did_authenticate ans"
| "run_callback dfn HandleAuth ans = handle_auth_response dfn ans"
| "run_callback dfn (ProcessResult ks tok) ans = process_result dfn ks tok ans"
| "run_callback dfn (Client tok) ans = op_emit [Call tok ans]"

section \<open>The end of a connection\<close>

definition ignore_errors :: "unit cop \<Rightarrow> unit cop" where
  "ignore_errors m = op_catch m (\<lambda>e. op_return ())"

definition no_defunct :: on_defunct where
  "no_defunct e = op_return None"

text \<open>
  The item that \<open>popitem\<close> takes, the last one, is called first and then the others in order; from
  100 of them on, in a thread of its own. The connection is closed or defunct when this runs, and
  \<open>defunct\<close> returns at once.
\<close>

definition error_all_requests :: "unit cop" where
  "error_all_requests =
     op_bind (op_read requests) (\<lambda>rs.
     op_then (op_modify (\<lambda>c. c\<lparr>requests := []\<rparr>))
       (op_when (rs \<noteq> [])
         (op_each (\<lambda>(n, cb, _). ignore_errors (run_callback no_defunct cb (Failure ConnectionShutdown)))
            (last rs # butlast rs))))"

definition shutdown_requests :: "unit cop" where
  "shutdown_requests = op_then error_all_requests
     (op_modify (\<lambda>c. c\<lparr>last_error := (if connected c then last_error c else Some ConnectionShutdown), connected := True\<rparr>))"

definition close :: "unit cop" where
  "close = op_bind (op_read is_closed) (\<lambda>closed.
     op_when (\<not> closed)
       (op_then (op_modify (\<lambda>c. c\<lparr>is_closed := True\<rparr>))
       (op_then (op_emit [SocketClosed])
       (op_bind (op_read is_defunct) (\<lambda>d. op_when (\<not> d) shutdown_requests)))))"

definition defunct :: on_defunct where
  "defunct exc = op_bind (op_read dead) (\<lambda>d.
     if d then op_return None
     else op_then (op_modify (\<lambda>c. c\<lparr>is_defunct := True, last_error := Some exc\<rparr>))
       (op_then close
       (op_then error_all_requests
       (op_then (op_modify (\<lambda>c. c\<lparr>connected := True\<rparr>)) (op_return (Some exc))))))"

section \<open>Responses\<close>

definition handle_pushed :: "message \<Rightarrow> unit cop" where
  "handle_pushed m =
     (case msg_body m of
        Event e \<Rightarrow> op_bind (op_read (\<lambda>c. case map_of (push_watchers c) (event_name e) of Some ws \<Rightarrow> ws | None \<Rightarrow> []))
          (\<lambda>watchers. op_emit (map (\<lambda>w. Watch w e) watchers))
      | _ \<Rightarrow> op_raise (PyError AttributeError))"

fun occurs_in :: "'a list \<Rightarrow> 'a list \<Rightarrow> bool" where
  "occurs_in pat [] = (pat = [])"
| "occurs_in pat (x # xs) = (take (length pat) (x # xs) = pat \<or> occurs_in pat xs)"

definition unsupported_version_text :: ptext where
  "unsupported_version_text = text_of ''unsupported protocol version''"

text \<open>A response of the class \<open>ProtocolException\<close> ends the connection before its callback runs.\<close>

definition check_protocol_error :: "response \<Rightarrow> unit cop" where
  "check_protocol_error r =
     (case r of
        Error code msg info \<Rightarrow>
          op_when (error_class_of code = ProtocolException)
            (op_then (op_when (occurs_in unsupported_version_text msg)
                        (op_modify (\<lambda>c. c\<lparr>is_unsupported_proto_version := True\<rparr>)))
               (op_then (defunct (ErrorResponse r)) (op_return ())))
      | _ \<Rightarrow> op_return ())"

definition decode_with :: "decoder \<Rightarrow> frame \<Rightarrow> bytes \<Rightarrow> column list option \<Rightarrow> message res cop" where
  "decode_with dec hdr body result_metadata =
     op_bind (op_read (\<lambda>c. dec (fr_version hdr) (fr_stream hdr) (fr_flags hdr) (fr_opcode hdr) body (decompressor c)
        result_metadata (types c))) (\<lambda>r.
     case r of
       Inl e \<Rightarrow> op_return (Inl e)
     | Inr (m, reg) \<Rightarrow> op_then (op_modify (\<lambda>c. c\<lparr>types := reg\<rparr>)) (op_return (Inr m)))"

definition deliver_response :: "callback \<Rightarrow> message \<Rightarrow> unit cop" where
  "deliver_response cb m = ignore_errors
     (op_then (check_protocol_error (msg_body m)) (run_callback defunct cb (Message m)))"

definition pop_request :: "int \<Rightarrow> unit cop" where
  "pop_request n = op_modify (\<lambda>c. c\<lparr>requests := AList.delete n (requests c), request_ids := request_ids c @ [n]\<rparr>)"

definition answer_request :: "callback \<Rightarrow> decoder \<Rightarrow> column list option \<Rightarrow> frame \<Rightarrow> bytes \<Rightarrow> unit cop" where
  "answer_request cb dec result_metadata hdr body = op_bind (decode_with dec hdr body result_metadata) (\<lambda>r.
     case r of
       Inl e \<Rightarrow> op_then (run_callback defunct cb (Failure (PyError e))) (op_then (defunct (PyError e)) (op_return ()))
     | Inr m \<Rightarrow> deliver_response cb m)"

definition answer_push :: "frame \<Rightarrow> bytes \<Rightarrow> unit cop" where
  "answer_push hdr body = op_bind (decode_with decode_message hdr body None) (\<lambda>r.
     case r of
       Inl e \<Rightarrow> op_then (defunct (PyError e)) (op_return ())
     | Inr m \<Rightarrow> ignore_errors (handle_pushed m))"

definition process_msg :: "frame \<Rightarrow> bytes \<Rightarrow> unit cop" where
  "process_msg hdr body = defunct_on_error defunct
     (op_then (op_modify (\<lambda>c. c\<lparr>msg_received := True\<rparr>))
       (if fr_stream hdr < 0 then answer_push hdr body
        else op_bind (op_read (\<lambda>c. map_of (requests c) (fr_stream hdr))) (\<lambda>entry.
          case entry of
            None \<Rightarrow> op_return ()
          | Some (cb, dec, result_metadata) \<Rightarrow>
              op_then (pop_request (fr_stream hdr)) (answer_request cb dec result_metadata hdr body))))"

text \<open>What is done with each event of the receive buffer.\<close>

fun process_event :: "io_event \<Rightarrow> unit cop" where
  "process_event (Frame hdr body) = process_msg hdr body"
| "process_event BadHeader = op_then (defunct (PyError ProtocolError)) (op_return ())"

definition process_events :: "io_event list \<Rightarrow> unit cop" where
  "process_events evs = op_each process_event evs"

section \<open>Users of a connection\<close>

text \<open>
  \<open>set_keyspace_async\<close>: it spins until there is room (\<open>False\<close>: not yet), and calls back at once
  when there is nothing to do.
\<close>

definition use_query :: "ptext \<Rightarrow> request" where
  "use_query ks = Query (QueryMessage.make (PyText (text_of ''USE \"'' @ ks @ text_of ''\"'')) 1 None None None None None None)"

definition set_keyspace_async :: "ptext option \<Rightarrow> nat \<Rightarrow> bool cop" where
  "set_keyspace_async ks tok = op_bind (op_read (\<lambda>c. in_flight c < max_request_id c)) (\<lambda>room.
     if \<not> room then op_return False
     else op_then (op_modify (\<lambda>c. c\<lparr>in_flight := in_flight c + 1\<rparr>))
       (op_bind (op_read conn_keyspace) (\<lambda>current.
          op_then (case ks of
               None \<Rightarrow> op_emit [KeyspaceSet tok None]
             | Some k \<Rightarrow> if k = [] \<or> current = Some k then op_emit [KeyspaceSet tok None]
                         else send_default (use_query k) (ProcessResult k tok))
            (op_return True))))"

text \<open>\<open>HeartbeatFuture\<close>: an options request on an idle connection, when there is room.\<close>

definition heartbeat :: "nat \<Rightarrow> bool cop" where
  "heartbeat tok = op_bind (op_read (\<lambda>c. in_flight c \<le> max_request_id c)) (\<lambda>room.
     if room
     then op_then (op_modify (\<lambda>c. c\<lparr>in_flight := in_flight c + 1\<rparr>))
       (op_then (send_default Options (Client tok)) (op_return True))
     else op_return False)"

text \<open>The part of \<open>ResponseFuture._on_timeout\<close> on the connection; \<open>pool_open\<close>: the pool still takes it.\<close>

definition forget_request :: "int \<Rightarrow> bool \<Rightarrow> bool cop" where
  "forget_request request_id pool_open = op_bind (op_read (\<lambda>c. map_of (requests c) request_id)) (\<lambda>entry.
     case entry of
       None \<Rightarrow> op_return False
     | Some _ \<Rightarrow> op_then (op_modify (\<lambda>c. c\<lparr>requests := AList.delete request_id (requests c),
           request_ids := (if pool_open then request_ids c @ [request_id] else request_ids c)\<rparr>)) (op_return True))"

definition add_watcher :: "ptext \<Rightarrow> nat \<Rightarrow> unit cop" where
  "add_watcher event_type w = op_modify (\<lambda>c. c\<lparr>push_watchers := AList.update event_type
     (List.insert w (case map_of (push_watchers c) event_type of Some ws \<Rightarrow> ws | None \<Rightarrow> [])) (push_watchers c)\<rparr>)"

definition control_conn_disposed :: "unit cop" where
  "control_conn_disposed = op_modify (\<lambda>c. c\<lparr>is_control_connection := False, push_watchers := []\<rparr>)"

definition is_idle :: "conn \<Rightarrow> bool" where
  "is_idle c \<longleftrightarrow> \<not> msg_received c"

definition reset_idle :: "unit cop" where
  "reset_idle = op_modify (\<lambda>c. c\<lparr>msg_received := False\<rparr>)"

section \<open>What the steps of a connection keep\<close>

text \<open>The part of a connection that the stream ids depend on.\<close>

definition core :: "conn \<Rightarrow> int list \<times> int \<times> int \<times> int \<times> request_entry list \<times> bool \<times> bool" where
  "core c = (request_ids c, highest_request_id c, max_request_id c, in_flight c, requests c, is_defunct c, is_closed c)"

text \<open>The users a callback answers to, and those that an action has answered.\<close>

fun clients_of :: "callback \<Rightarrow> nat list" where
  "clients_of (Client tok) = [tok]"
| "clients_of (ProcessResult ks tok) = [tok]"
| "clients_of _ = []"

fun answered_by :: "action \<Rightarrow> nat list" where
  "answered_by (Call tok ans) = [tok]"
| "answered_by (KeyspaceSet tok err) = [tok]"
| "answered_by _ = []"

definition clients :: "conn \<Rightarrow> nat list" where
  "clients c = concat (map (\<lambda>(n, cb, _). clients_of cb) (requests c))"

definition answered :: "action list \<Rightarrow> nat list" where
  "answered out = concat (map answered_by out)"

lemma answered_append [simp]: "answered (out @ out') = answered out @ answered out'"
  by (simp add: answered_def)

lemma answered_simps [simp]: "answered [] = []" "answered (a # out) = answered_by a @ answered out"
  by (simp_all add: answered_def)

text \<open>
  A relation of the connection and its actions that depends on the core of the connection and on
  the users answered, and that sending for the connection itself keeps, is kept by the whole
  start of the protocol.
\<close>

locale conn_relation =
  fixes P :: "conn \<Rightarrow> action list \<Rightarrow> bool"
  assumes cosmetic: "core c = core c' \<Longrightarrow> answered out = answered out' \<Longrightarrow> P c out \<Longrightarrow> P c' out'"
    and sends: "clients_of cb = [] \<Longrightarrow> keeps P (send_default r cb)"
begin

lemma keeps_cosmetic: "(\<And>c. core (f c) = core c) \<Longrightarrow> keeps P (op_modify f)"
  by (rule keeps_modify) (metis cosmetic)

lemma keeps_silent: "answered out' = [] \<Longrightarrow> keeps P (op_emit out')"
  by (rule keeps_emit) (rule cosmetic [OF refl, rotated], auto)

lemma keeps_lift: "keeps P (lift_sum r)"
  by (auto simp: lift_sum_def intro: triples split: sum.split)

lemma keeps_defunct_on_error: "(\<And>e. keeps P (dfn e)) \<Longrightarrow> keeps P m \<Longrightarrow> keeps P (defunct_on_error dfn m)"
  by (auto simp: defunct_on_error_def intro!: triples)

lemma keeps_unless_defunct: "keeps P m \<Longrightarrow> keeps P (unless_defunct m)"
  by (auto simp: unless_defunct_def intro!: triples)

lemma keeps_startup_message: "(\<And>e. keeps P (dfn e)) \<Longrightarrow> keeps P (send_startup_message dfn cmpr)"
  unfolding send_startup_message_def
  by (rule keeps_defunct_on_error) (auto intro!: triples sends split: option.split)

lemma keeps_options_message: "(\<And>e. keeps P (dfn e)) \<Longrightarrow> keeps P (send_options_message dfn)"
  unfolding send_options_message_def
  by (rule keeps_defunct_on_error) (auto intro!: triples sends keeps_startup_message keeps_cosmetic simp: core_def)

lemma keeps_set_codec: "keeps P (set_codec cmpr)"
  by (auto simp: set_codec_def core_def intro!: triples keeps_cosmetic split: option.split)

lemma keeps_options_response: "(\<And>e. keeps P (dfn e)) \<Longrightarrow> keeps P (handle_options_response dfn ans)"
  unfolding handle_options_response_def
  by (rule keeps_defunct_on_error)
    (auto intro!: keeps_unless_defunct triples keeps_startup_message keeps_cosmetic keeps_lift keeps_set_codec simp: core_def
      split: answer.split response.split)

lemma keeps_finish: "keeps P finish_startup"
  unfolding finish_startup_def by (rule keeps_cosmetic) (simp add: core_def)

lemma keeps_sasl_reply: "keeps P (sasl_reply r)"
  by (auto simp: sasl_reply_def intro!: triples sends split: sum.split)

lemma keeps_startup_response: "(\<And>e. keeps P (dfn e)) \<Longrightarrow> keeps P (handle_startup_response dfn d ans)"
  unfolding handle_startup_response_def
  by (rule keeps_defunct_on_error)
    (auto intro!: keeps_unless_defunct triples keeps_finish keeps_sasl_reply sends
      split: answer.split response.split authenticator.split)

lemma keeps_auth_response: "(\<And>e. keeps P (dfn e)) \<Longrightarrow> keeps P (handle_auth_response dfn ans)"
  unfolding handle_auth_response_def
  by (rule keeps_defunct_on_error)
    (auto intro!: keeps_unless_defunct triples keeps_finish keeps_sasl_reply sends keeps_silent keeps_cosmetic
      simp: core_def split: answer.split response.split authenticator.split)

lemma keeps_own_callback:
  "(\<And>e. keeps P (dfn e)) \<Longrightarrow> clients_of cb = [] \<Longrightarrow> keeps P (run_callback dfn cb ans)"
  by (cases cb) (simp_all add: keeps_options_response keeps_startup_response keeps_auth_response)

lemma keeps_decode: "keeps P (decode_with dec hdr body meta)"
  by (auto simp: decode_with_def core_def intro!: triples keeps_cosmetic split: sum.split)

lemma keeps_pushed: "keeps P (handle_pushed m)"
proof -
  have "answered (map (\<lambda>w. Watch w e) ws) = []" for e ws by (induction ws) simp_all
  then show ?thesis by (auto simp: handle_pushed_def intro!: triples keeps_silent split: response.split)
qed

lemma keeps_protocol_error: "(\<And>e. keeps P (defunct e)) \<Longrightarrow> keeps P (check_protocol_error r)"
  by (auto simp: check_protocol_error_def core_def intro!: triples keeps_cosmetic split: response.split)

end

text \<open>A predicate on the core of a connection is kept by every callback.\<close>

locale conn_predicate = conn_relation +
  assumes silent: "P c out \<Longrightarrow> P c out'"
begin

lemma keeps_any_emit: "keeps P (op_emit out')"
  by (rule keeps_emit) (rule silent)

lemma keeps_process_result: "(\<And>e. keeps P (dfn e)) \<Longrightarrow> keeps P (process_result dfn ks tok ans)"
  by (auto simp: process_result_def Let_def core_def intro!: triples keeps_any_emit keeps_cosmetic
      split: answer.split response.split)

lemma keeps_callback: "(\<And>e. keeps P (dfn e)) \<Longrightarrow> keeps P (run_callback dfn cb ans)"
  by (cases cb) (simp_all add: keeps_process_result keeps_options_response keeps_startup_response keeps_auth_response keeps_any_emit)

lemma keeps_callbacks:
  "keeps P (op_each (\<lambda>(n, cb, _). ignore_errors (run_callback no_defunct cb ans)) rs)"
  by (auto simp: ignore_errors_def no_defunct_def intro!: triples keeps_callback)

end

text \<open>Nothing the connection does by itself changes its limits.\<close>

locale conn_limits = conn_predicate +
  assumes limits: "in_flight c = in_flight c' \<Longrightarrow> max_request_id c = max_request_id c' \<Longrightarrow> P c out \<Longrightarrow> P c' out"
begin

lemma keeps_limits: "(\<And>c. in_flight (f c) = in_flight c \<and> max_request_id (f c) = max_request_id c) \<Longrightarrow> keeps P (op_modify f)"
  by (rule keeps_modify) (metis limits)

lemma keeps_end: "keeps P error_all_requests" "keeps P shutdown_requests" "keeps P close" "keeps P (defunct e)"
proof -
  show 1: "keeps P error_all_requests"
    unfolding error_all_requests_def by (intro triples keeps_callbacks keeps_limits) simp
  then show 2: "keeps P shutdown_requests"
    unfolding shutdown_requests_def by (intro triples keeps_limits) simp_all
  then show 3: "keeps P close"
    unfolding close_def by (intro triples keeps_limits keeps_any_emit) simp_all
  with 1 show "keeps P (defunct e)"
    unfolding defunct_def by (intro triples keeps_limits) simp_all
qed

lemma keeps_process_msg: "keeps P (process_msg hdr body)"
proof -
  have answer: "keeps P (answer_request cb dec meta hdr body)" for cb dec meta
    unfolding answer_request_def deliver_response_def ignore_errors_def
    by (rule keeps_bind [OF keeps_decode])
      (auto intro!: keeps_then keeps_callback keeps_end keeps_return keeps_catch keeps_protocol_error split: sum.split)
  have push: "keeps P (answer_push hdr body)"
    unfolding answer_push_def ignore_errors_def
    by (rule keeps_bind [OF keeps_decode])
      (auto intro!: keeps_then keeps_end keeps_return keeps_catch keeps_pushed split: sum.split)
  show ?thesis
    unfolding process_msg_def pop_request_def
    by (intro keeps_defunct_on_error keeps_end keeps_then keeps_if keeps_bind keeps_read push keeps_limits)
      (auto intro!: keeps_return keeps_then keeps_limits answer split: option.split)
qed

lemma keeps_process_events: "keeps P (process_events evs)"
proof -
  have "keeps P (process_event ev)" for ev
    by (cases ev) (simp_all add: keeps_process_msg keeps_then keeps_end keeps_return)
  then show ?thesis by (simp add: process_events_def keeps_each)
qed

end

section \<open>Stream ids are unique and every user is answered once\<close>

text \<open>
  \<open>held\<close> are ids that were taken and not yet used to send. The ids that are free, that wait for a
  response or that are held are distinct, and on a live connection they are all the ids there
  are. Each user of \<open>users\<close> either waits or was answered.
\<close>

definition ids :: "int list \<Rightarrow> conn \<Rightarrow> int list" where
  "ids held c = request_ids c @ map fst (requests c) @ held"

definition conn_inv :: "int list \<Rightarrow> nat multiset \<Rightarrow> conn \<Rightarrow> action list \<Rightarrow> bool" where
  "conn_inv held users c out \<longleftrightarrow>
     distinct (ids held c) \<and> set (ids held c) \<subseteq> {0..highest_request_id c} 
     \<and> - 1 \<le> highest_request_id c \<and> highest_request_id c \<le> max_request_id c
     \<and> (\<not> dead c \<longrightarrow> set (ids held c) = {0..highest_request_id c})
     \<and> mset (clients c) + mset (answered out) = users"

lemma update_new: "k \<notin> fst ` set al \<Longrightarrow> AList.update k v al = al @ [(k, v)]"
  by (induction al) auto

lemma delete_split:
  assumes "map_of al k = Some v" "distinct (map fst al)"
  obtains xs ys where "al = xs @ (k, v) # ys" "AList.delete k al = xs @ ys"
proof -
  from map_of_SomeD [OF assms(1)] obtain xs ys where al: "al = xs @ (k, v) # ys" by (auto simp: in_set_conv_decomp)
  with assms(2) have "AList.delete k xs = xs" "AList.delete k ys = ys" by (auto simp: AList.delete_eq filter_id_conv image_iff)
  then have "AList.delete k al = xs @ ys" by (simp add: al AList.delete_eq)
  with al show ?thesis by (rule that)
qed

lemma get_request_id_inv:
  "triple (conn_inv held users) get_request_id
     (\<lambda>r. case r of Inr n \<Rightarrow> conn_inv (n # held) users | Inl _ \<Rightarrow> conn_inv held users)"
proof (rule tripleI)
  fix c out r out' c'
  assume inv: "conn_inv held users c out" and run: "get_request_id c = (r, out', c')"
  show "(case r of Inr n \<Rightarrow> conn_inv (n # held) users | Inl _ \<Rightarrow> conn_inv held users) c' (out @ out')"
  proof (cases "request_ids c")
    case (Cons n ns)
    with run have "r = Inr n" "out' = []" "c' = c\<lparr>request_ids := ns\<rparr>"
      by (auto simp: get_request_id_def op_defs)
    with inv Cons show ?thesis by (auto simp: conn_inv_def ids_def dead_def clients_def)
  next
    case Nil
    show ?thesis
    proof (cases "highest_request_id c + 1 \<le> max_request_id c")
      case True
      with run Nil have c': "r = Inr (highest_request_id c + 1)" "out' = []"
        "c' = c\<lparr>highest_request_id := highest_request_id c + 1\<rparr>"
        by (auto simp: get_request_id_def op_defs)
      from inv have sub: "set (ids held c) \<subseteq> {0..highest_request_id c}" by (simp add: conn_inv_def)
      then have "highest_request_id c + 1 \<notin> set (ids held c)" by auto
      moreover have "{0..highest_request_id c + 1} = insert (highest_request_id c + 1) {0..highest_request_id c}"
        using inv by (auto simp: conn_inv_def)
      ultimately show ?thesis using inv Nil True by (auto simp: c' conn_inv_def ids_def dead_def clients_def)
    next
      case False
      with run Nil have "\<exists>e. r = Inl e" "out' = []" "c' = c" by (auto simp: get_request_id_def op_defs)
      with inv show ?thesis by auto
    qed
  qed
qed

lemma send_msg_inv:
  "triple (conn_inv (n # held) users) (send_msg enc dec meta msg n cb)
     (\<lambda>r. if r = Inl ConnectionShutdown then conn_inv held users else conn_inv held (users + mset (clients_of cb)))"
proof (rule tripleI)
  fix c out r out' c'
  assume inv: "conn_inv (n # held) users c out" and run: "send_msg enc dec meta msg n cb c = (r, out', c')"
  show "(if r = Inl ConnectionShutdown then conn_inv held users else conn_inv held (users + mset (clients_of cb))) c' (out @ out')"
  proof (cases "dead c")
    case True
    with run have "r = Inl ConnectionShutdown" "out' = []" "c' = c" by (auto simp: send_msg_def op_defs)
    with True inv show ?thesis by (auto simp: conn_inv_def ids_def)
  next
    case False
    from inv have new: "n \<notin> fst ` set (requests c)" by (auto simp: conn_inv_def ids_def)
    from False run have "r \<noteq> Inl ConnectionShutdown" "answered out' = []"
      "c' = c\<lparr>requests := requests c @ [(n, cb, dec, meta)]\<rparr>"
      by (auto simp: send_msg_def op_defs update_new [OF new] split: sum.splits)
    with False inv show ?thesis by (auto simp: conn_inv_def ids_def dead_def clients_def)
  qed
qed

lemma send_default_inv:
  "triple (conn_inv held users) (send_default req cb)
     (\<lambda>r c out. conn_inv held (users + mset (clients_of cb)) c out \<or> isl r \<and> conn_inv held users c out)"
  unfolding send_default_def
proof (rule triple_bind [OF get_request_id_inv])
  fix n
  show "triple (case Inr n of Inr n \<Rightarrow> conn_inv (n # held) users | Inl _ \<Rightarrow> conn_inv held users)
     (op_then (send_msg encode_message decode_message None (plain_message req) n cb) (op_return ()))
     (\<lambda>r c out. conn_inv held (users + mset (clients_of cb)) c out \<or> isl r \<and> conn_inv held users c out)"
    unfolding op_then_def
    by (rule triple_bind [OF triple_pre [OF send_msg_inv]]) (auto intro!: triple_return split: if_splits)
qed simp

interpretation inv: conn_relation "conn_inv held users" for held users
proof
  fix c c' out out'
  assume "core c = core c'" "answered out = answered out'" "conn_inv held users c out"
  then show "conn_inv held users c' out'" by (simp add: core_def conn_inv_def ids_def dead_def clients_def)
next
  fix cb r
  assume "clients_of cb = []"
  then show "keeps (conn_inv held users) (send_default r cb)"
    by (intro triple_weaken [OF send_default_inv]) auto
qed

text \<open>A callback answers its user, whatever it is called with.\<close>

lemma emit_inv: "triple (conn_inv held users) (op_emit out') (\<lambda>_. conn_inv held (users + mset (answered out')))"
  by (auto simp: triple_def op_emit_def conn_inv_def)

lemma run_callback_inv:
  assumes "\<And>e. keeps (conn_inv held users) (dfn e)" "\<And>e. never_raises (dfn e)"
  shows "triple (conn_inv held users) (run_callback dfn cb ans) (\<lambda>_. conn_inv held (users + mset (clients_of cb)))"
proof (cases cb)
  case (Client tok)
  with emit_inv [of held users "[Call tok ans]"] show ?thesis by simp
next
  case (ProcessResult ks tok)
  have emit: "triple (conn_inv held users) (op_emit [KeyspaceSet tok err]) (\<lambda>_. conn_inv held (add_mset tok users))" for err
    using emit_inv [of held users "[KeyspaceSet tok err]"] by simp
  have failed: "triple (conn_inv held users) (op_bind (dfn ConnectionException) (\<lambda>err. op_emit [KeyspaceSet tok err]))
      (\<lambda>_. conn_inv held (add_mset tok users))"
    by (rule triple_bind_never [OF assms(2, 1) emit])
  have set: "triple (conn_inv held users) (op_then (op_modify (\<lambda>c. c\<lparr>conn_keyspace := Some ks\<rparr>)) (op_emit [KeyspaceSet tok None]))
      (\<lambda>_. conn_inv held (add_mset tok users))"
    by (rule triple_modify_then [OF _ emit]) (rule inv.cosmetic, auto simp: core_def)
  show ?thesis
    by (auto simp: ProcessResult process_result_def Let_def split: answer.split response.split intro!: failed set emit)
qed (use inv.keeps_own_callback [OF assms(1), where cb = cb and ans = ans] in simp_all)

lemma never_no_defunct [never]: "never_raises (no_defunct e)"
  by (simp add: no_defunct_def never_basic)

lemma keeps_no_defunct: "keeps P (no_defunct e)"
  by (simp add: no_defunct_def keeps_return)

lemma never_ignore [never]: "never_raises (ignore_errors m)"
  by (auto simp: ignore_errors_def intro!: never)

lemma ignore_triple: "triple P m (\<lambda>_. Q) \<Longrightarrow> triple P (ignore_errors m) (\<lambda>_. Q)"
  unfolding ignore_errors_def by (rule triple_catch) (auto intro: keeps_return)

lemma never_end [never]: "never_raises error_all_requests" "never_raises shutdown_requests" "never_raises close" "never_raises (defunct e)"
  by (auto simp: error_all_requests_def shutdown_requests_def close_def defunct_def intro!: never)

lemma callbacks_inv:
  "triple (conn_inv held users)
     (op_each (\<lambda>(n, cb, _). ignore_errors (run_callback no_defunct cb ans)) rs)
     (\<lambda>_. conn_inv held (users + mset (concat (map (\<lambda>(n, cb, _). clients_of cb) rs))))"
proof (induction rs arbitrary: users)
  case (Cons r rs)
  obtain n cb d where r: "r = (n, cb, d)" by (cases r)
  show ?case
    using Cons [of "users + mset (clients_of cb)"]
    by (auto simp: r add.assoc intro!: triple_then_never never ignore_triple run_callback_inv keeps_no_defunct)
qed (simp add: keeps_return)

text \<open>Emptying the table of requests answers everyone who waits.\<close>

lemma last_first: "rs \<noteq> [] \<Longrightarrow> mset (concat (map f (last rs # butlast rs))) = mset (concat (map f rs))"
  by (cases rs rule: rev_cases) simp_all

lemma error_all_inv:
  "triple (\<lambda>c out. dead c \<and> conn_inv held users c out) error_all_requests (\<lambda>_. conn_inv held users)"
  unfolding error_all_requests_def
proof (rule triple_read)
  fix rs :: "request_entry list"
  let ?cbs = "op_when (rs \<noteq> []) (op_each (\<lambda>(n, cb, _). ignore_errors (run_callback no_defunct cb (Failure ConnectionShutdown)))
    (last rs # butlast rs))"
  define T where "T = mset (concat (map (\<lambda>(n, cb, _). clients_of cb) rs))"
  have "triple (\<lambda>c out. conn_inv held (users - T) c out \<and> T \<subseteq># users) ?cbs (\<lambda>_. conn_inv held users)"
  proof (cases "T \<subseteq># users")
    case True
    show ?thesis
    proof (cases "rs = []")
      case False
      from callbacks_inv [of held "users - T" "Failure ConnectionShutdown" "last rs # butlast rs"]
        last_first [OF False, of "\<lambda>(n, cb, _). clients_of cb"] True
      show ?thesis by (simp add: op_when_def False T_def [symmetric] flip: mset_append)
    qed (simp add: op_when_def keeps_return T_def)
  qed (simp add: triple_false)
  then show "triple (\<lambda>c out. (dead c \<and> conn_inv held users c out) \<and> requests c = rs)
      (op_then (op_modify (\<lambda>c. c\<lparr>requests := []\<rparr>)) ?cbs) (\<lambda>_. conn_inv held users)"
    by (rule triple_modify_then [rotated]) (auto simp: conn_inv_def ids_def dead_def clients_def T_def)
qed

text \<open>A closed or defunct connection stays so, and once its requests are gone there are no more.\<close>

lemma send_default_dead: "keeps (\<lambda>c out. dead c \<and> Q (requests c)) (send_default r cb)"
proof -
  have "keeps (\<lambda>c out. dead c \<and> Q (requests c)) get_request_id"
    by (auto simp: get_request_id_def dead_def intro!: triples keeps_modify split: list.split)
  moreover have "keeps (\<lambda>c out. dead c \<and> Q (requests c)) (send_msg enc dec meta msg n cb)" for enc dec meta msg n
    by (auto simp: send_msg_def triple_def op_defs)
  ultimately show ?thesis unfolding send_default_def by (auto intro!: triples)
qed

interpretation gone: conn_predicate "\<lambda>c out. dead c \<and> Q (requests c)" for Q
  by unfold_locales (auto simp: core_def dead_def intro: send_default_dead [unfolded dead_def])

lemma error_all_gone: "triple (\<lambda>c out. dead c) error_all_requests (\<lambda>_ c out. dead c \<and> requests c = [])"
  unfolding error_all_requests_def
  by (intro triple_read triple_modify_then [OF _ keeps_when [OF gone.keeps_callbacks]]) (simp add: dead_def)

lemma shutdown_gone: "triple (\<lambda>c out. dead c) shutdown_requests (\<lambda>_ c out. dead c \<and> requests c = [])"
  unfolding shutdown_requests_def
  by (rule triple_then_never [OF never_end(1) error_all_gone]) (rule gone.keeps_cosmetic, simp add: core_def)

lemma shutdown_inv: "triple (\<lambda>c out. dead c \<and> conn_inv held users c out) shutdown_requests (\<lambda>_. conn_inv held users)"
  unfolding shutdown_requests_def
  by (rule triple_then_never [OF never_end(1) error_all_inv]) (rule inv.keeps_cosmetic, simp add: core_def)

lemma close_inv: "keeps (conn_inv held users) close"
proof -
  let ?D = "\<lambda>c out. dead c \<and> conn_inv held users c out"
  let ?rest = "op_bind (op_read is_defunct) (\<lambda>d. op_when (\<not> d) shutdown_requests)"
  have "triple ?D ?rest (\<lambda>_. conn_inv held users)"
    by (rule triple_read, rule triple_when, rule triple_pre [OF shutdown_inv]) simp_all
  moreover have "keeps ?D (op_emit [SocketClosed])"
    by (rule keeps_emit) (simp add: conn_inv_def)
  ultimately have "triple ?D (op_then (op_emit [SocketClosed]) ?rest) (\<lambda>_. conn_inv held users)"
    by (intro triple_then_never [OF never_basic(4)])
  then have "keeps (conn_inv held users) (op_then (op_modify (\<lambda>c. c\<lparr>is_closed := True\<rparr>)) (op_then (op_emit [SocketClosed]) ?rest))"
    by (rule triple_modify_then [rotated]) (simp add: conn_inv_def ids_def dead_def clients_def)
  then show ?thesis unfolding close_def by (intro keeps_bind keeps_read keeps_when)
qed

lemma close_dead: "keeps (\<lambda>c out. dead c) close"
proof -
  have "keeps (\<lambda>c out. dead c) shutdown_requests"
    using shutdown_gone by (rule triple_weaken) simp_all
  then show ?thesis unfolding close_def
    by (intro keeps_bind keeps_read keeps_when keeps_then keeps_modify keeps_emit) (simp_all add: dead_def)
qed

lemma defunct_dead: "dead c \<Longrightarrow> defunct e c = (Inr None, [], c)"
  by (simp add: defunct_def op_defs)

lemma defunct_inv: "keeps (conn_inv held users) (defunct e)"
proof -
  let ?D = "\<lambda>c out. dead c \<and> conn_inv held users c out"
  let ?rest = "op_then (op_modify (\<lambda>c. c\<lparr>connected := True\<rparr>)) (op_return (Some e))"
  have "keeps (conn_inv held users) ?rest"
    by (intro keeps_then keeps_return inv.keeps_cosmetic) (simp add: core_def)
  then have "triple ?D (op_then error_all_requests ?rest) (\<lambda>_. conn_inv held users)"
    by (rule triple_then_never [OF never_end(1) error_all_inv])
  then have "triple ?D (op_then close (op_then error_all_requests ?rest)) (\<lambda>_. conn_inv held users)"
    by (rule triple_then_never [OF never_end(3) keeps_conj [OF close_dead close_inv]])
  then have "keeps (conn_inv held users) (op_then (op_modify (\<lambda>c. c\<lparr>is_defunct := True, last_error := Some e\<rparr>))
      (op_then close (op_then error_all_requests ?rest)))"
    by (rule triple_modify_then [rotated]) (simp add: conn_inv_def ids_def dead_def clients_def)
  then show ?thesis unfolding defunct_def by (intro keeps_bind keeps_read keeps_if keeps_return)
qed

text \<open>Nothing waits on a connection that is closed or defunct.\<close>

definition quiet :: "conn \<Rightarrow> bool" where
  "quiet c \<longleftrightarrow> (dead c \<longrightarrow> requests c = [])"

lemma close_quiet: "triple (\<lambda>c out. quiet c) close (\<lambda>_ c out. dead c \<and> requests c = [])"
proof -
  let ?G = "\<lambda>c out. dead c \<and> requests c = []"
  let ?rest = "op_bind (op_read is_defunct) (\<lambda>d. op_when (\<not> d) shutdown_requests)"
  let ?M = "\<lambda>c out. is_closed c \<and> (is_defunct c \<longrightarrow> requests c = [])"
  have "triple ?M ?rest (\<lambda>_. ?G)"
    by (rule triple_read, rule triple_when, rule triple_pre [OF shutdown_gone]) (simp_all add: dead_def)
  then have "triple ?M (op_then (op_emit [SocketClosed]) ?rest) (\<lambda>_. ?G)"
    by (rule triple_then_never [OF never_basic(4) keeps_emit, rotated])
  then have "triple (\<lambda>c out. quiet c) (op_then (op_modify (\<lambda>c. c\<lparr>is_closed := True\<rparr>)) (op_then (op_emit [SocketClosed]) ?rest)) (\<lambda>_. ?G)"
    by (rule triple_modify_then [rotated]) (simp add: quiet_def dead_def)
  then show ?thesis unfolding close_def
    by (intro triple_read triple_when) (auto simp: quiet_def dead_def elim: triple_pre)
qed

lemma defunct_quiet: "triple (\<lambda>c out. quiet c) (defunct e) (\<lambda>_ c out. dead c \<and> requests c = [])"
proof -
  let ?G = "\<lambda>c out. dead c \<and> requests c = []"
  let ?rest = "op_then (op_modify (\<lambda>c. c\<lparr>connected := True\<rparr>)) (op_return (Some e))"
  have "keeps ?G ?rest"
    by (intro keeps_then keeps_return keeps_modify) (simp add: dead_def)
  then have "triple (\<lambda>c out. dead c) (op_then error_all_requests ?rest) (\<lambda>_. ?G)"
    by (rule triple_then_never [OF never_end(1) error_all_gone])
  then have "triple (\<lambda>c out. dead c) (op_then close (op_then error_all_requests ?rest)) (\<lambda>_. ?G)"
    by (rule triple_then_never [OF never_end(3) close_dead])
  then have "triple (\<lambda>c out. quiet c) (op_then (op_modify (\<lambda>c. c\<lparr>is_defunct := True, last_error := Some e\<rparr>))
      (op_then close (op_then error_all_requests ?rest))) (\<lambda>_. ?G)"
    by (rule triple_modify_then [rotated]) (simp add: dead_def)
  then show ?thesis unfolding defunct_def
    by (intro triple_read triple_if triple_return) (auto simp: quiet_def elim: triple_pre)
qed

lemma send_msg_quiet: "keeps (\<lambda>c out. quiet c) (send_msg enc dec meta msg n cb)"
  by (auto simp: send_msg_def triple_def op_defs quiet_def dead_def split: sum.splits)

lemma get_request_id_quiet: "keeps (\<lambda>c out. quiet c) get_request_id"
  by (auto simp: get_request_id_def quiet_def dead_def intro!: triples keeps_modify split: list.split)

interpretation quiet: conn_predicate "\<lambda>c out. quiet c"
proof
  show "keeps (\<lambda>c out. quiet c) (send_default r cb)" for r cb
    unfolding send_default_def by (intro triples get_request_id_quiet send_msg_quiet)
qed (simp_all add: core_def quiet_def dead_def)

lemma keeps_defunct_quiet: "keeps (\<lambda>c out. quiet c) (defunct e)"
  using defunct_quiet by (rule triple_weaken) (simp_all add: quiet_def)

lemma send_default_limits: "keeps (\<lambda>c out. in_flight c = k \<and> max_request_id c = m) (send_default r cb)"
  by (auto simp: send_default_def get_request_id_def send_msg_def intro!: triples keeps_modify keeps_emit
      split: list.split sum.split)

interpretation lim: conn_limits "\<lambda>c out. in_flight c = k \<and> max_request_id c = m" for k m
  by unfold_locales (auto simp: core_def intro: send_default_limits)

section \<open>Every step keeps the invariants\<close>

lemma defunct_on_error_triple:
  "triple P m (\<lambda>_. Q) \<Longrightarrow> (\<And>e. keeps Q (dfn e)) \<Longrightarrow> triple P (defunct_on_error dfn m) (\<lambda>_. Q)"
  unfolding defunct_on_error_def by (rule triple_catch) (auto intro: triples)

lemma deliver_inv:
  "triple (conn_inv held users) (deliver_response cb m) (\<lambda>_. conn_inv held (users + mset (clients_of cb)))"
proof -
  have "never_raises (check_protocol_error r)" for r
    by (auto simp: check_protocol_error_def intro!: never split: response.split)
  then show ?thesis
    unfolding deliver_response_def
    by (intro ignore_triple triple_then_never [where R = "conn_inv held users"] inv.keeps_protocol_error
        run_callback_inv defunct_inv never_end)
qed

lemma failed_decode_inv:
  "triple (conn_inv held users)
     (op_then (run_callback defunct cb (Failure (PyError e))) (op_then (defunct (PyError e)) (op_return ())))
     (\<lambda>_. conn_inv held (users + mset (clients_of cb)))"
  by (rule triple_then [OF run_callback_inv]) (intro defunct_inv never_end keeps_then keeps_return)+

lemma pop_inv:
  assumes "map_of (requests c) n = Some (cb, dec, meta)" "conn_inv held users c out"
  shows "mset (clients_of cb) \<subseteq># users"
    "conn_inv held (users - mset (clients_of cb)) (c\<lparr>requests := AList.delete n (requests c), request_ids := request_ids c @ [n]\<rparr>) out"
proof -
  from assms(2) have "distinct (map fst (requests c))" by (simp add: conn_inv_def ids_def)
  with assms(1) obtain xs ys where rs: "requests c = xs @ (n, cb, dec, meta) # ys" "AList.delete n (requests c) = xs @ ys"
    by (rule delete_split)
  with assms(2) show "mset (clients_of cb) \<subseteq># users" by (auto simp: conn_inv_def clients_def)
  from rs assms(2) show "conn_inv held (users - mset (clients_of cb))
      (c\<lparr>requests := AList.delete n (requests c), request_ids := request_ids c @ [n]\<rparr>) out"
    by (auto simp: conn_inv_def ids_def dead_def clients_def)
qed

lemma answer_request_inv:
  "triple (conn_inv held users) (answer_request cb dec meta hdr body) (\<lambda>_. conn_inv held (users + mset (clients_of cb)))"
  unfolding answer_request_def
proof (rule triple_bind_never [OF _ inv.keeps_decode])
  show "never_raises (decode_with dec hdr body meta)"
    by (auto simp: decode_with_def intro!: never split: sum.split)
qed (auto simp: failed_decode_inv deliver_inv split: sum.split)

lemma answer_push_inv: "keeps (conn_inv held users) (answer_push hdr body)"
  unfolding answer_push_def
  by (rule keeps_bind [OF inv.keeps_decode])
    (auto intro!: keeps_then defunct_inv keeps_return ignore_triple inv.keeps_pushed split: sum.split)

lemma pop_answer_inv:
  "triple (\<lambda>c out. conn_inv held users c out \<and> map_of (requests c) n = Some (cb, dec, meta))
     (op_then (pop_request n) (answer_request cb dec meta hdr body)) (\<lambda>_. conn_inv held users)"
proof (cases "mset (clients_of cb) \<subseteq># users")
  case True
  with answer_request_inv [of held "users - mset (clients_of cb)" cb dec meta hdr body]
  have "triple (conn_inv held (users - mset (clients_of cb))) (answer_request cb dec meta hdr body) (\<lambda>_. conn_inv held users)"
    by simp
  then show ?thesis unfolding pop_request_def by (rule triple_modify_then [rotated]) (simp add: pop_inv(2))
next
  case False
  with pop_inv(1) show ?thesis by (intro triple_false) auto
qed

lemma process_msg_inv: "keeps (conn_inv held users) (process_msg hdr body)"
proof -
  have "keeps (conn_inv held users) (op_bind (op_read (\<lambda>c. map_of (requests c) (fr_stream hdr))) (\<lambda>entry.
      case entry of
        None \<Rightarrow> op_return ()
      | Some (cb, dec, meta) \<Rightarrow> op_then (pop_request (fr_stream hdr)) (answer_request cb dec meta hdr body)))"
    by (rule triple_read) (auto intro: triple_return pop_answer_inv split: option.split)
  then show ?thesis
    unfolding process_msg_def
    by (intro inv.keeps_defunct_on_error defunct_inv keeps_then keeps_if answer_push_inv inv.keeps_cosmetic) (simp_all add: core_def)
qed

lemma process_msg_quiet: "keeps (\<lambda>c out. quiet c) (process_msg hdr body)"
proof -
  have pop: "keeps (\<lambda>c out. quiet c) (pop_request n)" for n
    unfolding pop_request_def by (rule keeps_modify) (auto simp: quiet_def dead_def)
  have deliver: "keeps (\<lambda>c out. quiet c) (deliver_response cb m)" for cb m
    unfolding deliver_response_def
    by (intro ignore_triple keeps_then quiet.keeps_protocol_error quiet.keeps_callback keeps_defunct_quiet)
  have answer: "keeps (\<lambda>c out. quiet c) (answer_request cb dec meta hdr body)" for cb dec meta
    unfolding answer_request_def
    by (rule keeps_bind [OF quiet.keeps_decode])
      (auto intro!: keeps_then quiet.keeps_callback keeps_defunct_quiet keeps_return deliver split: sum.split)
  have push: "keeps (\<lambda>c out. quiet c) (answer_push hdr body)"
    unfolding answer_push_def
    by (rule keeps_bind [OF quiet.keeps_decode])
      (auto intro!: keeps_then keeps_defunct_quiet keeps_return ignore_triple quiet.keeps_pushed split: sum.split)
  show ?thesis
    unfolding process_msg_def
    by (intro quiet.keeps_defunct_on_error keeps_defunct_quiet keeps_then keeps_if keeps_bind keeps_read push quiet.keeps_cosmetic)
      (auto simp: core_def intro!: keeps_return keeps_then pop answer split: option.split)
qed

lemma process_events_inv: "keeps (conn_inv held users) (process_events evs)"
proof -
  have "keeps (conn_inv held users) (process_event ev)" for ev
    by (cases ev) (simp_all add: process_msg_inv keeps_then defunct_inv keeps_return)
  then show ?thesis by (simp add: process_events_def keeps_each)
qed

lemma process_events_quiet: "keeps (\<lambda>c out. quiet c) (process_events evs)"
proof -
  have "keeps (\<lambda>c out. quiet c) (process_event ev)" for ev
    by (cases ev) (simp_all add: process_msg_quiet keeps_then keeps_defunct_quiet keeps_return)
  then show ?thesis by (simp add: process_events_def keeps_each)
qed

text \<open>The start of the protocol, from a new connection on, keeps the ids in order.\<close>

lemma startup_inv:
  assumes "0 \<le> max_in_flight" "send_options_message defunct
      (conn_init v max_in_flight cmpr local_codecs auth cql control beta nocompact reg) = (r, out, c)"
    "process_events evs c = (r', out', c')"
  shows "conn_inv [] {#} c' (out @ out')"
proof -
  have "conn_inv [] {#} (conn_init v max_in_flight cmpr local_codecs auth cql control beta nocompact reg) []"
    using assms(1) by (auto simp: conn_inv_def ids_def clients_def conn_init_def initial_size_def max_request_id_for_def)
  from keeps_run [OF inv.keeps_options_message [OF defunct_inv] this assms(2)] have "conn_inv [] {#} c out" by simp
  from keeps_run [OF process_events_inv this assms(3)] show ?thesis .
qed

text \<open>
  The lz4 module puts the length of the data in front of a block in little endian order and its
  \<open>decompress\<close> inverts its \<open>compress\<close>; the driver exchanges the length with the server in big
  endian order.
\<close>

lemma lz4_roundtrip:
  assumes "\<And>x. block_decompress (block_compress x) = Inr x"
    and "\<And>x h. int32_pack (int (length x)) = Inr h \<Longrightarrow> take 4 (block_compress x) = rev h"
    and "lz4_compress block_compress byts = Inr bs"
  shows "lz4_decompress block_decompress bs = Inr byts"
proof -
  from assms(3) obtain h where h: "int32_pack (int (length byts)) = Inr h" "bs = h @ drop 4 (block_compress byts)"
    by (auto simp: lz4_compress_def res_bind_Inr_iff)
  then have "length h = 4" using i32.pack_width by blast
  then have "rev (take 4 bs) @ drop 4 bs = take 4 (block_compress byts) @ drop 4 (block_compress byts)"
    using h assms(2) by simp
  then show ?thesis using assms(1) by (simp add: lz4_decompress_def)
qed

end
