(* ===== verification/Connection_Users.thy ===== *)
theory Connection_Users
  imports Connection
begin

text \<open>
  A connection together with its users: the pool that borrows stream ids, the requests that are
  sent under them, responses, timeouts, keyspace changes, heartbeats and the end of the
  connection, in any order. Stream ids are never shared, and every user is answered once.
\<close>

section \<open>A connection and its users\<close>

text \<open>
  A step is one operation of the connection, of a user or of the event loop, in any order.
  \<open>held\<close> are the ids borrowed and not yet used (or never given back), \<open>owed\<close> the number of users
  that are done and have not yet returned the connection, \<open>stuck\<close> the requests that could not be
  encoded. \<open>registered\<close> and \<open>forgotten\<close> are the users whose request was registered and those who
  gave it up after a timeout, \<open>history\<close> all actions so far.
\<close>

record sys =
  cn :: conn
  held :: "int list"
  owed :: nat
  stuck :: nat
  registered :: "nat multiset"
  forgotten :: "nat multiset"
  history :: "action list"

definition sys_init :: "conn \<Rightarrow> sys" where
  "sys_init c = \<lparr>cn = c, held = [], owed = 0, stuck = 0, registered = {#}, forgotten = {#}, history = []\<rparr>"

text \<open>What the connection did: its users that were answered owe it a return.\<close>

definition advance :: "action list \<Rightarrow> conn \<Rightarrow> sys \<Rightarrow> sys" where
  "advance out c s = s\<lparr>cn := c, history := history s @ out, owed := owed s + length (answered out)\<rparr>"

definition after_send :: "exn + 'a \<Rightarrow> int list \<Rightarrow> nat \<Rightarrow> sys \<Rightarrow> sys" where
  "after_send r ids' tok s =
     (case r of
        Inr _ \<Rightarrow> s\<lparr>held := ids', registered := add_mset tok (registered s)\<rparr>
      | Inl e \<Rightarrow> if e = ConnectionShutdown then s\<lparr>held := ids', owed := owed s + 1\<rparr>
                 else s\<lparr>held := ids', registered := add_mset tok (registered s), owed := owed s + 1, stuck := stuck s + 1\<rparr>)"

text \<open>
  Users that borrow, take an id and send in one operation. When it fails after the request was
  registered, the request stays; when it fails before, \<open>in_flight\<close> counts one too many from then on.
\<close>

definition user_op :: "nat \<Rightarrow> bool cop \<Rightarrow> bool" where
  "user_op tok m \<longleftrightarrow> (\<exists>ks. m = set_keyspace_async ks tok) \<or> m = heartbeat tok"

inductive sys_step :: "sys \<Rightarrow> sys \<Rightarrow> bool" where
  borrow: "in_flight (cn s) \<le> max_request_id (cn s) \<Longrightarrow> get_request_id (cn s) = (Inr n, out, c)
    \<Longrightarrow> sys_step s (s\<lparr>cn := c\<lparr>in_flight := in_flight c + 1\<rparr>, held := n # held s\<rparr>)"
| send: "held s = xs @ n # ys \<Longrightarrow> send_msg enc dec meta msg n (Client tok) (cn s) = (r, out, c)
    \<Longrightarrow> sys_step s (after_send r (xs @ ys) tok (advance out c s))"
| give_back: "0 < owed s \<Longrightarrow> sys_step s (s\<lparr>cn := (cn s)\<lparr>in_flight := in_flight (cn s) - 1\<rparr>, owed := owed s - 1\<rparr>)"
| receive: "process_events evs (cn s) = (r, out, c) \<Longrightarrow> sys_step s (advance out c s)"
| closing: "close (cn s) = (r, out, c) \<Longrightarrow> sys_step s (advance out c s)"
| failing: "defunct e (cn s) = (r', out, c) \<Longrightarrow> sys_step s (advance out c s)"
| time_out: "map_of (requests (cn s)) n = Some (Client tok, entry) \<Longrightarrow> forget_request n True (cn s) = (r'', out, c)
    \<Longrightarrow> sys_step s (s\<lparr>cn := c, forgotten := add_mset tok (forgotten s), owed := owed s + 1\<rparr>)"
| time_out_shutdown: "map_of (requests (cn s)) n = Some (Client tok, entry) \<Longrightarrow> forget_request n False (cn s) = (r'', out, c)
    \<Longrightarrow> sys_step s (s\<lparr>cn := c, forgotten := add_mset tok (forgotten s), held := n # held s\<rparr>)"
| user_done: "user_op tok m \<Longrightarrow> m (cn s) = (Inr True, out, c)
    \<Longrightarrow> sys_step s ((advance out c s)\<lparr>registered := add_mset tok (registered s)\<rparr>)"
| user_no_room: "user_op tok m \<Longrightarrow> m (cn s) = (Inr False, out, c) \<Longrightarrow> sys_step s (advance out c s)"
| user_failed: "user_op tok m \<Longrightarrow> m (cn s) = (Inl e, out, c)
    \<Longrightarrow> sys_step s (if length (clients c) + length (answered out) = length (clients (cn s))
                    then (advance out c s)\<lparr>owed := owed s + length (answered out) + 1\<rparr>
                    else (advance out c s)\<lparr>registered := add_mset tok (registered s)\<rparr>)"

text \<open>A connection that was started: nothing waits, and all its ids are free.\<close>

definition started :: "conn \<Rightarrow> bool" where
  "started c \<longleftrightarrow> requests c = [] \<and> in_flight c = 0 \<and> distinct (request_ids c) \<and> set (request_ids c) = {0..highest_request_id c}
     \<and> - 1 \<le> highest_request_id c \<and> highest_request_id c \<le> max_request_id c"

inductive reachable :: "sys \<Rightarrow> bool" where
  start: "started c \<Longrightarrow> reachable (sys_init c)"
| step: "reachable s \<Longrightarrow> sys_step s s' \<Longrightarrow> reachable s'"

lemma conn_init_started:
  assumes "0 \<le> max_in_flight"
  shows "started (conn_init v max_in_flight cmpr local_codecs auth cql control beta nocompact reg)"
  using assms by (auto simp: started_def conn_init_def initial_size_def max_request_id_for_def distinct_upto)

definition users_only :: "conn \<Rightarrow> bool" where
  "users_only c \<longleftrightarrow> (\<forall>(n, cb, e) \<in> set (requests c). clients_of cb \<noteq> [])"

definition sys_inv :: "sys \<Rightarrow> bool" where
  "sys_inv s \<longleftrightarrow> (\<exists>users. conn_inv (held s) users (cn s) (history s) \<and> registered s = users + forgotten s)
     \<and> quiet (cn s) \<and> users_only (cn s)
     \<and> in_flight (cn s) + int (stuck s) = int (length (held s)) + int (length (clients (cn s))) + int (owed s)"

text \<open>Once a connection was started, only users send.\<close>

definition calm :: "conn \<Rightarrow> action list \<Rightarrow> bool" where
  "calm c out \<longleftrightarrow> quiet c \<and> users_only c"

lemma calm_gone: "dead c \<and> requests c = [] \<Longrightarrow> calm c out"
  by (simp add: calm_def quiet_def users_only_def)

lemma defunct_calm: "keeps calm (defunct e)"
  using defunct_quiet by (rule triple_weaken) (simp_all add: calm_def, simp add: quiet_def users_only_def)

lemma close_calm: "keeps calm close"
  using close_quiet by (rule triple_weaken) (simp_all add: calm_def, simp add: quiet_def users_only_def)

lemma cosmetic_calm: "(\<And>c. core (f c) = core c) \<Longrightarrow> keeps calm (op_modify f)"
  by (rule keeps_modify) (simp add: core_def calm_def quiet_def users_only_def dead_def)

lemma emit_calm: "keeps calm (op_emit out')"
  by (rule keeps_emit) (simp add: calm_def)

lemma callback_calm: "clients_of cb \<noteq> [] \<Longrightarrow> keeps calm (run_callback defunct cb ans)"
  by (cases cb) (auto simp: process_result_def Let_def core_def intro!: emit_calm triples defunct_calm cosmetic_calm
      split: answer.split response.split)

lemma answer_request_calm: "clients_of cb \<noteq> [] \<Longrightarrow> keeps calm (answer_request cb dec meta hdr body)"
  unfolding answer_request_def deliver_response_def ignore_errors_def check_protocol_error_def decode_with_def
  by (rule keeps_bind)
    (auto simp: core_def intro!: triples callback_calm defunct_calm cosmetic_calm split: sum.split response.split)

lemma answer_push_calm: "keeps calm (answer_push hdr body)"
  unfolding answer_push_def ignore_errors_def handle_pushed_def decode_with_def
  by (rule keeps_bind)
    (auto simp: core_def intro!: triples emit_calm defunct_calm cosmetic_calm split: sum.split response.split)

lemma process_msg_calm: "keeps calm (process_msg hdr body)"
proof -
  have "keeps calm (op_bind (op_read (\<lambda>c. map_of (requests c) (fr_stream hdr))) (\<lambda>entry.
      case entry of
        None \<Rightarrow> op_return ()
      | Some (cb, dec, meta) \<Rightarrow> op_then (pop_request (fr_stream hdr)) (answer_request cb dec meta hdr body)))"
  proof (rule triple_read)
    fix entry
    have pop: "keeps calm (pop_request n)" for n
      unfolding pop_request_def
      by (rule keeps_modify) (auto simp: calm_def quiet_def users_only_def dead_def AList.delete_eq)
    show "triple (\<lambda>c out. calm c out \<and> map_of (requests c) (fr_stream hdr) = entry)
       (case entry of
          None \<Rightarrow> op_return ()
        | Some (cb, dec, meta) \<Rightarrow> op_then (pop_request (fr_stream hdr)) (answer_request cb dec meta hdr body)) (\<lambda>_. calm)"
    proof (cases entry)
      case None
      then show ?thesis by (auto intro: triple_return)
    next
      case (Some e)
      obtain cb dec meta where e: "e = (cb, dec, meta)" by (cases e)
      show ?thesis
      proof (cases "clients_of cb = []")
        case True
        with Some e show ?thesis by (intro triple_false) (auto simp: calm_def users_only_def dest!: map_of_SomeD)
      next
        case False
        with Some e pop answer_request_calm show ?thesis by (auto intro!: triple_pre [OF keeps_then])
      qed
    qed
  qed
  then show ?thesis
    unfolding process_msg_def defunct_on_error_def
    by (intro keeps_catch keeps_then keeps_return defunct_calm keeps_if answer_push_calm cosmetic_calm) (simp_all add: core_def)
qed

lemma process_events_calm: "keeps calm (process_events evs)"
proof -
  have "keeps calm (process_event ev)" for ev
    by (cases ev) (simp_all add: process_msg_calm keeps_then defunct_calm keeps_return)
  then show ?thesis by (simp add: process_events_def keeps_each)
qed

section \<open>The invariant of the system\<close>

lemma advance_inv:
  assumes "sys_inv s" "keeps calm m" "\<And>held users. keeps (conn_inv held users) m"
    "\<And>k l. keeps (\<lambda>c out. in_flight c = k \<and> max_request_id c = l) m" "m (cn s) = (r, out, c)"
  shows "sys_inv (advance out c s)"
proof -
  from assms(1) obtain users where users: "conn_inv (held s) users (cn s) (history s)" "registered s = users + forgotten s"
    by (auto simp: sys_inv_def)
  from keeps_run [OF assms(3) users(1) assms(5)] have inv: "conn_inv (held s) users c (history s @ out)" .
  from assms(1) have "calm (cn s) (history s)" by (simp add: sys_inv_def calm_def)
  from keeps_run [OF assms(2) this assms(5)] have calm: "quiet c" "users_only c" by (simp_all add: calm_def)
  from keeps_run [OF assms(4) [of "in_flight (cn s)" "max_request_id (cn s)"] _ assms(5)]
  have flight: "in_flight c = in_flight (cn s)" by simp
  from users(1) inv have "mset (clients c) + mset (answered out) = mset (clients (cn s))"
    by (auto simp: conn_inv_def)
  then have "size (mset (clients c)) + size (mset (answered out)) = size (mset (clients (cn s)))"
    by (metis size_union)
  then have "length (clients (cn s)) = length (clients c) + length (answered out)" by simp
  with assms(1) inv calm flight users(2) show ?thesis by (auto simp: sys_inv_def advance_def)
qed

text \<open>A request given up: its id is free again, or lost when the pool is shut down.\<close>

lemma forget_inv:
  assumes "map_of (requests c) n = Some (cb, entry)" "conn_inv hs users c out"
  shows "mset (clients_of cb) \<subseteq># users"
    "conn_inv hs (users - mset (clients_of cb)) (c\<lparr>requests := AList.delete n (requests c), request_ids := request_ids c @ [n]\<rparr>) out"
    "conn_inv (n # hs) (users - mset (clients_of cb)) (c\<lparr>requests := AList.delete n (requests c)\<rparr>) out"
proof -
  from pop_inv assms show "mset (clients_of cb) \<subseteq># users" by (cases entry) blast
  from pop_inv assms show *: "conn_inv hs (users - mset (clients_of cb))
      (c\<lparr>requests := AList.delete n (requests c), request_ids := request_ids c @ [n]\<rparr>) out" by (cases entry) blast
  have "mset (ids hs (c\<lparr>requests := AList.delete n (requests c), request_ids := request_ids c @ [n]\<rparr>))
      = mset (ids (n # hs) (c\<lparr>requests := AList.delete n (requests c)\<rparr>))" by (simp add: ids_def)
  with * show "conn_inv (n # hs) (users - mset (clients_of cb)) (c\<lparr>requests := AList.delete n (requests c)\<rparr>) out"
    by (auto simp: conn_inv_def dead_def clients_def dest: mset_eq_setD mset_eq_imp_distinct_iff)
qed

lemma time_out_inv:
  assumes "sys_inv s" "map_of (requests (cn s)) n = Some (Client tok, entry)"
    "forget_request n op (cn s) = (r, out, c)"
  shows "sys_inv (if op then s\<lparr>cn := c, forgotten := add_mset tok (forgotten s), owed := owed s + 1\<rparr>
     else s\<lparr>cn := c, forgotten := add_mset tok (forgotten s), held := n # held s\<rparr>)"
proof -
  from assms(1) obtain users where users: "conn_inv (held s) users (cn s) (history s)" "registered s = users + forgotten s"
    by (auto simp: sys_inv_def)
  note f = forget_inv [OF assms(2) users(1)]
  from assms(2, 3) have c: "c = (cn s)\<lparr>requests := AList.delete n (requests (cn s)),
      request_ids := (if op then request_ids (cn s) @ [n] else request_ids (cn s))\<rparr>"
    by (auto simp: forget_request_def op_defs)
  from f have inv: "conn_inv (if op then held s else n # held s) (users - {#tok#}) c (history s)" by (simp add: c)
  from f(1) have tok: "tok \<in># users" by simp
  from users(1) inv tok have "mset (clients (cn s)) = add_mset tok (mset (clients c))"
    by (auto simp: conn_inv_def dest!: multi_member_split)
  then have "length (clients (cn s)) = length (clients c) + 1" by (metis size_mset size_add_mset Suc_eq_plus1)
  moreover have "quiet c" "users_only c"
    using assms(1) by (auto simp: c sys_inv_def quiet_def users_only_def dead_def AList.delete_eq)
  moreover have "registered s = (users - {#tok#}) + add_mset tok (forgotten s)" using users(2) tok by simp
  moreover have "in_flight c = in_flight (cn s)" by (simp add: c)
  ultimately show ?thesis using assms(1) inv by (auto simp: sys_inv_def)
qed

lemma set_update: "set (AList.update k v al) \<subseteq> insert (k, v) (set al)"
  by (induction al) auto

lemma send_msg_users: "clients_of cb \<noteq> [] \<Longrightarrow> keeps (\<lambda>c out. users_only c) (send_msg enc dec meta msg n cb)"
  using set_update by (fastforce simp: send_msg_def users_only_def intro!: triples keeps_modify keeps_emit split: sum.split)

lemma get_request_id_users: "keeps (\<lambda>c out. users_only c) get_request_id"
proof -
  have "users_only (c\<lparr>request_ids := ns\<rparr>) = users_only c" "users_only (c\<lparr>highest_request_id := h\<rparr>) = users_only c" for c ns h
    by (simp_all add: users_only_def)
  then show ?thesis by (auto simp: get_request_id_def intro!: triples keeps_modify split: list.split)
qed

lemma send_inv:
  assumes "sys_inv s" "held s = xs @ n # ys" "send_msg enc dec meta msg n (Client tok) (cn s) = (r, out, c)"
  shows "sys_inv (after_send r (xs @ ys) tok (advance out c s))"
proof -
  from assms(1) obtain users where users: "conn_inv (held s) users (cn s) (history s)" "registered s = users + forgotten s"
    by (auto simp: sys_inv_def)
  from users(1) assms(2) have "conn_inv (n # xs @ ys) users (cn s) (history s)"
    by (auto simp: conn_inv_def ids_def)
  note inv = tripleD [OF send_msg_inv this assms(3)]
  have quiet: "quiet c" using keeps_run [OF send_msg_quiet _ assms(3)] assms(1) by (simp add: sys_inv_def)
  have only: "users_only c" using keeps_run [OF send_msg_users _ assms(3)] assms(1) by (simp add: sys_inv_def)
  show ?thesis
  proof (cases "dead (cn s)")
    case True
    with assms(3) have "r = Inl ConnectionShutdown" "out = []" "c = cn s" by (auto simp: send_msg_def op_defs)
    with inv quiet only users(2) assms(1, 2) show ?thesis by (auto simp: sys_inv_def after_send_def advance_def)
  next
    case False
    with assms(3) have c: "r \<noteq> Inl ConnectionShutdown" "answered out = []" "in_flight c = in_flight (cn s)"
      by (auto simp: send_msg_def op_defs split: sum.splits)
    with inv have inv': "conn_inv (xs @ ys) (add_mset tok users) c (history s @ out)" by simp
    with users(1) c(2) have "mset (clients c) = add_mset tok (mset (clients (cn s)))" by (auto simp: conn_inv_def)
    then have "length (clients c) = length (clients (cn s)) + 1" by (metis size_mset size_add_mset Suc_eq_plus1)
    with inv' c quiet only users(2) assms(1, 2) show ?thesis
      by (auto simp: sys_inv_def after_send_def advance_def split: sum.splits)
  qed
qed

lemma borrow_inv:
  assumes "sys_inv s" "get_request_id (cn s) = (Inr n, out, c)"
  shows "sys_inv (s\<lparr>cn := c\<lparr>in_flight := in_flight c + 1\<rparr>, held := n # held s\<rparr>)"
proof -
  from assms(1) obtain users where users: "conn_inv (held s) users (cn s) (history s)" "registered s = users + forgotten s"
    by (auto simp: sys_inv_def)
  have c: "out = []" "requests c = requests (cn s)" "in_flight c = in_flight (cn s)" "dead c = dead (cn s)"
    using assms(2) by (auto simp: get_request_id_def op_defs dead_def split: list.splits if_splits)
  from tripleD [OF get_request_id_inv users(1) assms(2)] c(1) have "conn_inv (n # held s) users c (history s)" by simp
  then have "conn_inv (n # held s) users (c\<lparr>in_flight := in_flight c + 1\<rparr>) (history s)"
    by (simp add: conn_inv_def ids_def dead_def clients_def)
  moreover have "quiet (c\<lparr>in_flight := in_flight c + 1\<rparr>)" "users_only (c\<lparr>in_flight := in_flight c + 1\<rparr>)"
    using assms(1) c by (auto simp: sys_inv_def quiet_def users_only_def dead_def)
  moreover have "clients (c\<lparr>in_flight := in_flight c + 1\<rparr>) = clients (cn s)" by (simp add: clients_def c)
  ultimately show ?thesis using assms(1) users(2) c(3) by (auto simp: sys_inv_def)
qed

text \<open>The operations of users that do all at once.\<close>

definition user_post :: "int list \<Rightarrow> nat multiset \<Rightarrow> int \<Rightarrow> nat \<Rightarrow> exn + bool \<Rightarrow> conn \<Rightarrow> action list \<Rightarrow> bool" where
  "user_post hs users k tok r c out \<longleftrightarrow>
     (if r = Inr False then conn_inv hs users c out \<and> in_flight c = k
      else in_flight c = k + 1 \<and> (conn_inv hs (add_mset tok users) c out \<or> isl r \<and> conn_inv hs users c out))"

lemma count_calm: "keeps calm (op_modify (\<lambda>c. c\<lparr>in_flight := f c\<rparr>))"
  by (rule keeps_modify) (simp add: calm_def quiet_def users_only_def dead_def)

lemma send_default_calm: "clients_of cb \<noteq> [] \<Longrightarrow> keeps calm (send_default req cb)"
proof -
  assume cb: "clients_of cb \<noteq> []"
  have "keeps (\<lambda>c out. quiet c \<and> users_only c) (send_default req cb)"
    unfolding send_default_def
    by (intro keeps_conj keeps_bind keeps_then keeps_return get_request_id_quiet get_request_id_users send_msg_quiet
        send_msg_users cb)
  then show ?thesis by (simp add: calm_def [abs_def])
qed

lemma user_op_calm: "user_op tok m \<Longrightarrow> keeps calm m"
  by (auto simp: user_op_def set_keyspace_async_def heartbeat_def intro!: triples count_calm emit_calm send_default_calm
      split: option.split)

lemma user_send_inv:
  assumes "clients_of cb = [tok]"
  shows "triple (\<lambda>c out. conn_inv hs users c out \<and> in_flight c = k) (op_then (send_default req cb) (op_return True))
     (\<lambda>r c out. r \<noteq> Inr False \<and> in_flight c = k \<and> (conn_inv hs (add_mset tok users) c out \<or> isl r \<and> conn_inv hs users c out))"
proof -
  have "triple (\<lambda>c out. conn_inv hs users c out \<and> in_flight c = k) (send_default req cb)
     (\<lambda>r c out. in_flight c = k \<and> (conn_inv hs (add_mset tok users) c out \<or> isl r \<and> conn_inv hs users c out))"
  proof (rule tripleI)
    fix c out r out' c'
    assume *: "conn_inv hs users c out \<and> in_flight c = k" "send_default req cb c = (r, out', c')"
    from * have "in_flight c' = k" using keeps_run [OF send_default_limits [of k "max_request_id c"] _ *(2)] by simp
    with tripleD [OF send_default_inv conjunct1 [OF *(1)] *(2)] assms
    show "in_flight c' = k \<and> (conn_inv hs (add_mset tok users) c' (out @ out') \<or> isl r \<and> conn_inv hs users c' (out @ out'))"
      by auto
  qed
  then show ?thesis unfolding op_then_def by (rule triple_bind) (auto intro: triple_return)
qed

lemma user_op_inv:
  assumes "user_op tok m"
  shows "triple (\<lambda>c out. conn_inv hs users c out \<and> in_flight c = k) m (user_post hs users k tok)"
proof -
  let ?P = "\<lambda>k c out. conn_inv hs users c out \<and> in_flight c = k"
  let ?count = "op_modify (\<lambda>c. c\<lparr>in_flight := in_flight c + 1\<rparr>)"
  have count: "triple (?P k) (op_then ?count m') R" if "triple (?P (k + 1)) m' R" for m' R
    using that by (rule triple_modify_then [rotated]) (simp add: conn_inv_def ids_def dead_def clients_def)
  have send: "triple (?P (k + 1)) (op_then (send_default req cb) (op_return True)) (user_post hs users k tok)"
    if "clients_of cb = [tok]" for req cb
    using user_send_inv [OF that] by (rule triple_weaken) (auto simp: user_post_def)
  have emit: "triple (?P (k + 1)) (op_then (op_emit [KeyspaceSet tok None]) (op_return True)) (user_post hs users k tok)"
    by (auto simp: triple_def op_defs user_post_def conn_inv_def)
  have full: "triple (?P k) (op_return False) (user_post hs users k tok)"
    by (auto intro: triple_return simp: user_post_def)
  show ?thesis
  proof (cases "m = heartbeat tok")
    case True
    show ?thesis unfolding True heartbeat_def
      by (rule triple_read, rule triple_pre [where P' = "?P k"], rule triple_if, rule count, rule send) (simp_all add: full)
  next
    case False
    with assms obtain ks where m: "m = set_keyspace_async ks tok" by (auto simp: user_op_def)
    have body: "triple (?P (k + 1)) (op_bind (op_read conn_keyspace) (\<lambda>current.
          op_then (case ks of
               None \<Rightarrow> op_emit [KeyspaceSet tok None]
             | Some k \<Rightarrow> if k = [] \<or> current = Some k then op_emit [KeyspaceSet tok None]
                         else send_default (use_query k) (ProcessResult k tok))
            (op_return True))) (user_post hs users k tok)"
      by (rule triple_read, rule triple_pre [where P' = "?P (k + 1)"]) (auto intro!: emit send split: option.split)
    show ?thesis unfolding m set_keyspace_async_def
      by (rule triple_read, rule triple_pre [where P' = "?P k"], rule triple_if, rule full, rule count, rule body) simp
  qed
qed

lemma user_step_inv:
  assumes "sys_inv s" "user_op tok m" "m (cn s) = (r, out, c)"
  shows "sys_inv (case r of
      Inr True \<Rightarrow> (advance out c s)\<lparr>registered := add_mset tok (registered s)\<rparr>
    | Inr False \<Rightarrow> advance out c s
    | Inl e \<Rightarrow> (if length (clients c) + length (answered out) = length (clients (cn s))
                 then (advance out c s)\<lparr>owed := owed s + length (answered out) + 1\<rparr>
                 else (advance out c s)\<lparr>registered := add_mset tok (registered s)\<rparr>))"
proof -
  from assms(1) obtain users where users: "conn_inv (held s) users (cn s) (history s)" "registered s = users + forgotten s"
    by (auto simp: sys_inv_def)
  have calm: "quiet c" "users_only c"
    using keeps_run [OF user_op_calm [OF assms(2)] _ assms(3)] assms(1) by (simp_all add: sys_inv_def calm_def)
  from tripleD [OF user_op_inv [OF assms(2)] _ assms(3)] users(1)
  have post: "user_post (held s) users (in_flight (cn s)) tok r c (history s @ out)" by simp
  have size: "length (clients c) + length (answered out) = length (clients (cn s)) + size us"
    if "conn_inv (held s) (users + us) c (history s @ out)" for us
  proof -
    from that users(1) have "mset (clients c) + mset (answered out) = mset (clients (cn s)) + us"
      by (auto simp: conn_inv_def)
    then have "size (mset (clients c)) + size (mset (answered out)) = size (mset (clients (cn s))) + size us"
      by (metis size_union)
    then show ?thesis by simp
  qed
  note s0 = size [of "{#}", simplified] and s1 = size [of "{#tok#}", simplified]
  show ?thesis
    using post assms(1) calm users(2) s0 s1
    by (auto simp: user_post_def sys_inv_def advance_def split: sum.split bool.split)
qed

lemma sys_step_inv:
  assumes "sys_step s s'" "sys_inv s"
  shows "sys_inv s'"
  using assms
proof (induction rule: sys_step.induct)
  case (borrow s n out c)
  then show ?case by (auto intro: borrow_inv)
next
  case (send s xs n ys enc dec meta msg tok r out c)
  then show ?case by (auto intro: send_inv)
next
  case (give_back s)
  then show ?case by (auto simp: sys_inv_def conn_inv_def ids_def dead_def clients_def quiet_def users_only_def)
next
  case (receive evs s r out c)
  then show ?case by (auto intro: advance_inv process_events_calm process_events_inv lim.keeps_process_events)
next
  case (closing s r out c)
  then show ?case by (auto intro: advance_inv close_calm close_inv lim.keeps_end)
next
  case (failing e s r out c)
  then show ?case by (auto intro: advance_inv defunct_calm defunct_inv lim.keeps_end)
next
  case (time_out s n tok entry r out c)
  then show ?case using time_out_inv [of s n tok entry True] by simp
next
  case (time_out_shutdown s n tok entry r out c)
  then show ?case using time_out_inv [of s n tok entry False] by simp
next
  case (user_done tok m s out c)
  then show ?case using user_step_inv by fastforce
next
  case (user_no_room tok m s out c)
  then show ?case using user_step_inv by fastforce
next
  case (user_failed tok m s e out c)
  then show ?case using user_step_inv by fastforce
qed

lemma reachable_inv: "reachable s \<Longrightarrow> sys_inv s"
proof (induction rule: reachable.induct)
  case (start c)
  then show ?case
    by (auto simp: started_def sys_inv_def sys_init_def conn_inv_def ids_def clients_def quiet_def users_only_def)
qed (rule sys_step_inv)

section \<open>What the users see\<close>

lemma length_clients: "users_only c \<Longrightarrow> length (requests c) \<le> length (clients c)"
proof -
  have "list_all (\<lambda>(n, cb, e). clients_of cb \<noteq> []) rs \<Longrightarrow> length rs \<le> length (concat (map (\<lambda>(n, cb, _). clients_of cb) rs))"
    for rs :: "request_entry list"
  proof (induction rs)
    case (Cons r rs)
    then show ?case by (cases r) (auto simp: Suc_le_eq add_le_mono simp flip: length_greater_0_conv)
  qed simp
  then show "users_only c \<Longrightarrow> length (requests c) \<le> length (clients c)"
    by (simp add: users_only_def clients_def list_all_iff)
qed

lemma room_for_id:
  assumes "sys_inv s" "\<not> dead (cn s)" "stuck s = 0" "in_flight (cn s) \<le> max_request_id (cn s)" "request_ids (cn s) = []"
  shows "highest_request_id (cn s) + 1 \<le> max_request_id (cn s)"
proof -
  let ?c = "cn s"
  from assms(1) have inv: "distinct (ids (held s) ?c)" "set (ids (held s) ?c) = {0..highest_request_id ?c}" "- 1 \<le> highest_request_id ?c"
    using assms(2) by (auto simp: sys_inv_def conn_inv_def)
  from distinct_card [OF inv(1)] inv(2, 3) have "int (length (ids (held s) ?c)) = highest_request_id ?c + 1" by simp
  also have "length (ids (held s) ?c) = length (requests ?c) + length (held s)" by (simp add: ids_def assms(5))
  finally have "highest_request_id ?c + 1 \<le> int (length (clients ?c)) + int (length (held s))"
    using length_clients [of ?c] assms(1) by (simp add: sys_inv_def)
  also have "\<dots> \<le> in_flight ?c" using assms(1, 3) by (simp add: sys_inv_def)
  finally show ?thesis using assms(4) by simp
qed

lemma fresh_id:
  assumes "sys_inv s" "\<not> dead (cn s)" "stuck s = 0" "in_flight (cn s) \<le> max_request_id (cn s)"
  obtains n c' where "get_request_id (cn s) = (Inr n, [], c')" "0 \<le> n" "n \<le> max_request_id (cn s)"
    "n \<notin> fst ` set (requests (cn s))" "n \<notin> set (held s)"
proof -
  let ?c = "cn s"
  from assms(1) have inv: "distinct (ids (held s) ?c)" "set (ids (held s) ?c) \<subseteq> {0..highest_request_id ?c}"
    "- 1 \<le> highest_request_id ?c" "highest_request_id ?c \<le> max_request_id ?c"
    by (auto simp: sys_inv_def conn_inv_def)
  show ?thesis
  proof (cases "request_ids ?c")
    case (Cons n ns)
    then have "get_request_id ?c = (Inr n, [], ?c\<lparr>request_ids := ns\<rparr>)" by (simp add: get_request_id_def op_defs)
    with inv Cons show ?thesis by (intro that [of n]) (auto simp: ids_def)
  next
    case Nil
    from room_for_id [OF assms Nil] have max: "highest_request_id ?c + 1 \<le> max_request_id ?c" .
    with Nil have "get_request_id ?c = (Inr (highest_request_id ?c + 1), [], ?c\<lparr>highest_request_id := highest_request_id ?c + 1\<rparr>)"
      by (simp add: get_request_id_def op_defs)
    with inv max show ?thesis by (intro that [of "highest_request_id ?c + 1"]) (auto simp: ids_def)
  qed
qed


definition example_conn :: "int \<Rightarrow> conn" where
  "example_conn max_in_flight = conn_init 4 max_in_flight NoCompression [] NoAuthenticator None False False False builtin_types"

lemma example_started: "0 \<le> max_in_flight \<Longrightarrow> started (example_conn max_in_flight)"
  by (simp add: example_conn_def conn_init_started)


text \<open>What was done stays done.\<close>

lemma keeps_history: "(\<And>out out'. P out \<Longrightarrow> P (out @ out')) \<Longrightarrow> keeps (\<lambda>c. P) m"
  by (simp add: triple_def)

lemma then_history:
  "(\<And>out out'. P out \<Longrightarrow> P (out @ out')) \<Longrightarrow> triple Q m (\<lambda>_ c. P) \<Longrightarrow> triple Q (op_then m m') (\<lambda>_ c. P)"
  by (rule triple_then [where R = "\<lambda>c. P"]) (simp_all add: keeps_history)

lemma history_then:
  "never_raises m \<Longrightarrow> triple (\<lambda>c out. True) m' (\<lambda>_ c. P) \<Longrightarrow> triple (\<lambda>c out. True) (op_then m m') (\<lambda>_ c. P)"
  by (rule triple_then_never [where R = "\<lambda>c out. True"]) (simp_all add: triple_def)

abbreviation answers :: "nat list \<Rightarrow> unit cop \<Rightarrow> bool" where
  "answers toks m \<equiv> triple (\<lambda>c out. True) m (\<lambda>_ c out. set toks \<subseteq> set (answered out))"

lemma callback_answers:
  assumes "\<And>e. never_raises (dfn e)"
  shows "answers (clients_of cb) (run_callback dfn cb ans)"
proof (cases cb)
  case (ProcessResult ks tok)
  have emit: "answers [tok] (op_emit [KeyspaceSet tok err])" for err by (simp add: triple_def op_emit_def)
  have "answers [tok] (op_bind (dfn ConnectionException) (\<lambda>err. op_emit [KeyspaceSet tok err]))"
    by (rule triple_bind_never [OF assms, where R = "\<lambda>c out. True"]) (simp_all add: triple_def op_emit_def)
  moreover have "answers [tok] (op_then (op_modify (\<lambda>c. c\<lparr>conn_keyspace := Some ks\<rparr>)) (op_emit [KeyspaceSet tok None]))"
    by (rule history_then [OF never_basic(3) emit])
  ultimately show ?thesis
    using emit by (auto simp: ProcessResult process_result_def Let_def split: answer.split response.split)
qed (simp_all add: triple_def op_emit_def)

lemma deliver_answers: "answers (clients_of cb) (deliver_response cb m)"
  unfolding deliver_response_def
proof (rule ignore_triple, rule history_then)
  show "never_raises (check_protocol_error (msg_body m))"
    by (auto simp: check_protocol_error_def intro!: never split: response.split)
qed (rule callback_answers, rule never_end)

lemma answer_request_answers: "answers (clients_of cb) (answer_request cb dec meta hdr body)"
  unfolding answer_request_def
proof (rule triple_bind_never [where R = "\<lambda>c out. True"])
  show "never_raises (decode_with dec hdr body meta)"
    by (auto simp: decode_with_def intro!: never split: sum.split)
qed (auto simp: deliver_answers triple_def [of "\<lambda>c out. True" _ "\<lambda>_ _ _. True"] intro!: then_history callback_answers never_end
    split: sum.split)

lemma process_msg_answers:
  assumes "map_of (requests c) (fr_stream hdr) = Some (cb, dec, meta)" "0 \<le> fr_stream hdr"
    "process_msg hdr body c = (r, out, c')"
  shows "set (clients_of cb) \<subseteq> set (answered out)"
proof -
  let ?P = "\<lambda>c out. map_of (requests c) (fr_stream hdr) = Some (cb, dec, meta)"
  have found: "triple (\<lambda>c out. ?P c out \<and> map_of (requests c) (fr_stream hdr) = entry)
      (case entry of
            None \<Rightarrow> op_return ()
          | Some (cb, dec, result_metadata) \<Rightarrow>
              op_then (pop_request (fr_stream hdr)) (answer_request cb dec result_metadata hdr body))
      (\<lambda>_ c out. set (clients_of cb) \<subseteq> set (answered out))" for entry
  proof (cases "entry = Some (cb, dec, meta)")
    case True
    have "answers (clients_of cb) (op_then (pop_request (fr_stream hdr)) (answer_request cb dec meta hdr body))"
      by (rule history_then) (simp_all add: pop_request_def never_basic answer_request_answers)
    then show ?thesis by (auto simp: True intro: triple_pre)
  qed (auto intro: triple_false)
  have "triple ?P (process_msg hdr body) (\<lambda>_ c out. set (clients_of cb) \<subseteq> set (answered out))"
    unfolding process_msg_def
  proof (intro defunct_on_error_triple keeps_history triple_modify_then [where R = ?P])
    show "triple ?P (if fr_stream hdr < 0 then answer_push hdr body
        else op_bind (op_read (\<lambda>c. map_of (requests c) (fr_stream hdr))) (\<lambda>entry.
          case entry of
            None \<Rightarrow> op_return ()
          | Some (cb, dec, result_metadata) \<Rightarrow>
              op_then (pop_request (fr_stream hdr)) (answer_request cb dec result_metadata hdr body)))
      (\<lambda>_ c out. set (clients_of cb) \<subseteq> set (answered out))"
      using assms(2) by (auto intro: triple_read [OF found])
  qed auto
  from tripleD [OF this assms(1, 3), of "[]"] show ?thesis by simp
qed

text \<open>When a connection ends, everyone who waits is answered, once.\<close>

lemma end_answers:
  assumes "sys_inv s" "keeps (conn_inv (held s) users) m" "triple (\<lambda>c out. quiet c) m (\<lambda>_ c out. dead c \<and> requests c = [])"
    "conn_inv (held s) users (cn s) (history s)" "m (cn s) = (r, out, c)"
  shows "mset (answered out) = mset (clients (cn s))"
proof -
  from keeps_run [OF assms(2, 4, 5)] have "conn_inv (held s) users c (history s @ out)" .
  moreover have "requests c = []" using tripleD [OF assms(3) _ assms(5)] assms(1) by (simp add: sys_inv_def)
  ultimately show ?thesis using assms(4) by (auto simp: conn_inv_def clients_def)
qed

text \<open>
  C4: every user whose request was registered waits, or was answered exactly once, or gave up
  after a timeout; a response with the stream id of a request answers its user, whatever the
  response is; \<open>close\<close> and \<open>defunct\<close> answer each user that waits exactly once, and on a connection
  that is closed or defunct nobody waits.
\<close>

theorem requests_answered_once:
  assumes "reachable s"
  shows "registered s = mset (clients (cn s)) + mset (answered (history s)) + forgotten s
    \<and> (dead (cn s) \<longrightarrow> clients (cn s) = [])
    \<and> (\<forall>hdr body cb dec meta r out c. map_of (requests (cn s)) (fr_stream hdr) = Some (cb, dec, meta)
         \<longrightarrow> process_msg hdr body (cn s) = (r, out, c) \<longrightarrow> set (clients_of cb) \<subseteq> set (answered out))
    \<and> (\<forall>r out c. close (cn s) = (r, out, c) \<longrightarrow> mset (answered out) = mset (clients (cn s)))
    \<and> (\<forall>e r out c. defunct e (cn s) = (r, out, c) \<longrightarrow> mset (answered out) = mset (clients (cn s)))"
proof -
  from reachable_inv [OF assms] have inv: "sys_inv s" .
  then obtain users where users: "conn_inv (held s) users (cn s) (history s)" "registered s = users + forgotten s"
    by (auto simp: sys_inv_def)
  have pos: "0 \<le> n" if "map_of (requests (cn s)) n = Some e" for n e
  proof -
    from map_of_SomeD [OF that] have "n \<in> set (ids (held s) (cn s))" by (force simp: ids_def)
    with users(1) show ?thesis by (auto simp: conn_inv_def)
  qed
  have "dead (cn s) \<longrightarrow> clients (cn s) = []" using inv by (simp add: sys_inv_def quiet_def clients_def)
  moreover have "registered s = mset (clients (cn s)) + mset (answered (history s)) + forgotten s"
    using users by (simp add: conn_inv_def)
  moreover have "set (clients_of cb) \<subseteq> set (answered out)"
    if "map_of (requests (cn s)) (fr_stream hdr) = Some (cb, dec, meta)" "process_msg hdr body (cn s) = (r, out, c)"
    for hdr body cb dec meta r out c
    using that pos [OF that(1)] by (intro process_msg_answers)
  moreover have "mset (answered out) = mset (clients (cn s))" if "close (cn s) = (r, out, c)" for r out c
    by (rule end_answers [OF inv close_inv close_quiet users(1) that])
  moreover have "mset (answered out) = mset (clients (cn s))" if "defunct e (cn s) = (r, out, c)" for e r out c
    by (rule end_answers [OF inv defunct_inv defunct_quiet users(1) that])
  ultimately show ?thesis by auto
qed

text \<open>A connection with one id, borrowed by user 7 to send an options request.\<close>

definition example_sent :: conn where
  "example_sent = (example_conn 1)\<lparr>request_ids := [], in_flight := 1, requests := [(0, Client 7, decode_message, None)]\<rparr>"

definition example_bytes :: bytes where
  "example_bytes = [4, 0, 0, 0, 5, 0, 0, 0, 0]"

lemma example_encoded: "encode_message (plain_message Options) 0 4 None False = Inr example_bytes"
  by (simp add: encode_message_def encode_body_def write_header_def plain_message_def payload_given_def write_if_def
      send_eval uint8_pack_def int16_pack_def example_bytes_def)

lemma example_borrow:
  "get_request_id (example_conn 1) = (Inr 0, [], (example_conn 1)\<lparr>request_ids := []\<rparr>)"
  by (simp add: get_request_id_def op_defs example_conn_def conn_init_def initial_size_def max_request_id_for_def)

lemma example_send:
  "send_msg encode_message decode_message None (plain_message Options) 0 (Client 7)
     ((example_conn 1)\<lparr>request_ids := [], in_flight := 1\<rparr>) = (Inr 9, [Pushed example_bytes], example_sent)"
  using example_encoded
  by (simp add: send_msg_def op_defs dead_def example_sent_def example_conn_def conn_init_def example_bytes_def)

lemma example_reachable:
  "reachable \<lparr>cn = example_sent, held = [], owed = 0, stuck = 0, registered = {#7#}, forgotten = {#},
     history = [Pushed example_bytes]\<rparr>"
proof -
  let ?c0 = "example_conn 1"
  have "in_flight ?c0 = 0" "max_request_id ?c0 = 0"
    by (simp_all add: example_conn_def conn_init_def max_request_id_for_def)
  then have "sys_step (sys_init ?c0) ((sys_init ?c0)\<lparr>cn := ?c0\<lparr>request_ids := [], in_flight := 1\<rparr>, held := [0]\<rparr>)"
    using sys_step.borrow [of "sys_init ?c0" 0 "[]"] example_borrow by (simp add: sys_init_def)
  moreover have "sys_step ((sys_init ?c0)\<lparr>cn := ?c0\<lparr>request_ids := [], in_flight := 1\<rparr>, held := [0]\<rparr>)
      \<lparr>cn = example_sent, held = [], owed = 0, stuck = 0, registered = {#7#}, forgotten = {#}, history = [Pushed example_bytes]\<rparr>"
    using sys_step.send [of "(sys_init ?c0)\<lparr>cn := ?c0\<lparr>request_ids := [], in_flight := 1\<rparr>, held := [0]\<rparr>" "[]" 0 "[]",
        simplified, OF example_send]
    by (simp add: sys_init_def after_send_def advance_def)
  moreover have "reachable (sys_init ?c0)" by (rule reachable.start) (simp add: example_started)
  ultimately show ?thesis by (blast intro: reachable.step)
qed

theorem requests_answered_once_witness: "mset (answered (fst (snd (close example_sent)))) = {#7#}"
proof -
  obtain r out c where "close example_sent = (r, out, c)" by (cases "close example_sent") auto
  with requests_answered_once [OF example_reachable] show ?thesis by (simp add: clients_def example_sent_def)
qed

section \<open>Two errors\<close>

text \<open>
  C37: a request that timed out frees its stream id while the server still works on it. When the id
  is the next free one, the next request gets it, and the response to the first request, when it
  comes, is delivered to the user of the second.
\<close>

theorem late_response_misdelivered:
  assumes "\<not> dead c" "request_ids c = []" "map_of (requests c) n = Some (Client a, old)" "0 \<le> n" "fr_stream hdr = n"
    and "enc msg n (protocol_version c) (compressor c) (allow_beta c) = Inr bs"
    and "dec (fr_version hdr) n (fr_flags hdr) (fr_opcode hdr) body (decompressor c) meta (types c) = Inr (m, reg)"
    and "msg_body m = Result r"
  shows "\<exists>c1 c2 c3 c4. forget_request n True c = (Inr True, [], c1) \<and> get_request_id c1 = (Inr n, [], c2)
    \<and> send_msg enc dec meta msg n (Client b) c2 = (Inr (length bs), [Pushed bs], c3)
    \<and> process_msg hdr body c3 = (Inr (), [Call b (Message m)], c4)"
proof -
  define c1 where "c1 = c\<lparr>requests := AList.delete n (requests c), request_ids := [n]\<rparr>"
  define c2 where "c2 = c1\<lparr>request_ids := []\<rparr>"
  define c3 where "c3 = c2\<lparr>requests := AList.update n (Client b, dec, meta) (requests c2)\<rparr>"
  have "forget_request n True c = (Inr True, [], c1)"
    using assms(2, 3) by (simp add: forget_request_def op_defs c1_def)
  moreover have "get_request_id c1 = (Inr n, [], c2)"
    by (simp add: get_request_id_def op_defs c1_def c2_def)
  moreover have "send_msg enc dec meta msg n (Client b) c2 = (Inr (length bs), [Pushed bs], c3)"
    using assms(1, 6) by (simp add: send_msg_def op_defs c1_def c2_def c3_def dead_def)
  moreover have "map_of (requests c3) n = Some (Client b, dec, meta)"
    by (simp add: c3_def update_conv)
  then have "\<exists>c4. process_msg hdr body c3 = (Inr (), [Call b (Message m)], c4)"
    using assms(4, 5, 7, 8)
    by (simp add: process_msg_def defunct_on_error_def pop_request_def answer_request_def decode_with_def deliver_response_def
        ignore_errors_def check_protocol_error_def op_defs c1_def c2_def c3_def)
  ultimately show ?thesis by blast
qed

definition example_void :: message where
  "example_void = message.make 0 None None None (Result VoidResult)"

lemma example_void_decodes: "decode_message 4 0 0 8 [0, 0, 0, 1] None None builtin_types = Inr (example_void, builtin_types)"
proof -
  have "be_sint [0, 0, 0, 1] = 1" by code_simp
  then show ?thesis
    by (simp add: decode_message_def read_if_def recv_body_def result_recv_body_def rd_bind_def rd_return_def rd_lift_def rd_read_def
        read_int_def int32_unpack_def unpack_signed_def example_void_def)
qed

theorem late_response_misdelivered_witness:
  "\<exists>c1 c2 c3 c4. forget_request 0 True example_sent = (Inr True, [], c1) \<and> get_request_id c1 = (Inr 0, [], c2)
    \<and> send_msg encode_message decode_message None (plain_message Options) 0 (Client 8) c2 = (Inr 9, [Pushed example_bytes], c3)
    \<and> process_msg (frame.make 4 0 0 8 9 13) [0, 0, 0, 1] c3 = (Inr (), [Call 8 (Message example_void)], c4)"
proof -
  let ?hdr = "frame.make 4 0 0 8 9 13"
  have c: "\<not> dead example_sent" "request_ids example_sent = []"
    "map_of (requests example_sent) 0 = Some (Client 7, decode_message, None)"
    by (simp_all add: example_sent_def example_conn_def conn_init_def dead_def)
  have enc: "encode_message (plain_message Options) 0 (protocol_version example_sent) (compressor example_sent)
      (allow_beta example_sent) = Inr example_bytes"
    using example_encoded by (simp add: example_sent_def example_conn_def conn_init_def)
  have dec: "decode_message (fr_version ?hdr) 0 (fr_flags ?hdr) (fr_opcode ?hdr) [0, 0, 0, 1] (decompressor example_sent) None
      (types example_sent) = Inr (example_void, builtin_types)"
    using example_void_decodes by (simp add: frame.make_def example_sent_def example_conn_def conn_init_def)
  have r: "fr_stream ?hdr = 0" "msg_body example_void = Result VoidResult" "length example_bytes = 9"
    by (simp_all add: frame.make_def example_void_def message.make_def example_bytes_def)
  from late_response_misdelivered [where enc = encode_message and dec = decode_message and n = 0 and meta = None
      and body = "[0, 0, 0, 1]" and msg = "plain_message Options" and b = 8, OF c order.refl r(1) enc dec r(2)] show ?thesis by (simp only: r(3))
qed

text \<open>A callback that runs among others.\<close>

lemma each_history:
  assumes "x \<in> set xs" "\<And>y. never_raises (f y)" "triple (\<lambda>c out. True) (f x) (\<lambda>_ c. P)" "\<And>out out'. P out \<Longrightarrow> P (out @ out')"
  shows "triple (\<lambda>c out. True) (op_each f xs) (\<lambda>_ c. P)"
  using assms(1)
proof (induction xs)
  case (Cons y ys)
  show ?case
  proof (cases "x = y")
    case True
    with assms(3, 4) show ?thesis by (simp add: then_history)
  next
    case False
    with Cons assms(2) show ?thesis by (simp add: history_then)
  qed
qed simp

lemma last_first_set: "rs \<noteq> [] \<Longrightarrow> set (last rs # butlast rs) = set rs"
  by (cases rs rule: rev_cases) auto

lemma error_all_reports:
  assumes "map_of (requests c) n = Some (ProcessResult ks tok, entry)" "error_all_requests c = (r, out, c')"
  shows "KeyspaceSet tok None \<in> set out"
proof -
  let ?f = "\<lambda>(n, cb, e). ignore_errors (run_callback no_defunct cb (Failure ConnectionShutdown))"
  from map_of_SomeD [OF assms(1)] have "requests c \<noteq> []" by auto
  with last_first_set [OF this] map_of_SomeD [OF assms(1)]
  have in_rs: "(n, ProcessResult ks tok, entry) \<in> set (last (requests c) # butlast (requests c))" "requests c \<noteq> []" by auto
  have "triple (\<lambda>c out. True) (?f (n, ProcessResult ks tok, entry)) (\<lambda>_ c out. KeyspaceSet tok None \<in> set out)"
    by (simp add: triple_def ignore_errors_def process_result_def no_defunct_def op_defs split: prod.split)
  then have each: "triple (\<lambda>c out. True) (op_each ?f (last (requests c) # butlast (requests c))) (\<lambda>_ c out. KeyspaceSet tok None \<in> set out)"
    by (intro each_history [OF in_rs(1)]) (auto intro: never)
  obtain r1 out1 c1 where run: "op_each ?f (last (requests c) # butlast (requests c)) (c\<lparr>requests := []\<rparr>) = (r1, out1, c1)"
    by (cases "op_each ?f (last (requests c) # butlast (requests c)) (c\<lparr>requests := []\<rparr>)") auto
  then have "out = out1" using assms(2) in_rs(2) by (simp add: error_all_requests_def op_bind_def op_read_def op_then_def op_modify_def op_when_def)
  with tripleD [OF each _ run, of "[]"] show ?thesis by simp
qed

text \<open>The users that are told of the end of a connection do not set its keyspace.\<close>

lemma error_all_keyspace:
  "triple (\<lambda>c out. users_only c \<and> conn_keyspace c = k) error_all_requests (\<lambda>_ c out. conn_keyspace c = k)"
  unfolding error_all_requests_def
proof (rule triple_read)
  fix rs :: "request_entry list"
  let ?f = "\<lambda>(n, cb, e). ignore_errors (run_callback no_defunct cb (Failure ConnectionShutdown))"
  show "triple (\<lambda>c out. (users_only c \<and> conn_keyspace c = k) \<and> requests c = rs)
     (op_then (op_modify (\<lambda>c. c\<lparr>requests := []\<rparr>)) (op_when (rs \<noteq> []) (op_each ?f (last rs # butlast rs)))) (\<lambda>_ c out. conn_keyspace c = k)"
  proof (cases "\<forall>(n, cb, e) \<in> set rs. clients_of cb \<noteq> []")
    case True
    have "keeps (\<lambda>c out. conn_keyspace c = k) (?f (n, cb, e))" if "clients_of cb \<noteq> []" for n cb and e :: "decoder \<times> column list option"
      using that
      by (cases cb) (auto simp: process_result_def no_defunct_def ignore_errors_def intro!: triples keeps_emit)
    with True have "keeps (\<lambda>c out. conn_keyspace c = k) (op_each ?f (last rs # butlast rs))" if "rs \<noteq> []"
      using last_first_set [OF that] by (intro keeps_each) fastforce
    then show ?thesis
      by (intro triple_modify_then [where R = "\<lambda>c out. conn_keyspace c = k"] keeps_when) auto
  next
    case False
    then show ?thesis by (intro triple_false) (auto simp: users_only_def)
  qed
qed

lemma end_reports:
  assumes "\<not> dead c" "users_only c" "map_of (requests c) n = Some (ProcessResult ks tok, entry)"
  shows "\<exists>out c'. close c = (Inr (), out, c') \<and> KeyspaceSet tok None \<in> set out \<and> conn_keyspace c' = conn_keyspace c"
    "\<exists>out c'. defunct e c = (Inr (Some e), out, c') \<and> KeyspaceSet tok None \<in> set out \<and> conn_keyspace c' = conn_keyspace c"
proof -
  have run: "\<exists>out c1. error_all_requests c0 = (Inr (), out, c1) \<and> KeyspaceSet tok None \<in> set out \<and> conn_keyspace c1 = conn_keyspace c"
    if "requests c0 = requests c" "conn_keyspace c0 = conn_keyspace c" for c0
  proof -
    obtain out c1 where e: "error_all_requests c0 = (Inr (), out, c1)"
      using never_raisesE [OF never_end(1)] by (metis old.unit.exhaust)
    from error_all_reports [OF _ e] assms(3) that(1) have "KeyspaceSet tok None \<in> set out" by simp
    moreover from tripleD [OF error_all_keyspace _ e, of "conn_keyspace c"] assms(2) that
    have "conn_keyspace c1 = conn_keyspace c" by (simp add: users_only_def)
    ultimately show ?thesis using e by blast
  qed
  from run [of "c\<lparr>is_closed := True\<rparr>"] assms(1)
  show "\<exists>out c'. close c = (Inr (), out, c') \<and> KeyspaceSet tok None \<in> set out \<and> conn_keyspace c' = conn_keyspace c"
    by (auto simp: close_def shutdown_requests_def dead_def op_defs)
  from run [of "c\<lparr>is_defunct := True, last_error := Some e, is_closed := True\<rparr>"] assms(1)
  show "\<exists>out c'. defunct e c = (Inr (Some e), out, c') \<and> KeyspaceSet tok None \<in> set out \<and> conn_keyspace c' = conn_keyspace c"
    by (auto simp: defunct_def close_def dead_def op_defs)
qed


definition example_keyspace :: conn where
  "example_keyspace = (example_conn 1)\<lparr>request_ids := [], in_flight := 1,
     requests := [(0, ProcessResult (text_of ''ks'') 7, decode_message, None)]\<rparr>"


end
