(* ===== verification/Timers.thy ===== *)
theory Timers
  imports Connection
begin

text \<open>
  \<open>Timer\<close> and \<open>TimerManager\<close> of \<open>cassandra/connection.py\<close>, which run the callbacks whose time has
  come, and \<open>ResponseWaiter\<close>, which collects the responses to several requests.
\<close>

section \<open>Timers\<close>

text \<open>
  A timer is known by a number. The heap of the manager is a list sorted by the end of the
  timers; the heap leaves the order of timers with the same end open.
\<close>

type_synonym timer = "rat \<times> nat"

record manager =
  tm_queue :: "timer list"
  tm_new :: "timer list"
  tm_canceled :: "nat list"

definition add_timer :: "timer \<Rightarrow> manager \<Rightarrow> manager" where
  "add_timer t m = m\<lparr>tm_new := tm_new m @ [t]\<rparr>"

definition cancel :: "nat \<Rightarrow> manager \<Rightarrow> manager" where
  "cancel n m = m\<lparr>tm_canceled := n # tm_canceled m\<rparr>"

definition heappush :: "timer \<Rightarrow> timer list \<Rightarrow> timer list" where
  "heappush t q = insort_key fst t q"

text \<open>What \<open>finish\<close> does: nothing is called for a canceled timer, and the callback may raise.\<close>

datatype finished = Done | Called | Raised | NotYet

definition finish :: "(nat \<Rightarrow> nat \<Rightarrow> bool) \<Rightarrow> nat list \<Rightarrow> rat \<Rightarrow> nat list \<Rightarrow> timer \<Rightarrow> finished" where
  "finish raises canceled now calls = (\<lambda>(end_time, n).
     if n \<in> set canceled then Done
     else if now \<ge> end_time then if raises n (count_list calls n) then Raised else Called
     else NotYet)"

text \<open>
  The loop over the queue: \<open>raises n k\<close> tells whether callback \<open>n\<close> raises when it was called \<open>k\<close>
  times before. A timer whose callback raised stays in the queue and is tried again at once.
\<close>

partial_function (option) service_loop ::
    "(nat \<Rightarrow> nat \<Rightarrow> bool) \<Rightarrow> nat list \<Rightarrow> rat \<Rightarrow> timer list \<Rightarrow> nat list \<Rightarrow> (nat list \<times> timer list \<times> rat option) option" where
  "service_loop raises canceled now q calls =
     (case q of
        [] \<Rightarrow> Some (calls, [], None)
      | t # q' \<Rightarrow>
          (case finish raises canceled now calls t of
             Done \<Rightarrow> service_loop raises canceled now q' calls
           | Called \<Rightarrow> service_loop raises canceled now q' (calls @ [snd t])
           | Raised \<Rightarrow> service_loop raises canceled now q (calls @ [snd t])
           | NotYet \<Rightarrow> Some (calls, q, Some (fst t))))"

definition service_timeouts ::
    "(nat \<Rightarrow> nat \<Rightarrow> bool) \<Rightarrow> rat \<Rightarrow> manager \<Rightarrow> (nat list \<times> rat option \<times> manager) option" where
  "service_timeouts raises now m =
     (let q = foldl (\<lambda>q t. heappush t q) (tm_queue m) (rev (tm_new m))
      in case service_loop raises (tm_canceled m) now q [] of
           None \<Rightarrow> None
         | Some (calls, q', next_end) \<Rightarrow> Some (calls, next_end, m\<lparr>tm_queue := q', tm_new := []\<rparr>))"

definition next_timeout :: "manager \<Rightarrow> rat option" where
  "next_timeout m = (case tm_queue m of [] \<Rightarrow> None | t # _ \<Rightarrow> Some (fst t))"

definition due :: "rat \<Rightarrow> timer \<Rightarrow> bool" where
  "due now t \<longleftrightarrow> fst t \<le> now"

lemma service_loop_no_raise:
  assumes "sorted (map fst q)" "\<And>n k. \<not> raises n k"
  shows "\<exists>q' next_end. service_loop raises canceled now q calls
      = Some (calls @ map snd (filter (\<lambda>t. due now t \<and> snd t \<notin> set canceled) q), q', next_end)
    \<and> set (filter (\<lambda>t. \<not> due now t \<and> snd t \<notin> set canceled) q) \<subseteq> set q' \<and> set q' \<subseteq> set q
    \<and> (\<forall>t \<in> set q'. \<not> due now t) \<and> sorted (map fst q')
    \<and> next_end = (case q' of [] \<Rightarrow> None | t # _ \<Rightarrow> Some (fst t))"
  using assms(1)
proof (induction q arbitrary: calls)
  case Nil
  show ?case by (subst service_loop.simps) simp
next
  case (Cons t q)
  show ?case
  proof (cases "finish raises canceled now calls t")
    case Done
    then have "snd t \<in> set canceled" by (auto simp: finish_def split: prod.splits if_splits)
    moreover have "service_loop raises canceled now (t # q) calls = service_loop raises canceled now q calls"
      by (subst service_loop.simps) (simp add: Done)
    ultimately show ?thesis using Cons.IH [of calls] Cons.prems by force
  next
    case Called
    then have "snd t \<notin> set canceled" "due now t" by (auto simp: finish_def due_def split: prod.splits if_splits)
    moreover have "service_loop raises canceled now (t # q) calls = service_loop raises canceled now q (calls @ [snd t])"
      by (subst service_loop.simps) (simp add: Called)
    ultimately show ?thesis using Cons.IH [of "calls @ [snd t]"] Cons.prems by force
  next
    case Raised
    with assms(2) show ?thesis by (auto simp: finish_def split: prod.splits if_splits)
  next
    case NotYet
    then have t: "\<not> due now t" by (auto simp: finish_def due_def split: prod.splits if_splits)
    with Cons.prems have rest: "\<forall>u \<in> set (t # q). \<not> due now u" by (force simp: due_def)
    then have "filter (\<lambda>t. due now t \<and> snd t \<notin> set canceled) (t # q) = []" by (auto simp: filter_empty_conv)
    moreover have "service_loop raises canceled now (t # q) calls = Some (calls, t # q, Some (fst t))"
      by (subst service_loop.simps) (simp add: NotYet)
    ultimately show ?thesis using rest Cons.prems by (auto simp del: filter.simps)
  qed
qed

text \<open>A loop that ends met no callback that always raises.\<close>

definition no_obstacle :: "(nat \<Rightarrow> nat \<Rightarrow> bool) \<Rightarrow> nat list \<Rightarrow> rat \<Rightarrow> timer list \<Rightarrow> bool" where
  "no_obstacle raises canceled now q \<longleftrightarrow> (\<forall>t \<in> set q. due now t \<and> snd t \<notin> set canceled \<longrightarrow> (\<exists>k. \<not> raises (snd t) k))"

lemma service_loop_ends:
  assumes "service_loop raises canceled now q calls = Some y"
  shows "sorted (map fst q) \<longrightarrow> no_obstacle raises canceled now q"
proof (rule service_loop.raw_induct [where P = "\<lambda>raises canceled now q calls y.
    sorted (map fst q) \<longrightarrow> no_obstacle raises canceled now q", OF _ assms])
  fix loop raises canceled now q calls y
  assume 1: "\<And>raises canceled now q calls y. loop raises canceled now q calls = Some y
      \<Longrightarrow> sorted (map fst q) \<longrightarrow> no_obstacle raises canceled now q"
    "(case q of
        [] \<Rightarrow> Some (calls, [], None)
      | t # q' \<Rightarrow>
          (case finish raises canceled now calls t of
             Done \<Rightarrow> loop raises canceled now q' calls
           | Called \<Rightarrow> loop raises canceled now q' (calls @ [snd t])
           | Raised \<Rightarrow> loop raises canceled now q (calls @ [snd t])
           | NotYet \<Rightarrow> Some (calls, q, Some (fst t)))) = Some y"
  show "sorted (map fst q) \<longrightarrow> no_obstacle raises canceled now q"
  proof (cases q)
    case (Cons u q')
    show ?thesis
    proof (cases "finish raises canceled now calls u")
      case Done
      then have "snd u \<in> set canceled" by (auto simp: finish_def split: prod.splits if_splits)
      then show ?thesis using 1 Cons Done by (auto simp: no_obstacle_def)
    next
      case Called
      then have "\<not> raises (snd u) (count_list calls (snd u))" by (auto simp: finish_def split: prod.splits if_splits)
      then show ?thesis using 1 Cons Called by (auto simp: no_obstacle_def)
    next
      case Raised
      then show ?thesis using 1 Cons by auto
    next
      case NotYet
      then have "\<not> due now u" by (auto simp: finish_def due_def split: prod.splits if_splits)
      then show ?thesis using Cons by (force simp: due_def no_obstacle_def)
    qed
  qed (simp add: no_obstacle_def)
qed

lemma push_all:
  "mset (foldl (\<lambda>q t. heappush t q) q ts) = mset q + mset ts"
  "sorted (map fst (foldl (\<lambda>q t. heappush t q) q ts)) = sorted (map fst q)"
  by (induction ts arbitrary: q) (simp_all add: heappush_def sorted_insort_key)

lemma service_no_raise:
  assumes "sorted (map fst (tm_queue m))" "\<And>n k. \<not> raises n k"
  shows "\<exists>calls m'. service_timeouts raises now m = Some (calls, next_timeout m', m')
    \<and> mset calls = {#snd t. t \<in># filter_mset (\<lambda>t. due now t \<and> snd t \<notin> set (tm_canceled m)) (mset (tm_queue m @ tm_new m))#}
    \<and> tm_new m' = [] \<and> sorted (map fst (tm_queue m')) \<and> list_all (\<lambda>t. \<not> due now t) (tm_queue m')
    \<and> {t \<in> set (tm_queue m @ tm_new m). \<not> due now t \<and> snd t \<notin> set (tm_canceled m)} \<subseteq> set (tm_queue m')"
proof -
  define q where "q = foldl (\<lambda>q t. heappush t q) (tm_queue m) (rev (tm_new m))"
  have q: "sorted (map fst q)" "mset q = mset (tm_queue m @ tm_new m)" using assms(1) by (simp_all add: q_def push_all)
  from service_loop_no_raise [OF q(1), where raises = raises, OF assms(2), where canceled = "tm_canceled m" and now = now and calls = "[]"] obtain q' where
    run: "service_loop raises (tm_canceled m) now q [] = Some (map snd (filter (\<lambda>t. due now t \<and> snd t \<notin> set (tm_canceled m)) q), q',
      case q' of [] \<Rightarrow> None | t # _ \<Rightarrow> Some (fst t))"
    and q': "set (filter (\<lambda>t. \<not> due now t \<and> snd t \<notin> set (tm_canceled m)) q) \<subseteq> set q'" "\<forall>t \<in> set q'. \<not> due now t" "sorted (map fst q')"
    by auto
  let ?m' = "m\<lparr>tm_queue := q', tm_new := []\<rparr>"
  have "service_timeouts raises now m
      = Some (map snd (filter (\<lambda>t. due now t \<and> snd t \<notin> set (tm_canceled m)) q), next_timeout ?m', ?m')"
    by (simp add: service_timeouts_def q_def [symmetric] run next_timeout_def)
  moreover have "set q = set (tm_queue m @ tm_new m)" using q(2) by (rule mset_eq_setD)
  moreover have "mset (map snd (filter (\<lambda>t. due now t \<and> snd t \<notin> set (tm_canceled m)) q))
      = {#snd t. t \<in># filter_mset (\<lambda>t. due now t \<and> snd t \<notin> set (tm_canceled m)) (mset (tm_queue m @ tm_new m))#}"
    by (simp only: q(2) [symmetric] mset_map mset_filter)
  moreover have "{t \<in> set q. \<not> due now t \<and> snd t \<notin> set (tm_canceled m)} \<subseteq> set q'" using q'(1) by auto
  ultimately show ?thesis using q'(2, 3) by (intro exI conjI) (assumption | simp add: list_all_iff)+
qed

text \<open>A due timer whose callback always raises is never taken from the queue.\<close>

lemma raising_timer_never_ends:
  assumes "sorted (map fst (tm_queue m))" "x \<in> set (tm_queue m @ tm_new m)" "due now x" "snd x \<notin> set (tm_canceled m)"
    "\<And>k. raises (snd x) k"
  shows "service_timeouts raises now m = None"
proof -
  define q where "q = foldl (\<lambda>q t. heappush t q) (tm_queue m) (rev (tm_new m))"
  have q: "sorted (map fst q)" "mset q = mset (tm_queue m @ tm_new m)" using assms(1) by (simp_all add: q_def push_all)
  from assms(2-5) mset_eq_setD [OF q(2)] have "\<not> no_obstacle raises (tm_canceled m) now q" by (auto simp: no_obstacle_def)
  then have "service_loop raises (tm_canceled m) now q [] = None"
    using service_loop_ends [of raises "tm_canceled m" now q "[]"] q(1) by (cases "service_loop raises (tm_canceled m) now q []") auto
  then show ?thesis by (simp add: service_timeouts_def q_def [symmetric])
qed

text \<open>
  C28: when no callback raises, servicing the timers ends: it calls exactly the timers that are due
  and not canceled, each once, keeps the ones that are not due, and returns the end of the first
  of them. But when the callback of one due timer always raises, servicing the timers never ends,
  since that timer is not taken from the queue.
\<close>

theorem timers_serviced:
  assumes "sorted (map fst (tm_queue m))"
  shows "((\<forall>n k. \<not> raises n k) \<longrightarrow> (\<exists>calls m'. service_timeouts raises now m = Some (calls, next_timeout m', m')
      \<and> mset calls = {#snd t. t \<in># filter_mset (\<lambda>t. due now t \<and> snd t \<notin> set (tm_canceled m)) (mset (tm_queue m @ tm_new m))#}
      \<and> tm_new m' = [] \<and> sorted (map fst (tm_queue m')) \<and> list_all (\<lambda>t. \<not> due now t) (tm_queue m')
      \<and> {t \<in> set (tm_queue m @ tm_new m). \<not> due now t \<and> snd t \<notin> set (tm_canceled m)} \<subseteq> set (tm_queue m')))
    \<and> (\<forall>t \<in> set (tm_queue m @ tm_new m). due now t \<longrightarrow> snd t \<notin> set (tm_canceled m) \<longrightarrow> (\<forall>k. raises (snd t) k)
        \<longrightarrow> service_timeouts raises now m = None)"
proof (intro conjI impI ballI)
  fix t
  assume "t \<in> set (tm_queue m @ tm_new m)" "due now t" "snd t \<notin> set (tm_canceled m)" "\<forall>k. raises (snd t) k"
  with assms show "service_timeouts raises now m = None" by (auto intro: raising_timer_never_ends [of m t])
next
  assume "\<forall>n k. \<not> raises n k"
  then have nr: "\<And>n k. \<not> raises n k" by simp
  show "\<exists>calls m'. service_timeouts raises now m = Some (calls, next_timeout m', m')
      \<and> mset calls = {#snd t. t \<in># filter_mset (\<lambda>t. due now t \<and> snd t \<notin> set (tm_canceled m)) (mset (tm_queue m @ tm_new m))#}
      \<and> tm_new m' = [] \<and> sorted (map fst (tm_queue m')) \<and> list_all (\<lambda>t. \<not> due now t) (tm_queue m')
      \<and> {t \<in> set (tm_queue m @ tm_new m). \<not> due now t \<and> snd t \<notin> set (tm_canceled m)} \<subseteq> set (tm_queue m')"
    using service_no_raise [where raises = raises and now = now, OF assms nr] .
qed

definition example_timers :: manager where
  "example_timers = \<lparr>tm_queue = [(1, 10), (7, 11)], tm_new = [(3, 12), (2, 13)], tm_canceled = [13]\<rparr>"

theorem timers_serviced_witness:
  "\<exists>calls m'. service_timeouts (\<lambda>n k. False) 5 example_timers = Some (calls, next_timeout m', m') \<and> mset calls = {#10, 12#}"
proof -
  have "sorted (map fst (tm_queue example_timers))" by (simp add: example_timers_def)
  from timers_serviced [OF this, of "\<lambda>n k. False" 5] obtain calls m' where
    "service_timeouts (\<lambda>n k. False) 5 example_timers = Some (calls, next_timeout m', m')"
    "mset calls = {#snd t. t \<in># filter_mset (\<lambda>t. due 5 t \<and> snd t \<notin> set (tm_canceled example_timers))
       (mset (tm_queue example_timers @ tm_new example_timers))#}" by auto
  then show ?thesis by (simp add: example_timers_def due_def)
qed

section \<open>Waiting for several responses\<close>

datatype slot = Missing | Plain answer | Tagged bool answer

record waiter =
  w_pending :: int
  w_fail_on_error :: bool
  w_error :: "exn option"
  w_responses :: "slot list"
  w_event :: bool
  w_in_flight :: int

text \<open>\<open>w_in_flight\<close> is the counter of the connection that the waiter decreases.\<close>

definition waiter_init :: "int \<Rightarrow> nat \<Rightarrow> bool \<Rightarrow> waiter" where
  "waiter_init n num_responses fail_on_error = \<lparr>w_pending = int num_responses, w_fail_on_error = fail_on_error, w_error = None,
     w_responses = replicate num_responses Missing, w_event = False, w_in_flight = n\<rparr>"

text \<open>The messages of class \<open>ErrorMessage\<close> are exceptions, too.\<close>

definition exception_of :: "answer \<Rightarrow> exn option" where
  "exception_of ans =
     (case ans of
        Failure e \<Rightarrow> Some e
      | Message m \<Rightarrow> (case msg_body m of Error code msg info \<Rightarrow> Some (ErrorResponse (msg_body m)) | _ \<Rightarrow> None))"

definition got_response :: "answer \<Rightarrow> nat \<Rightarrow> waiter \<Rightarrow> waiter" where
  "got_response ans index w =
     (let w0 = w\<lparr>w_in_flight := w_in_flight w - 1\<rparr>;
          w1 = (case exception_of ans of
            Some e \<Rightarrow> if w_fail_on_error w then w0\<lparr>w_error := Some e, w_event := True\<rparr>
                      else w0\<lparr>w_responses := (w_responses w)[index := Tagged False (Failure e)]\<rparr>
          | None \<Rightarrow> w0\<lparr>w_responses := (w_responses w)[index := if w_fail_on_error w then Plain ans else Tagged True ans]\<rparr>);
          w2 = w1\<lparr>w_pending := w_pending w1 - 1\<rparr>
      in if w_pending w2 = 0 then w2\<lparr>w_event := True\<rparr> else w2)"

text \<open>What \<open>deliver\<close> does once the event is set or the time is over.\<close>

definition deliver :: "waiter \<Rightarrow> exn + slot list" where
  "deliver w = (case w_error w of
       Some e \<Rightarrow> Inl e
     | None \<Rightarrow> if \<not> w_event w then Inl OperationTimedOut else Inr (w_responses w))"

definition slot_of :: "bool \<Rightarrow> answer \<Rightarrow> slot" where
  "slot_of fail_on_error ans =
     (case exception_of ans of
        Some e \<Rightarrow> Tagged False (Failure e)
      | None \<Rightarrow> if fail_on_error then Plain ans else Tagged True ans)"

lemma got_response_ok:
  assumes "\<not> w_fail_on_error w \<or> exception_of ans = None"
  shows "got_response ans i w = w\<lparr>w_responses := (w_responses w)[i := slot_of (w_fail_on_error w) ans],
     w_pending := w_pending w - 1, w_event := w_event w \<or> w_pending w = 1, w_in_flight := w_in_flight w - 1\<rparr>"
  using assms by (cases w) (auto simp: got_response_def slot_of_def Let_def split: option.split)

lemma waiter_fold:
  assumes "\<forall>a \<in> set answers. \<not> w_fail_on_error w \<or> exception_of a = None" "set is \<subseteq> {..<length answers}"
    "length (w_responses w) = length answers"
  shows "let w' = fold (\<lambda>i. got_response (answers ! i) i) is w
    in w_error w' = w_error w \<and> w_fail_on_error w' = w_fail_on_error w \<and> w_pending w' = w_pending w - int (length is)
      \<and> w_in_flight w' = w_in_flight w - int (length is)
      \<and> w_event w' = (w_event w \<or> (1 \<le> w_pending w \<and> w_pending w \<le> int (length is)))
      \<and> length (w_responses w') = length answers
      \<and> (\<forall>j < length answers. w_responses w' ! j = (if j \<in> set is then slot_of (w_fail_on_error w) (answers ! j) else w_responses w ! j))"
  using assms
proof (induction "is" arbitrary: w)
  case (Cons i ys)
  let ?w = "got_response (answers ! i) i w"
  have "answers ! i \<in> set answers" using Cons.prems(2) by simp
  then have w: "?w = w\<lparr>w_responses := (w_responses w)[i := slot_of (w_fail_on_error w) (answers ! i)],
     w_pending := w_pending w - 1, w_event := w_event w \<or> w_pending w = 1, w_in_flight := w_in_flight w - 1\<rparr>"
    using Cons.prems(1) by (intro got_response_ok) auto
  have "let w' = fold (\<lambda>i. got_response (answers ! i) i) ys ?w
    in w_error w' = w_error ?w \<and> w_fail_on_error w' = w_fail_on_error ?w \<and> w_pending w' = w_pending ?w - int (length ys)
      \<and> w_in_flight w' = w_in_flight ?w - int (length ys)
      \<and> w_event w' = (w_event ?w \<or> (1 \<le> w_pending ?w \<and> w_pending ?w \<le> int (length ys)))
      \<and> length (w_responses w') = length answers
      \<and> (\<forall>j < length answers. w_responses w' ! j = (if j \<in> set ys then slot_of (w_fail_on_error ?w) (answers ! j) else w_responses ?w ! j))"
    using Cons.prems by (intro Cons.IH) (auto simp: w)
  then show ?case using Cons.prems(2, 3) by (auto simp: w Let_def nth_list_update)
qed auto

text \<open>
  Responses that come in any order are delivered in the order of the requests, and each gives back
  its place on the connection.
\<close>

lemma waiter_collects:
  assumes "\<not> fail \<or> (\<forall>a \<in> set answers. exception_of a = None)" "mset is = mset [0..<length answers]" "answers \<noteq> []"
  shows "deliver (fold (\<lambda>i. got_response (answers ! i) i) is (waiter_init n (length answers) fail)) = Inr (map (slot_of fail) answers)
    \<and> w_in_flight (fold (\<lambda>i. got_response (answers ! i) i) is (waiter_init n (length answers) fail)) = n - int (length answers)"
proof -
  have order: "set is = {..<length answers}" "length is = length answers"
    using mset_eq_setD [OF assms(2)] mset_eq_length [OF assms(2)] by (auto simp: atLeast0LessThan)
  let ?w = "fold (\<lambda>i. got_response (answers ! i) i) is (waiter_init n (length answers) fail)"
  have "w_error ?w = None \<and> w_in_flight ?w = n - int (length answers) \<and> w_event ?w \<and> length (w_responses ?w) = length answers
      \<and> (\<forall>j < length answers. w_responses ?w ! j = slot_of fail (answers ! j))"
    using waiter_fold [of answers "waiter_init n (length answers) fail" "is"] assms(1, 3) order
    by (auto simp: waiter_init_def Let_def Suc_le_eq)
  then show ?thesis by (auto simp: deliver_def intro: nth_equalityI)
qed

end
