(* ===== verification/Pool.thy ===== *)
theory Pool
  imports Connection_Users Policies
begin

text \<open>
  The pools of \<open>cassandra/pool.py\<close>: \<open>HostConnectionPool\<close>, with several connections to a host, and
  \<open>HostConnection\<close>, with one. Connections are objects, known by a number and kept in a store;
  what the pool does with one is an operation of \<open>Connection\<close>. Tasks for the executor, the calls
  of the callbacks of a connection and the report of a failed connection are actions; whether the
  report marks the host down is an argument (\<open>down\<close>), as is the time (\<open>now\<close>).
\<close>

section \<open>HostConnectionPool\<close>

record limits =
  core_conns :: nat
  max_conns :: nat
  min_reqs :: int
  max_reqs :: int

record pool =
  p_connections :: "nat list"
  p_trash :: "nat list"
  p_open_count :: int
  p_scheduled :: int
  p_shutdown :: bool
  p_next_trash :: rat
  p_store :: "nat \<Rightarrow> conn"
  p_signaled :: "nat list"
  p_keyspace :: "ptext option"

datatype task = CreateNewConnection | RetryingReplace

datatype pool_action = Submit task | SignalFailure nat | SignalRefused | OfConnection nat action | NotifyOne | NotifyAll

datatype pool_exn = PoolShutdown | NoConnectionsAvailable | OfConn exn

type_synonym 'a pop = "(pool, pool_action, pool_exn, 'a) op"

definition MAX_SIMULTANEOUS_CREATION :: int where
  "MAX_SIMULTANEOUS_CREATION = 1"

definition MIN_TRASH_INTERVAL :: rat where
  "MIN_TRASH_INTERVAL = 10"

definition pool_init :: "limits \<Rightarrow> rat \<Rightarrow> (nat \<Rightarrow> conn) \<Rightarrow> ptext option \<Rightarrow> pool" where
  "pool_init cfg now store ks = \<lparr>p_connections = [0..<core_conns cfg], p_trash = [], p_open_count = int (core_conns cfg),
     p_scheduled = 0, p_shutdown = False, p_next_trash = now, p_store = store, p_signaled = [], p_keyspace = ks\<rparr>"

text \<open>An operation on one connection.\<close>

definition on_conn :: "nat \<Rightarrow> 'a cop \<Rightarrow> 'a pop" where
  "on_conn i m p =
     (case m (p_store p i) of (r, out, c) \<Rightarrow>
        (case r of Inl e \<Rightarrow> Inl (OfConn e) | Inr x \<Rightarrow> Inr x, map (OfConnection i) out, p\<lparr>p_store := (p_store p)(i := c)\<rparr>))"

definition least_busy :: "(nat \<Rightarrow> conn) \<Rightarrow> nat \<Rightarrow> nat list \<Rightarrow> nat" where
  "least_busy store i conns = foldl (\<lambda>a b. if in_flight (store b) < in_flight (store a) then b else a) i conns"

text \<open>With the lock of the connection: a stream id, when there is room.\<close>

definition take_id :: "(conn \<Rightarrow> bool) \<Rightarrow> int option cop" where
  "take_id room = op_bind (op_read room) (\<lambda>ok.
     if ok then op_then (op_modify (\<lambda>c. c\<lparr>in_flight := in_flight c + 1\<rparr>)) (op_bind get_request_id (\<lambda>n. op_return (Some n)))
     else op_return None)"

definition pool_room :: "conn \<Rightarrow> bool" where
  "pool_room c \<longleftrightarrow> in_flight c < max_request_id c"

definition maybe_spawn_new_connection :: "limits \<Rightarrow> unit pop" where
  "maybe_spawn_new_connection cfg = op_bind (op_read (\<lambda>p. p_scheduled p \<ge> MAX_SIMULTANEOUS_CREATION \<or> p_open_count p \<ge> int (max_conns cfg)))
     (\<lambda>enough. op_when (\<not> enough)
        (op_then (op_modify (\<lambda>p. p\<lparr>p_scheduled := p_scheduled p + 1\<rparr>)) (op_emit [Submit CreateNewConnection])))"

definition spawn_if_busy :: "limits \<Rightarrow> nat \<Rightarrow> unit pop" where
  "spawn_if_busy cfg i =
     op_bind (op_read (\<lambda>p. in_flight (p_store p i) \<ge> max_reqs cfg \<and> length (p_connections p) < max_conns cfg))
       (\<lambda>busy. op_when busy (maybe_spawn_new_connection cfg))"

definition ensure_core :: "limits \<Rightarrow> unit pop" where
  "ensure_core cfg =
     op_bind (op_read (\<lambda>p. int (core_conns cfg) - (int (length (p_connections p)) + p_scheduled p))) (\<lambda>to_create.
     op_then (op_modify (\<lambda>p. p\<lparr>p_scheduled := p_scheduled p + max 0 to_create\<rparr>))
       (op_emit (replicate (nat to_create) (Submit CreateNewConnection))))"

definition ensure_core_connections :: "limits \<Rightarrow> unit pop" where
  "ensure_core_connections cfg = op_bind (op_read p_shutdown) (\<lambda>down. op_when (\<not> down) (ensure_core cfg))"

text \<open>
  \<open>borrow_connection\<close> up to where it waits (\<open>None\<close>), and what it does each time it is woken: another
  attempt, of which the first that succeeds is the result. \<open>was_empty\<close>: it waits because there
  was no connection.
\<close>

definition borrow_connection :: "limits \<Rightarrow> (nat \<times> int) option pop" where
  "borrow_connection cfg = op_bind (op_read (\<lambda>p. (p_shutdown p, p_connections p, p_store p))) (\<lambda>(down, conns, store).
     if down then op_raise PoolShutdown
     else case conns of
       [] \<Rightarrow> op_then (ensure_core cfg) (op_return None)
     | i # is \<Rightarrow>
         let lb = least_busy store i is
         in op_bind (on_conn lb (take_id pool_room)) (\<lambda>r.
            case r of
              None \<Rightarrow> op_return None
            | Some n \<Rightarrow> op_then (spawn_if_busy cfg lb) (op_return (Some (lb, n)))))"

definition wait_for_conn :: "limits \<Rightarrow> bool \<Rightarrow> (nat \<times> int) option pop" where
  "wait_for_conn cfg was_empty = op_bind (op_read (\<lambda>p. (p_shutdown p, p_connections p, p_store p))) (\<lambda>(down, conns, store).
     if down then op_raise PoolShutdown
     else case conns of
       [] \<Rightarrow> op_return None
     | i # is \<Rightarrow>
         let lb = least_busy store i is
         in op_bind (on_conn lb (take_id pool_room)) (\<lambda>r.
            case r of
              None \<Rightarrow> op_return None
            | Some n \<Rightarrow> op_then (op_when (\<not> was_empty) (spawn_if_busy cfg lb)) (op_return (Some (lb, n)))))"

section \<open>Opening connections\<close>

text \<open>
  \<open>_add_conn_if_under_max\<close> in two steps, since it opens the connection without the lock: whether
  to open one, and what came of it.
\<close>

definition add_begin :: "limits \<Rightarrow> bool pop" where
  "add_begin cfg = op_bind (op_read (\<lambda>p. p_shutdown p \<or> p_open_count p \<ge> int (max_conns cfg))) (\<lambda>enough.
     if enough then op_return False
     else op_then (op_modify (\<lambda>p. p\<lparr>p_open_count := p_open_count p + 1\<rparr>)) (op_return True))"

datatype opened = Opened nat conn | Refused | NotAuthenticated | OtherException exn

definition close_all :: "unit pop" where
  "close_all = op_bind (op_read (\<lambda>p. (p_connections p, p_trash p))) (\<lambda>(conns, trash).
     op_then (op_each (\<lambda>i. op_then (on_conn i close) (op_modify (\<lambda>p. p\<lparr>p_open_count := p_open_count p - 1\<rparr>))) conns)
       (op_each (\<lambda>i. on_conn i close) trash))"

definition shutdown :: "unit pop" where
  "shutdown = op_bind (op_read p_shutdown) (\<lambda>down. op_when (\<not> down)
     (op_then (op_modify (\<lambda>p. p\<lparr>p_shutdown := True\<rparr>)) (op_then (op_emit [NotifyAll]) close_all)))"

definition add_end :: "rat \<Rightarrow> bool \<Rightarrow> opened \<Rightarrow> bool pop" where
  "add_end now down r =
     (case r of
        Opened i c \<Rightarrow>
          op_then (op_modify (\<lambda>p. p\<lparr>p_store := (p_store p)(i := c), p_next_trash := now + MIN_TRASH_INTERVAL,
             p_connections := p_connections p @ [i]\<rparr>))
            (op_then (op_emit [NotifyOne]) (op_return True))
      | Refused \<Rightarrow>
          op_then (op_modify (\<lambda>p. p\<lparr>p_open_count := p_open_count p - 1\<rparr>))
            (op_then (op_emit [SignalRefused]) (op_then (op_when down shutdown) (op_return False)))
      | NotAuthenticated \<Rightarrow> op_then (op_modify (\<lambda>p. p\<lparr>p_open_count := p_open_count p - 1\<rparr>)) (op_return False)
      | OtherException e \<Rightarrow> op_raise (OfConn e))"

text \<open>The tasks, after \<open>add_begin\<close> said whether a connection is opened (\<open>Some\<close>: what came of it).\<close>

definition add_rest :: "rat \<Rightarrow> bool \<Rightarrow> opened option \<Rightarrow> bool pop" where
  "add_rest now down r = (case r of None \<Rightarrow> op_return True | Some x \<Rightarrow> add_end now down x)"

definition create_new_connection :: "rat \<Rightarrow> bool \<Rightarrow> opened option \<Rightarrow> unit pop" where
  "create_new_connection now down r =
     op_then (op_catch (op_then (add_rest now down r) (op_return ())) (\<lambda>e. op_return ()))
       (op_modify (\<lambda>p. p\<lparr>p_scheduled := p_scheduled p - 1\<rparr>))"

definition retrying_replace :: "rat \<Rightarrow> bool \<Rightarrow> opened option \<Rightarrow> unit pop" where
  "retrying_replace now down r =
     op_bind (op_catch (add_rest now down r) (\<lambda>e. op_return False)) (\<lambda>replaced.
       op_when (\<not> replaced) (op_emit [Submit RetryingReplace]))"

section \<open>Returning connections\<close>

definition replace :: "nat \<Rightarrow> unit pop" where
  "replace i = op_bind (op_read (\<lambda>p. i \<in> set (p_connections p))) (\<lambda>should_replace.
     op_then (op_when should_replace
         (op_modify (\<lambda>p. p\<lparr>p_connections := remove1 i (p_connections p), p_open_count := p_open_count p - 1\<rparr>)))
       (op_then (on_conn i close) (op_when should_replace (op_emit [Submit RetryingReplace]))))"

definition maybe_trash_connection :: "limits \<Rightarrow> rat \<Rightarrow> nat \<Rightarrow> unit pop" where
  "maybe_trash_connection cfg now i =
     op_bind (op_read (\<lambda>p. i \<in> set (p_connections p) \<and> p_open_count p > int (core_conns cfg))) (\<lambda>do_trash.
     op_when do_trash
       (op_then (op_modify (\<lambda>p. p\<lparr>p_open_count := p_open_count p - 1, p_connections := remove1 i (p_connections p)\<rparr>))
       (op_bind (op_read (\<lambda>p. in_flight (p_store p i) = 0)) (\<lambda>unused.
          if unused then on_conn i close
          else op_modify (\<lambda>p. p\<lparr>p_trash := List.insert i (p_trash p), p_next_trash := now + MIN_TRASH_INTERVAL\<rparr>)))))"

definition return_failed :: "bool \<Rightarrow> nat \<Rightarrow> unit pop" where
  "return_failed down i = op_bind (op_read (\<lambda>p. i \<in> set (p_signaled p))) (\<lambda>signaled.
     op_when (\<not> signaled)
       (op_then (op_emit [SignalFailure i])
       (op_then (op_modify (\<lambda>p. p\<lparr>p_signaled := i # p_signaled p\<rparr>)) (if down then shutdown else replace i))))"

definition return_trashed :: "nat \<Rightarrow> unit pop" where
  "return_trashed i = op_bind (op_read (\<lambda>p. in_flight (p_store p i) = 0)) (\<lambda>unused.
     op_when unused (op_then (op_modify (\<lambda>p. p\<lparr>p_trash := removeAll i (p_trash p)\<rparr>)) (on_conn i close)))"

definition return_connection :: "limits \<Rightarrow> rat \<Rightarrow> bool \<Rightarrow> nat \<Rightarrow> unit pop" where
  "return_connection cfg now down i =
     op_then (on_conn i (op_modify (\<lambda>c. c\<lparr>in_flight := in_flight c - 1\<rparr>)))
       (op_bind (op_read (\<lambda>p. (dead (p_store p i), i \<in> set (p_trash p)))) (\<lambda>(failed, trashed).
          if failed then return_failed down i
          else if trashed then return_trashed i
          else op_bind (op_read (\<lambda>p. length (p_connections p) > core_conns cfg \<and> in_flight (p_store p i) \<le> min_reqs cfg
                 \<and> now \<ge> p_next_trash p)) (\<lambda>spare.
            if spare then maybe_trash_connection cfg now i else op_emit [NotifyOne])))"

text \<open>
  \<open>_set_keyspace_for_all_conns\<close>: \<open>True\<close> when there was nothing to wait for; the callback of each
  connection gets the number \<open>tok\<close>.
\<close>

definition set_keyspace_for_all_conns :: "ptext option \<Rightarrow> nat \<Rightarrow> bool pop" where
  "set_keyspace_for_all_conns ks tok = op_bind (op_read p_connections) (\<lambda>conns.
     if conns = [] then op_return True
     else op_then (op_modify (\<lambda>p. p\<lparr>p_keyspace := ks\<rparr>))
       (op_then (op_each (\<lambda>i. op_then (on_conn i (set_keyspace_async ks tok)) (op_return ())) conns) (op_return False)))"

section \<open>The number of open connections\<close>

text \<open>
  While a pool is not shut down, \<open>open_count\<close> counts the connections of the pool and \<open>extra\<close>, the
  ones being opened and the ones lost.
\<close>

definition pool_inv :: "limits \<Rightarrow> nat \<Rightarrow> pool \<Rightarrow> pool_action list \<Rightarrow> bool" where
  "pool_inv cfg extra p out \<longleftrightarrow> p_shutdown p \<or>
     p_open_count p = int (length (p_connections p) + extra)
     \<and> p_open_count p \<le> int (max (core_conns cfg) (max_conns cfg))
     \<and> distinct (p_connections p) \<and> set (p_connections p) \<inter> set (p_trash p) = {}"

lemma pool_inv_cosmetic:
  "p_connections p' = p_connections p \<Longrightarrow> p_trash p' = p_trash p \<Longrightarrow> p_open_count p' = p_open_count p
    \<Longrightarrow> p_shutdown p' = p_shutdown p \<Longrightarrow> pool_inv cfg k p out \<Longrightarrow> pool_inv cfg k p' out'"
  by (simp add: pool_inv_def)

lemma on_conn_inv: "keeps (pool_inv cfg k) (on_conn i m)"
  by (auto simp: triple_def on_conn_def pool_inv_def split: prod.splits)

lemma on_conn_down: "keeps (\<lambda>p out. p_shutdown p) (on_conn i m)"
  by (auto simp: triple_def on_conn_def split: prod.splits)

lemma pool_emit: "keeps (pool_inv cfg k) (op_emit out')"
  by (rule keeps_emit) (simp add: pool_inv_def)

lemma pool_modify:
  "(\<And>p. p_connections (f p) = p_connections p \<and> p_trash (f p) = p_trash p \<and> p_open_count (f p) = p_open_count p
      \<and> p_shutdown (f p) = p_shutdown p) \<Longrightarrow> keeps (pool_inv cfg k) (op_modify f)"
  by (rule keeps_modify) (metis pool_inv_cosmetic)

lemma shutdown_down: "triple P shutdown (\<lambda>_ p out. p_shutdown p)"
proof -
  have "keeps (\<lambda>p out. p_shutdown p) (op_then (op_emit [NotifyAll]) close_all)"
    by (auto simp: close_all_def intro!: triples on_conn_down keeps_modify keeps_emit)
  then have "triple Q (op_then (op_modify (\<lambda>p. p\<lparr>p_shutdown := True\<rparr>)) (op_then (op_emit [NotifyAll]) close_all)) (\<lambda>_ p out. p_shutdown p)" for Q
    by (rule triple_modify_then [rotated]) simp
  then show ?thesis
    unfolding shutdown_def by (intro triple_read triple_when) auto
qed

lemma pool_shutdown_inv: "keeps (pool_inv cfg k) shutdown"
  using shutdown_down by (rule triple_weaken) (simp_all add: pool_inv_def)

lemma spawn_inv: "keeps (pool_inv cfg k) (spawn_if_busy cfg' i)"
  unfolding spawn_if_busy_def maybe_spawn_new_connection_def
  by (intro triples pool_modify pool_emit) simp

lemma ensure_core_inv: "keeps (pool_inv cfg k) (ensure_core cfg')"
  unfolding ensure_core_def by (intro triples pool_modify pool_emit) simp

lemma pool_borrow_inv:
  "keeps (pool_inv cfg k) (borrow_connection cfg')" "keeps (pool_inv cfg k) (wait_for_conn cfg' e)"
  by (auto simp: borrow_connection_def wait_for_conn_def Let_def
      intro!: triples ensure_core_inv on_conn_inv spawn_inv split: list.split option.split)

lemma add_begin_inv:
  "triple (pool_inv cfg k) (add_begin cfg) (\<lambda>r. if r = Inr True then pool_inv cfg (Suc k) else pool_inv cfg k)"
  by (auto simp: triple_def add_begin_def op_defs pool_inv_def)

definition fresh :: "opened \<Rightarrow> pool \<Rightarrow> bool" where
  "fresh r p \<longleftrightarrow> (case r of Opened i c \<Rightarrow> i \<notin> set (p_connections p) \<union> set (p_trash p) | _ \<Rightarrow> True)"

definition lost_by :: "opened \<Rightarrow> nat" where
  "lost_by r = (case r of OtherException e \<Rightarrow> 1 | _ \<Rightarrow> 0)"

lemma add_end_inv:
  "triple (\<lambda>p out. pool_inv cfg (Suc k) p out \<and> fresh r p) (add_end now down r) (\<lambda>_. pool_inv cfg (k + lost_by r))"
proof (cases r)
  case (Opened i c)
  then show ?thesis by (auto simp: triple_def add_end_def op_defs pool_inv_def fresh_def lost_by_def)
next
  case Refused
  have "keeps (pool_inv cfg k) (op_then (op_emit [SignalRefused]) (op_then (op_when down shutdown) (op_return False)))"
    by (intro triples pool_emit pool_shutdown_inv)
  then show ?thesis
    unfolding Refused add_end_def lost_by_def
    by (simp, rule triple_modify_then [rotated]) (auto simp: pool_inv_def)
next
  case NotAuthenticated
  then show ?thesis by (auto simp: triple_def add_end_def op_defs pool_inv_def lost_by_def)
next
  case (OtherException e)
  then show ?thesis by (auto simp: triple_def add_end_def op_defs lost_by_def)
qed

lemma add_rest_inv:
  "triple (\<lambda>p out. pool_inv cfg (Suc k) p out \<and> fresh r p) (add_rest now down (Some r)) (\<lambda>_. pool_inv cfg (k + lost_by r))"
  "keeps (pool_inv cfg k) (add_rest now down None)"
  by (simp_all add: add_rest_def add_end_inv keeps_return)

lemma create_inv:
  "triple (\<lambda>p out. pool_inv cfg (Suc k) p out \<and> fresh r p) (create_new_connection now down (Some r)) (\<lambda>_. pool_inv cfg (k + lost_by r))"
  "keeps (pool_inv cfg k) (create_new_connection now down None)"
proof -
  have after: "keeps (pool_inv cfg k) (op_modify (\<lambda>p. p\<lparr>p_scheduled := p_scheduled p - 1\<rparr>))" for k
    by (rule pool_modify) simp
  show "keeps (pool_inv cfg k) (create_new_connection now down None)"
    unfolding create_new_connection_def by (intro triples add_rest_inv after)
  have "triple (\<lambda>p out. pool_inv cfg (Suc k) p out \<and> fresh r p) (op_then (add_rest now down (Some r)) (op_return ()))
      (\<lambda>_. pool_inv cfg (k + lost_by r))"
    by (rule triple_then [OF add_rest_inv(1) keeps_return])
  then have "triple (\<lambda>p out. pool_inv cfg (Suc k) p out \<and> fresh r p)
      (op_catch (op_then (add_rest now down (Some r)) (op_return ())) (\<lambda>e. op_return ())) (\<lambda>_. pool_inv cfg (k + lost_by r))"
    by (rule triple_catch) (auto intro: keeps_return)
  then show "triple (\<lambda>p out. pool_inv cfg (Suc k) p out \<and> fresh r p) (create_new_connection now down (Some r)) (\<lambda>_. pool_inv cfg (k + lost_by r))"
    unfolding create_new_connection_def by (rule triple_then [OF _ after])
qed

lemma retry_inv:
  "triple (\<lambda>p out. pool_inv cfg (Suc k) p out \<and> fresh r p) (retrying_replace now down (Some r)) (\<lambda>_. pool_inv cfg (k + lost_by r))"
  "keeps (pool_inv cfg k) (retrying_replace now down None)"
proof -
  show "keeps (pool_inv cfg k) (retrying_replace now down None)"
    unfolding retrying_replace_def by (intro triples add_rest_inv pool_emit)
  have "triple (\<lambda>p out. pool_inv cfg (Suc k) p out \<and> fresh r p)
      (op_catch (add_rest now down (Some r)) (\<lambda>e. op_return False)) (\<lambda>_. pool_inv cfg (k + lost_by r))"
    by (rule triple_catch [OF add_rest_inv(1)]) (auto intro: keeps_return)
  then show "triple (\<lambda>p out. pool_inv cfg (Suc k) p out \<and> fresh r p) (retrying_replace now down (Some r)) (\<lambda>_. pool_inv cfg (k + lost_by r))"
    unfolding retrying_replace_def by (rule triple_bind) (auto intro: triples pool_emit)
qed

text \<open>A connection leaves the pool.\<close>

lemma leave_inv:
  assumes "i \<in> set (p_connections p)" "pool_inv cfg k p out"
  shows "pool_inv cfg k (p\<lparr>p_connections := remove1 i (p_connections p), p_open_count := p_open_count p - 1\<rparr>) out"
proof -
  have "length (p_connections p) = Suc (length (remove1 i (p_connections p)))"
    using assms(1) length_pos_if_in_set [OF assms(1)] by (simp add: length_remove1)
  moreover have "set (remove1 i (p_connections p)) \<subseteq> set (p_connections p)" by (rule set_remove1_subset)
  ultimately show ?thesis using assms(2) by (auto simp: pool_inv_def)
qed

lemma replace_inv: "keeps (pool_inv cfg k) (replace i)"
  unfolding replace_def
proof (rule triple_read)
  fix b
  have "triple (\<lambda>p out. pool_inv cfg k p out \<and> (i \<in> set (p_connections p)) = b)
      (op_when b (op_modify (\<lambda>p. p\<lparr>p_connections := remove1 i (p_connections p), p_open_count := p_open_count p - 1\<rparr>)))
      (\<lambda>_. pool_inv cfg k)"
    by (rule triple_when) (auto intro!: triple_modify leave_inv)
  moreover have "keeps (pool_inv cfg k) (op_then (on_conn i close) (op_when b (op_emit [Submit RetryingReplace])))"
    by (intro triples on_conn_inv pool_emit)
  ultimately show "triple (\<lambda>p out. pool_inv cfg k p out \<and> (i \<in> set (p_connections p)) = b)
      (op_then (op_when b (op_modify (\<lambda>p. p\<lparr>p_connections := remove1 i (p_connections p), p_open_count := p_open_count p - 1\<rparr>)))
        (op_then (on_conn i close) (op_when b (op_emit [Submit RetryingReplace])))) (\<lambda>_. pool_inv cfg k)"
    by (rule triple_then)
qed

lemma trash_inv: "keeps (pool_inv cfg k) (maybe_trash_connection cfg' now i)"
  unfolding maybe_trash_connection_def
proof (rule triple_read, rule triple_when)
  fix b assume b
  let ?left = "\<lambda>p out. pool_inv cfg k p out \<and> (p_shutdown p \<or> i \<notin> set (p_connections p))"
  have keep: "keeps ?left (on_conn i m)" for m :: "unit cop"
    by (auto simp: triple_def on_conn_def pool_inv_def split: prod.splits)
  have "triple ?left (op_modify (\<lambda>p. p\<lparr>p_trash := List.insert i (p_trash p), p_next_trash := now + MIN_TRASH_INTERVAL\<rparr>))
      (\<lambda>_. pool_inv cfg k)"
    by (rule triple_modify) (auto simp: pool_inv_def)
  moreover have "triple ?left (on_conn i close) (\<lambda>_. pool_inv cfg k)"
    using keep by (rule triple_weaken) simp_all
  ultimately have rest: "triple ?left (op_bind (op_read (\<lambda>p. in_flight (p_store p i) = 0)) (\<lambda>unused.
      if unused then on_conn i close
      else op_modify (\<lambda>p. p\<lparr>p_trash := List.insert i (p_trash p), p_next_trash := now + MIN_TRASH_INTERVAL\<rparr>))) (\<lambda>_. pool_inv cfg k)"
    by (intro triple_read triple_if) (auto intro: triple_pre)
  show "triple (\<lambda>p out. pool_inv cfg k p out \<and> (i \<in> set (p_connections p) \<and> int (core_conns cfg') < p_open_count p) = b)
      (op_then (op_modify (\<lambda>p. p\<lparr>p_open_count := p_open_count p - 1, p_connections := remove1 i (p_connections p)\<rparr>))
        (op_bind (op_read (\<lambda>p. in_flight (p_store p i) = 0)) (\<lambda>unused.
          if unused then on_conn i close
          else op_modify (\<lambda>p. p\<lparr>p_trash := List.insert i (p_trash p), p_next_trash := now + MIN_TRASH_INTERVAL\<rparr>)))) (\<lambda>_. pool_inv cfg k)"
  proof (rule triple_modify_then [OF _ rest])
    fix p out
    assume *: "pool_inv cfg k p out \<and> (i \<in> set (p_connections p) \<and> int (core_conns cfg') < p_open_count p) = b"
    with \<open>b\<close> leave_inv [of i p cfg k out]
    show "pool_inv cfg k (p\<lparr>p_open_count := p_open_count p - 1, p_connections := remove1 i (p_connections p)\<rparr>) out
      \<and> (p_shutdown (p\<lparr>p_open_count := p_open_count p - 1, p_connections := remove1 i (p_connections p)\<rparr>)
        \<or> i \<notin> set (p_connections (p\<lparr>p_open_count := p_open_count p - 1, p_connections := remove1 i (p_connections p)\<rparr>)))"
      by (auto simp: pool_inv_def)
  qed
qed simp

lemma return_inv: "keeps (pool_inv cfg k) (return_connection cfg' now down i)"
proof -
  have "keeps (pool_inv cfg k) (return_failed down i)"
    unfolding return_failed_def by (intro triples pool_emit pool_modify pool_shutdown_inv replace_inv) simp
  moreover have "keeps (pool_inv cfg k) (op_modify (\<lambda>p. p\<lparr>p_trash := removeAll i (p_trash p)\<rparr>))"
    by (rule keeps_modify) (auto simp: pool_inv_def)
  then have "keeps (pool_inv cfg k) (return_trashed i)"
    unfolding return_trashed_def by (intro triples on_conn_inv)
  ultimately show ?thesis
    unfolding return_connection_def
    by (auto intro!: triples on_conn_inv trash_inv pool_emit)
qed

lemma set_keyspace_inv: "keeps (pool_inv cfg k) (set_keyspace_for_all_conns ks tok)"
  unfolding set_keyspace_for_all_conns_def
  by (intro triples on_conn_inv keeps_modify) (simp add: pool_inv_def)

section \<open>A pool and its users\<close>

text \<open>
  The steps of the threads that use a pool, in any order. \<open>attempts\<close> counts the threads between
  \<open>add_begin\<close> and the rest of their task; \<open>lost\<close> counts the tasks that ended with an exception the
  pool does not expect.
\<close>

record pool_sys =
  pl :: pool
  attempts :: nat
  lost :: nat

inductive pool_step :: "limits \<Rightarrow> pool_sys \<Rightarrow> pool_sys \<Rightarrow> bool" for cfg where
  borrow: "borrow_connection cfg (pl s) = (r, out, p) \<Longrightarrow> pool_step cfg s (s\<lparr>pl := p\<rparr>)"
| wake: "wait_for_conn cfg e (pl s) = (r, out, p) \<Longrightarrow> pool_step cfg s (s\<lparr>pl := p\<rparr>)"
| give_back: "return_connection cfg now down i (pl s) = (u, out, p) \<Longrightarrow> pool_step cfg s (s\<lparr>pl := p\<rparr>)"
| start_open: "add_begin cfg (pl s) = (Inr True, out, p) \<Longrightarrow> pool_step cfg s (s\<lparr>pl := p, attempts := attempts s + 1\<rparr>)"
| skip_open: "add_begin cfg (pl s) = (Inr False, out, p) \<Longrightarrow> m \<in> {create_new_connection now down, retrying_replace now down}
    \<Longrightarrow> m None p = (u, out', p') \<Longrightarrow> pool_step cfg s (s\<lparr>pl := p'\<rparr>)"
| end_open: "attempts s = Suc k \<Longrightarrow> fresh r' (pl s) \<Longrightarrow> m \<in> {create_new_connection now down, retrying_replace now down}
    \<Longrightarrow> m (Some r') (pl s) = (u, out, p) \<Longrightarrow> pool_step cfg s (s\<lparr>pl := p, attempts := k, lost := lost s + lost_by r'\<rparr>)"
| ensure: "ensure_core_connections cfg (pl s) = (u, out, p) \<Longrightarrow> pool_step cfg s (s\<lparr>pl := p\<rparr>)"
| keyspace: "set_keyspace_for_all_conns ks tok (pl s) = (b, out, p) \<Longrightarrow> pool_step cfg s (s\<lparr>pl := p\<rparr>)"
| shut: "shutdown (pl s) = (u, out, p) \<Longrightarrow> pool_step cfg s (s\<lparr>pl := p\<rparr>)"
| activity: "on_conn i (m' :: unit cop) (pl s) = (v, out, p) \<Longrightarrow> pool_step cfg s (s\<lparr>pl := p\<rparr>)"

inductive pool_reachable :: "limits \<Rightarrow> pool_sys \<Rightarrow> bool" for cfg where
  start: "pool_reachable cfg \<lparr>pl = pool_init cfg now store ks, attempts = 0, lost = 0\<rparr>"
| step: "pool_reachable cfg s \<Longrightarrow> pool_step cfg s s' \<Longrightarrow> pool_reachable cfg s'"

lemma task_inv:
  assumes "m \<in> {create_new_connection now down, retrying_replace now down}"
  shows "keeps (pool_inv cfg k) (m None)"
    "triple (\<lambda>p out. pool_inv cfg (Suc k) p out \<and> fresh r p) (m (Some r)) (\<lambda>_. pool_inv cfg (k + lost_by r))"
  using assms create_inv retry_inv by auto

lemma pool_step_inv:
  assumes "pool_step cfg s s'" "pool_inv cfg (attempts s + lost s) (pl s) []"
  shows "pool_inv cfg (attempts s' + lost s') (pl s') []"
proof -
  have inv: "pool_inv cfg k p out \<Longrightarrow> pool_inv cfg k p []" for k p out by (simp add: pool_inv_def)
  show ?thesis
    using assms(1)
  proof cases
    case (start_open out p)
    from tripleD [OF add_begin_inv assms(2) start_open(2)] start_open(1) show ?thesis by (auto intro: inv)
  next
    case (skip_open out p m now down u out' p')
    from tripleD [OF add_begin_inv assms(2) skip_open(2)] have "pool_inv cfg (attempts s + lost s) p []" by (auto intro: inv)
    from keeps_run [OF task_inv(1) [OF skip_open(3)] this skip_open(4)] skip_open(1) show ?thesis by (auto intro: inv)
  next
    case (end_open k r m now down u out p)
    have pre: "pool_inv cfg (Suc (k + lost s)) (pl s) [] \<and> fresh r (pl s)" using assms(2) end_open(2, 3) by simp
    from tripleD [OF task_inv(2) [OF end_open(4)] pre end_open(5)]
    have "pool_inv cfg (k + lost s + lost_by r) p []" by (rule inv)
    with end_open(1) show ?thesis by (simp add: add.assoc)
  next
    case (ensure u out p)
    have "keeps (pool_inv cfg k) (ensure_core_connections cfg)" for k
      unfolding ensure_core_connections_def by (intro triples ensure_core_inv)
    from keeps_run [OF this assms(2) ensure(2)] ensure(1) show ?thesis by (auto intro: inv)
  next
    case (borrow r out p)
    with keeps_run [OF pool_borrow_inv(1) assms(2) borrow(2)] show ?thesis by (auto intro: inv)
  next
    case (wake e r out p)
    with keeps_run [OF pool_borrow_inv(2) assms(2) wake(2)] show ?thesis by (auto intro: inv)
  next
    case (give_back now down i u out p)
    with keeps_run [OF return_inv assms(2) give_back(2)] show ?thesis by (auto intro: inv)
  next
    case (keyspace ks tok b out p)
    with keeps_run [OF set_keyspace_inv assms(2) keyspace(2)] show ?thesis by (auto intro: inv)
  next
    case (shut u out p)
    with keeps_run [OF pool_shutdown_inv assms(2) shut(2)] show ?thesis by (auto intro: inv)
  next
    case (activity i m v out p)
    with keeps_run [OF on_conn_inv assms(2) activity(2)] show ?thesis by (auto intro: inv)
  qed
qed

lemma pool_reachable_inv: "pool_reachable cfg s \<Longrightarrow> pool_inv cfg (attempts s + lost s) (pl s) []"
proof (induction rule: pool_reachable.induct)
  case (start now store)
  then show ?case by (simp add: pool_inv_def pool_init_def)
qed (rule pool_step_inv)

text \<open>
  C12: as long as a pool is not shut down, \<open>open_count\<close> is the number of its connections, of the
  connections that are being opened, and of the attempts that failed with an unexpected
  exception; connections and attempts together never exceed the larger of the two limits of the
  pool, no connection is in the pool twice, and none is in the pool and in the trash.
\<close>

theorem pool_bounded:
  assumes "pool_reachable cfg s"
  shows "p_shutdown (pl s) \<or>
    (p_open_count (pl s) = int (length (p_connections (pl s)) + attempts s + lost s)
     \<and> length (p_connections (pl s)) + attempts s \<le> max (core_conns cfg) (max_conns cfg)
     \<and> distinct (p_connections (pl s)) \<and> set (p_connections (pl s)) \<inter> set (p_trash (pl s)) = {})"
  using pool_reachable_inv [OF assms] by (auto simp: pool_inv_def add.assoc)

definition example_limits :: limits where
  "example_limits = \<lparr>core_conns = 1, max_conns = 2, min_reqs = 5, max_reqs = 100\<rparr>"

definition example_pool :: pool where
  "example_pool = pool_init example_limits 0 (\<lambda>_. example_conn 1) None"

theorem pool_bounded_witness:
  "p_open_count (example_pool\<lparr>p_open_count := 2\<rparr>) = int (length (p_connections example_pool) + 1)
   \<and> length (p_connections example_pool) + 1 \<le> 2"
proof -
  have "add_begin example_limits example_pool = (Inr True, [], example_pool\<lparr>p_open_count := 2\<rparr>)"
    by (simp add: add_begin_def op_defs example_pool_def pool_init_def example_limits_def)
  then have "pool_step example_limits \<lparr>pl = example_pool, attempts = 0, lost = 0\<rparr>
      \<lparr>pl = example_pool\<lparr>p_open_count := 2\<rparr>, attempts = 1, lost = 0\<rparr>"
    using pool_step.start_open [of example_limits "\<lparr>pl = example_pool, attempts = 0, lost = 0\<rparr>"] by simp
  then have "pool_reachable example_limits \<lparr>pl = example_pool\<lparr>p_open_count := 2\<rparr>, attempts = 1, lost = 0\<rparr>"
    using pool_reachable.step pool_reachable.start [of example_limits 0 "\<lambda>_. example_conn 1" None] by (metis example_pool_def)
  from pool_bounded [OF this] show ?thesis by (simp add: example_pool_def pool_init_def example_limits_def)
qed

text \<open>
  Replacing a connection when opening one fails with an exception that is neither a connection
  exception nor a socket error, such as \<open>OperationTimedOut\<close>: the attempts until the pool gives up.
\<close>

fun failing_attempts :: "limits \<Rightarrow> exn \<Rightarrow> nat \<Rightarrow> unit pop" where
  "failing_attempts cfg e 0 = op_return ()"
| "failing_attempts cfg e (Suc n) = op_then (op_bind (add_begin cfg) (\<lambda>go.
     if go then retrying_replace 0 False (Some (OtherException e)) else retrying_replace 0 False None))
     (failing_attempts cfg e n)"

lemma failing_attempts_run:
  "\<not> p_shutdown p \<Longrightarrow> p_open_count p + int n \<le> int (max_conns cfg)
    \<Longrightarrow> failing_attempts cfg e n p = (Inr (), replicate n (Submit RetryingReplace), p\<lparr>p_open_count := p_open_count p + int n\<rparr>)"
proof (induction n arbitrary: p)
  case (Suc n)
  have IH: "failing_attempts cfg e n (p\<lparr>p_open_count := p_open_count p + 1\<rparr>)
      = (Inr (), replicate n (Submit RetryingReplace), p\<lparr>p_open_count := p_open_count p + 1 + int n\<rparr>)"
    using Suc.IH [of "p\<lparr>p_open_count := p_open_count p + 1\<rparr>"] Suc.prems by simp
  show ?case
    using Suc.prems IH
    by (simp add: op_then_def op_bind_def add_begin_def retrying_replace_def add_rest_def add_end_def op_catch_def op_raise_def
        op_read_def op_modify_def op_return_def op_when_def op_emit_def add.assoc)
qed (simp add: op_return_def)

text \<open>
  Each attempt to open a connection that fails with an unexpected exception makes \<open>open_count\<close>
  one too large for ever; once it has reached \<open>max_conns\<close> the pool opens no connection any more,
  and ends its retries, although it has fewer connections than allowed, or none.
\<close>

theorem open_count_leak:
  assumes "\<not> p_shutdown p" "p_open_count p + int n = int (max_conns cfg)"
  shows "\<exists>p'. failing_attempts cfg e n p = (Inr (), replicate n (Submit RetryingReplace), p')
    \<and> p_connections p' = p_connections p \<and> p_open_count p' = int (max_conns cfg)
    \<and> add_begin cfg p' = (Inr False, [], p') \<and> retrying_replace 0 False None p' = (Inr (), [], p')"
  using failing_attempts_run [of p n cfg e] assms
  by (simp add: add_begin_def retrying_replace_def add_rest_def op_defs)

theorem open_count_leak_witness:
  "\<exists>p'. failing_attempts example_limits OperationTimedOut 2 (example_pool\<lparr>p_connections := [], p_open_count := 0\<rparr>)
      = (Inr (), [Submit RetryingReplace, Submit RetryingReplace], p')
    \<and> p_connections p' = [] \<and> add_begin example_limits p' = (Inr False, [], p')"
proof -
  have *: "\<not> p_shutdown (example_pool\<lparr>p_connections := [], p_open_count := 0\<rparr>)"
    "p_open_count (example_pool\<lparr>p_connections := [], p_open_count := 0\<rparr>) + int 2 = int (max_conns example_limits)"
    by (simp_all add: example_pool_def pool_init_def example_limits_def)
  from open_count_leak [OF *, of OperationTimedOut] show ?thesis by (auto simp: numeral_2_eq_2)
qed

section \<open>HostConnection\<close>

text \<open>
  The single connection to a host from protocol version 3 on. \<open>_replace\<close> is three steps: it looks
  whether the pool is shut down, it opens a connection and stores it without a lock, and it ends
  the replacement.
\<close>

record host_connection =
  hc_connection :: "nat option"
  hc_shutdown :: bool
  hc_shutdown_on_error :: bool
  hc_is_replacing :: bool
  hc_store :: "nat \<Rightarrow> conn"
  hc_signaled :: "nat list"
  hc_keyspace :: "ptext option"

datatype hc_action = HcSignalFailure nat | HcOnDown | HcNotify | HcNotifyAll | HcSubmitReplace | HcConnection nat action

type_synonym 'a hop = "(host_connection, hc_action, pool_exn, 'a) op"

definition opens_connection :: "HostDistance \<Rightarrow> bool \<Rightarrow> bool" where
  "opens_connection d connect_to_remote_hosts \<longleftrightarrow> d \<noteq> IGNORED \<and> (d = REMOTE \<longrightarrow> connect_to_remote_hosts)"

definition hc_init :: "HostDistance \<Rightarrow> bool \<Rightarrow> nat \<Rightarrow> (nat \<Rightarrow> conn) \<Rightarrow> ptext option \<Rightarrow> host_connection" where
  "hc_init d connect_to_remote_hosts i store ks =
     \<lparr>hc_connection = (if opens_connection d connect_to_remote_hosts then Some i else None), hc_shutdown = False,
      hc_shutdown_on_error = False, hc_is_replacing = False, hc_store = store, hc_signaled = [],
      hc_keyspace = (if opens_connection d connect_to_remote_hosts then ks else None)\<rparr>"

definition hc_on_conn :: "nat \<Rightarrow> 'a cop \<Rightarrow> 'a hop" where
  "hc_on_conn i m h =
     (case m (hc_store h i) of (r, out, c) \<Rightarrow>
        (case r of Inl e \<Rightarrow> Inl (OfConn e) | Inr x \<Rightarrow> Inr x, map (HcConnection i) out, h\<lparr>hc_store := (hc_store h)(i := c)\<rparr>))"

definition hc_room :: "conn \<Rightarrow> bool" where
  "hc_room c \<longleftrightarrow> in_flight c \<le> max_request_id c"

text \<open>
  One turn of the loop of \<open>borrow_connection\<close>, with the connection it began with; \<open>None\<close>: it waits
  for a stream id. \<open>hc_borrow_connection\<close> is the call up to the end of its first turn.
\<close>

definition hc_try :: "nat \<Rightarrow> (nat \<times> int) option hop" where
  "hc_try i = op_bind (hc_on_conn i (take_id hc_room)) (\<lambda>r. op_return (map_option (Pair i) r))"

definition hc_borrow_connection :: "(nat \<times> int) option hop" where
  "hc_borrow_connection = op_bind (op_read (\<lambda>h. (hc_shutdown h, hc_connection h))) (\<lambda>(down, current).
     if down then op_raise PoolShutdown
     else case current of
       None \<Rightarrow> op_raise NoConnectionsAvailable
     | Some i \<Rightarrow> hc_try i)"

definition hc_do_shutdown :: "unit hop" where
  "hc_do_shutdown = op_bind (op_read hc_shutdown) (\<lambda>down. op_when (\<not> down)
     (op_then (op_modify (\<lambda>h. h\<lparr>hc_shutdown := True\<rparr>))
     (op_then (op_emit [HcNotifyAll])
     (op_bind (op_read hc_connection) (\<lambda>current.
        case current of
          None \<Rightarrow> op_return ()
        | Some i \<Rightarrow> op_then (hc_on_conn i close) (op_modify (\<lambda>h. h\<lparr>hc_connection := None\<rparr>)))))))"

definition hc_drop :: "unit hop" where
  "hc_drop = op_then (op_modify (\<lambda>h. h\<lparr>hc_connection := None\<rparr>))
     (op_bind (op_read hc_is_replacing) (\<lambda>replacing.
        op_when (\<not> replacing)
          (op_then (op_modify (\<lambda>h. h\<lparr>hc_is_replacing := True\<rparr>)) (op_emit [HcSubmitReplace]))))"

definition hc_return_connection :: "bool \<Rightarrow> nat \<Rightarrow> unit hop" where
  "hc_return_connection down i =
     op_then (hc_on_conn i (op_modify (\<lambda>c. c\<lparr>in_flight := in_flight c - 1\<rparr>)))
     (op_then (op_emit [HcNotify])
     (op_bind (op_read (\<lambda>h. (dead (hc_store h i), i \<in> set (hc_signaled h), hc_shutdown_on_error h))) (\<lambda>(failed, signaled, on_error).
        op_when (failed \<and> \<not> (signaled \<and> \<not> on_error))
          (op_then (op_when (\<not> signaled)
              (op_then (op_emit [HcSignalFailure i]) (op_modify (\<lambda>h. h\<lparr>hc_signaled := i # hc_signaled h\<rparr>))))
            (let is_down = \<not> signaled \<and> down
             in op_then (op_when (on_error \<and> \<not> is_down) (op_emit [HcOnDown]))
                  (if is_down \<or> on_error then hc_do_shutdown else hc_drop))))))"

definition hc_replace_begin :: "bool hop" where
  "hc_replace_begin = op_read (\<lambda>h. \<not> hc_shutdown h)"

definition hc_replace_set :: "nat \<Rightarrow> conn \<Rightarrow> unit hop" where
  "hc_replace_set i c = op_modify (\<lambda>h. h\<lparr>hc_store := (hc_store h)(i := c), hc_connection := Some i\<rparr>)"

definition hc_replace_done :: "unit hop" where
  "hc_replace_done = op_then (op_modify (\<lambda>h. h\<lparr>hc_is_replacing := False\<rparr>)) (op_emit [HcNotify])"

definition hc_replace_failed :: "unit hop" where
  "hc_replace_failed = op_emit [HcSubmitReplace]"

definition hc_open_count :: "host_connection \<Rightarrow> nat" where
  "hc_open_count h = (case hc_connection h of None \<Rightarrow> 0 | Some i \<Rightarrow> if dead (hc_store h i) then 0 else 1)"

definition hc_set_keyspace :: "ptext option \<Rightarrow> nat \<Rightarrow> unit hop" where
  "hc_set_keyspace ks tok = op_bind (op_read (\<lambda>h. (hc_shutdown h, hc_connection h))) (\<lambda>(down, current).
     case current of
       None \<Rightarrow> op_return ()
     | Some i \<Rightarrow> op_when (\<not> down)
         (op_then (op_modify (\<lambda>h. h\<lparr>hc_keyspace := ks\<rparr>))
         (op_then (hc_on_conn i (set_keyspace_async ks tok)) (op_return ()))))"

text \<open>
  A pool that is not shut down has a connection or is about to get one, as long as a replacement
  is not interrupted between storing the connection and its end.
\<close>

definition hc_served :: "host_connection \<Rightarrow> hc_action list \<Rightarrow> bool" where
  "hc_served h out \<longleftrightarrow> hc_shutdown h \<or> hc_is_replacing h \<or> hc_connection h \<noteq> None"

lemma hc_on_conn_served: "keeps hc_served (hc_on_conn i m)"
  by (auto simp: triple_def hc_on_conn_def hc_served_def split: prod.splits)

lemma hc_modify_served:
  "(\<And>h. hc_shutdown (f h) = hc_shutdown h \<and> hc_is_replacing (f h) = hc_is_replacing h \<and> hc_connection (f h) = hc_connection h)
    \<Longrightarrow> keeps hc_served (op_modify f)"
  by (rule keeps_modify) (simp add: hc_served_def)

lemma hc_emit_served: "keeps hc_served (op_emit out')"
  by (rule keeps_emit) (simp add: hc_served_def)

lemma hc_shutdown_served: "keeps hc_served hc_do_shutdown"
  unfolding hc_do_shutdown_def
proof (intro keeps_bind keeps_read keeps_when)
  have down: "keeps (\<lambda>h out. hc_shutdown h) (hc_on_conn i m)" for i and m :: "unit cop"
    by (auto simp: triple_def hc_on_conn_def split: prod.splits)
  have "keeps (\<lambda>h out. hc_shutdown h) (op_then (op_emit [HcNotifyAll]) (op_bind (op_read hc_connection) (\<lambda>current.
        case current of
          None \<Rightarrow> op_return ()
        | Some i \<Rightarrow> op_then (hc_on_conn i close) (op_modify (\<lambda>h. h\<lparr>hc_connection := None\<rparr>)))))"
    by (auto intro!: triples keeps_emit keeps_modify down split: option.split)
  then have "triple hc_served (op_then (op_modify (\<lambda>h. h\<lparr>hc_shutdown := True\<rparr>))
      (op_then (op_emit [HcNotifyAll]) (op_bind (op_read hc_connection) (\<lambda>current.
        case current of
          None \<Rightarrow> op_return ()
        | Some i \<Rightarrow> op_then (hc_on_conn i close) (op_modify (\<lambda>h. h\<lparr>hc_connection := None\<rparr>)))))) (\<lambda>_ h out. hc_shutdown h)"
    by (rule triple_modify_then [rotated]) simp
  then show "keeps hc_served (op_then (op_modify (\<lambda>h. h\<lparr>hc_shutdown := True\<rparr>))
      (op_then (op_emit [HcNotifyAll]) (op_bind (op_read hc_connection) (\<lambda>current.
        case current of
          None \<Rightarrow> op_return ()
        | Some i \<Rightarrow> op_then (hc_on_conn i close) (op_modify (\<lambda>h. h\<lparr>hc_connection := None\<rparr>))))))"
    by (rule triple_weaken) (simp_all add: hc_served_def)
qed

lemma hc_drop_served: "keeps hc_served hc_drop"
  by (auto simp: triple_def hc_drop_def op_defs hc_served_def)

lemma hc_return_served: "keeps hc_served (hc_return_connection down i)"
  unfolding hc_return_connection_def Let_def
  by (auto intro!: triples hc_on_conn_served hc_emit_served hc_shutdown_served hc_drop_served hc_modify_served)

text \<open>The whole replacement keeps it; the end alone does not, when the new connection is gone again by then.\<close>

lemma hc_replaced_served: "keeps hc_served (op_then (hc_replace_set i c) hc_replace_done)"
  by (auto simp: triple_def hc_replace_set_def hc_replace_done_def op_defs hc_served_def)

lemma hc_replace_race:
  assumes "\<not> hc_shutdown h" "hc_is_replacing h" "dead c" "i \<notin> set (hc_signaled h)" "\<not> hc_shutdown_on_error h"
  shows "\<exists>out h'. op_then (hc_replace_set i c) (op_then (hc_return_connection False i) hc_replace_done) h = (Inr (), out, h')
    \<and> \<not> hc_served h' [] \<and> HcSubmitReplace \<notin> set out"
  using assms
  by (simp add: hc_replace_set_def hc_return_connection_def hc_drop_def hc_replace_done_def hc_on_conn_def op_defs hc_served_def dead_def)

text \<open>A replacement that began before the shutdown leaves a connection that nobody closes.\<close>

lemma hc_replace_after_shutdown:
  assumes "hc_shutdown h" "\<not> dead c"
  shows "\<exists>h'. hc_replace_set i c h = (Inr (), [], h') \<and> hc_open_count h' = 1 \<and> hc_do_shutdown h' = (Inr (), [], h')"
  using assms by (simp add: hc_replace_set_def hc_do_shutdown_def hc_open_count_def op_defs)

section \<open>Reconnecting\<close>

text \<open>
  \<open>_ReconnectionHandler\<close>: \<open>start\<close> schedules the first attempt; an attempt connects, or takes the
  next delay and schedules another one unless the schedule is exhausted or the host refused the
  credentials. The schedule is a function of the attempt, \<open>rh_next\<close> the position of its generator.
\<close>

record reconnection_handler =
  rh_schedule :: schedule
  rh_next :: nat
  rh_cancelled :: bool

datatype rh_action = ScheduleRun rat | OnReconnection | RunCallback | CloseConnection

datatype attempt = Connected | AuthFailed | ConnectFailed

definition rh_start :: "reconnection_handler \<Rightarrow> (pool_exn + unit) \<times> rh_action list \<times> reconnection_handler" where
  "rh_start h =
     (if rh_cancelled h then (Inr (), [], h)
      else case rh_schedule h (rh_next h) of
        None \<Rightarrow> (Inl (OfConn (PyError StopIteration)), [], h)
      | Some d \<Rightarrow> (Inr (), [ScheduleRun d], h\<lparr>rh_next := rh_next h + 1\<rparr>))"

definition rh_cancel :: "reconnection_handler \<Rightarrow> reconnection_handler" where
  "rh_cancel h = h\<lparr>rh_cancelled := True\<rparr>"

text \<open>\<open>late\<close>: the handler was cancelled while it connected. The user's callbacks are taken to return.\<close>

definition rh_run :: "attempt \<Rightarrow> bool \<Rightarrow> reconnection_handler \<Rightarrow> rh_action list \<times> reconnection_handler" where
  "rh_run r late h =
     (if rh_cancelled h then ([], h)
      else case r of
        Connected \<Rightarrow> ((if late then [] else [OnReconnection, RunCallback]) @ [CloseConnection], h\<lparr>rh_cancelled := late\<rparr>)
      | _ \<Rightarrow>
          (let next_delay = rh_schedule h (rh_next h); 
               h1 = h\<lparr>rh_cancelled := late, rh_next := rh_next h + (if next_delay = None then 0 else 1)\<rparr>
           in (case next_delay of Some d \<Rightarrow> if r = AuthFailed then [] else [ScheduleRun d] | None \<Rightarrow> [], h1)))"

text \<open>All attempts of a handler, with their results in order, as long as each schedules the next.\<close>

fun rh_attempts :: "attempt list \<Rightarrow> reconnection_handler \<Rightarrow> nat" where
  "rh_attempts [] h = 0"
| "rh_attempts (r # rs) h =
     (let (acts, h1) = rh_run r False h
      in Suc (if \<exists>d. ScheduleRun d \<in> set acts then rh_attempts rs h1 else 0))"

lemma rh_attempts_bound:
  assumes "\<And>k. n \<le> k \<Longrightarrow> rh_schedule h k = None"
  shows "rh_attempts rs h \<le> Suc (n - rh_next h)"
  using assms
proof (induction rs arbitrary: h)
  case (Cons r rs)
  obtain acts h1 where run: "rh_run r False h = (acts, h1)" by force
  show ?case
  proof (cases "\<exists>d. ScheduleRun d \<in> set acts")
    case True
    then have "rh_schedule h (rh_next h) \<noteq> None" and h1: "rh_schedule h1 = rh_schedule h" "rh_next h1 = Suc (rh_next h)"
      using run by (auto simp: rh_run_def Let_def split: if_splits attempt.splits option.splits)
    with Cons.prems have "rh_next h < n" by (metis not_le)
    with Cons.IH [of h1] Cons.prems h1 run True show ?thesis by (simp add: Let_def)
  qed (simp add: run)
qed simp

text \<open>
  With a schedule of \<open>max_attempts\<close> delays of the constant or the exponential policy, a handler
  makes at most \<open>max_attempts\<close> attempts.
\<close>

lemma reconnection_attempts:
  assumes "rh_start h = (Inr (), [ScheduleRun d], h1)" "rh_next h = 0" "\<And>k. n \<le> k \<Longrightarrow> rh_schedule h k = None"
  shows "rh_attempts rs h1 \<le> n"
proof -
  from assms(1, 2) have "rh_schedule h 0 \<noteq> None" "rh_schedule h1 = rh_schedule h" "rh_next h1 = 1"
    by (auto simp: rh_start_def split: if_splits option.splits)
  with assms(3) rh_attempts_bound [of n h1 rs] show ?thesis by (cases n) auto
qed

end
