(* ===== verification/Response_Future.thy ===== *)
theory Response_Future
  imports Pool Timers
begin

text \<open>
  \<open>ResponseFuture\<close> of \<open>cassandra/cluster.py\<close>: it sends a request to the hosts of a query plan until
  one takes it, handles the response, asks the retry policy, prepares statements again, times out,
  starts speculative executions, and runs the callbacks of its users. Every operation of the
  future is one step; what the rest of the driver does meanwhile is the environment of the step:
  the answers of the pools, the clock, which requests the connections wait for.
\<close>

section \<open>State\<close>

record pstmt =
  ps_query_id :: bytes
  ps_query_string :: ptext
  ps_keyspace :: "ptext option"
  ps_result_metadata :: "column list option"
  ps_result_metadata_id :: "bytes option"

text \<open>The values of \<open>_errors\<close> are the exceptions of pools and connections.\<close>

type_synonym host_errors = "(nat \<times> pool_exn) list"

datatype timeout_errors = HostErrors host_errors | ClientTimeout "nat option" | SchemaTimeout

datatype rf_exn =
    NoHostAvailable host_errors
  | RequestTimeout timeout_errors "nat option"
  | QueryExhausted
  | Exn exn

datatype rf_result = NoResult | RowsOf rows_result | PreparedOf prepared

datatype rf_timer = SpeculativeTimer rat | TimeoutTimer rat

text \<open>
  A connection is known by its host and a number. \<open>f_result\<close> is \<open>None\<close> for \<open>_NOT_SET\<close>;
  \<open>f_timer\<close> is \<open>_timer\<close>, and \<open>f_armed\<close> the timer that was neither canceled nor run yet.
\<close>

record future =
  f_plan :: "nat list"
  f_timeout :: "rat option"
  f_start :: rat
  f_errors :: host_errors
  f_attempted :: "nat list"
  f_current_host :: "nat option"
  f_coordinator :: "nat option"
  f_connection :: "(nat \<times> nat) option"
  f_req_id :: "int option"
  f_result :: "rf_result option"
  f_exception :: "rf_exn option"
  f_event :: bool
  f_callbacks :: "nat list"
  f_errbacks :: "nat list"
  f_retries :: nat
  f_timer :: "rf_timer option"
  f_armed :: "rf_timer option"
  f_spec :: ConstantSpeculativeExecutionPlan
  f_paging_state :: "bytes option"
  f_consistency :: "int option"
  f_message_paging :: "bytes option"
  f_traces :: "bytes list"
  f_warnings :: "ptext list option"
  f_payload :: "(ptext \<times> bytes option) list option"
  f_schema_agreed :: bool
  f_prepared :: "pstmt option"

text \<open>
  What goes out: the request, or the preparation of a statement whose response goes to
  \<open>_execute_after_prepare\<close> with the connection given here.
\<close>

datatype rf_request = Execute "int option" "bytes option" | Prepare ptext "ptext option" nat

datatype rf_task =
    RetryTask bool nat
  | Reprepare ptext "ptext option" nat nat
  | ExecuteAfterPrepare nat nat answer
  | RefreshSchema nat nat schema_change

datatype rf_action =
    Borrowed nat nat
  | Sent nat nat int rf_request
  | Returned "nat option" nat nat
  | Forgotten nat nat int
  | Defunct nat nat exn
  | SubmitTask rf_task
  | SetKeyspaceForAllPools ptext
  | RememberStatement bytes
  | EventSet
  | EventClear
  | RunCallback nat rf_result
  | RunErrback nat rf_exn

type_synonym 'a fop = "(future, rf_action, rf_exn, 'a) op"

text \<open>What the pool of a host and a connection of it do with a request.\<close>

datatype pool_answer = NoPool | PoolIsShutdown | BorrowFails pool_exn | SendFails nat exn | Sends nat int

record rf_env =
  answers :: "nat \<Rightarrow> pool_answer"
  clock :: "nat \<Rightarrow> rat"
  registered :: "nat \<Rightarrow> nat \<Rightarrow> int \<Rightarrow> bool"
  pool_open :: "nat \<Rightarrow> bool"
  keyspace_of :: "nat \<Rightarrow> nat \<Rightarrow> ptext option"
  known_statement :: "bytes \<Rightarrow> pstmt option"
  cluster_version :: int
  callback_raises :: "nat \<Rightarrow> exn option"
  row_factory_raises :: "rows_result \<Rightarrow> exn option"

record retry_policy =
  rp_read_timeout :: "consistency \<Rightarrow> int \<Rightarrow> int \<Rightarrow> bool \<Rightarrow> nat \<Rightarrow> decision"
  rp_write_timeout :: "consistency \<Rightarrow> write_type \<Rightarrow> int \<Rightarrow> int \<Rightarrow> nat \<Rightarrow> decision"
  rp_unavailable :: "consistency \<Rightarrow> int \<Rightarrow> int \<Rightarrow> nat \<Rightarrow> decision"

definition RetryPolicy :: retry_policy where
  "RetryPolicy = \<lparr>rp_read_timeout = retry_on_read_timeout, rp_write_timeout = retry_on_write_timeout, rp_unavailable = retry_on_unavailable\<rparr>"

definition FallthroughRetryPolicy :: retry_policy where
  "FallthroughRetryPolicy = \<lparr>rp_read_timeout = fallthrough_on_read_timeout, rp_write_timeout = fallthrough_on_write_timeout,
     rp_unavailable = fallthrough_on_unavailable\<rparr>"

definition DowngradingConsistencyRetryPolicy :: retry_policy where
  "DowngradingConsistencyRetryPolicy = \<lparr>rp_read_timeout = downgrading_on_read_timeout, rp_write_timeout = downgrading_on_write_timeout,
     rp_unavailable = downgrading_on_unavailable\<rparr>"

section \<open>The end of a request\<close>

definition cancel_timer :: "unit fop" where
  "cancel_timer = op_modify (\<lambda>f. if f_timer f \<noteq> None then f\<lparr>f_armed := None\<rparr> else f)"

definition run_user :: "rf_env \<Rightarrow> (nat \<Rightarrow> rf_action) \<Rightarrow> nat list \<Rightarrow> unit fop" where
  "run_user w act = op_each (\<lambda>cb. op_then (op_emit [act cb])
     (case callback_raises w cb of Some e \<Rightarrow> op_raise (Exn e) | None \<Rightarrow> op_return ()))"

definition set_final_result :: "rf_env \<Rightarrow> rf_result \<Rightarrow> unit fop" where
  "set_final_result w response =
     op_then cancel_timer
     (op_then (op_modify (\<lambda>f. f\<lparr>f_result := Some response\<rparr>))
     (op_bind (op_read f_callbacks) (\<lambda>to_call.
      op_then (op_modify (\<lambda>f. f\<lparr>f_event := True\<rparr>))
     (op_then (op_emit [EventSet]) (run_user w (\<lambda>cb. RunCallback cb response) to_call)))))"

definition set_final_exception :: "rf_env \<Rightarrow> rf_exn \<Rightarrow> unit fop" where
  "set_final_exception w response =
     op_then cancel_timer
     (op_then (op_modify (\<lambda>f. f\<lparr>f_exception := Some response\<rparr>))
     (op_bind (op_read f_errbacks) (\<lambda>to_call.
      op_then (op_modify (\<lambda>f. f\<lparr>f_event := True\<rparr>))
     (op_then (op_emit [EventSet]) (run_user w (\<lambda>cb. RunErrback cb response) to_call)))))"

definition add_callback :: "rf_env \<Rightarrow> nat \<Rightarrow> unit fop" where
  "add_callback w cb =
     op_then (op_modify (\<lambda>f. f\<lparr>f_callbacks := f_callbacks f @ [cb]\<rparr>))
     (op_bind (op_read f_result) (\<lambda>r. case r of None \<Rightarrow> op_return () | Some x \<Rightarrow> run_user w (\<lambda>cb. RunCallback cb x) [cb]))"

definition add_errback :: "rf_env \<Rightarrow> nat \<Rightarrow> unit fop" where
  "add_errback w cb =
     op_then (op_modify (\<lambda>f. f\<lparr>f_errbacks := f_errbacks f @ [cb]\<rparr>))
     (op_bind (op_read f_exception) (\<lambda>r. case r of None \<Rightarrow> op_return () | Some x \<Rightarrow> run_user w (\<lambda>cb. RunErrback cb x) [cb]))"

definition add_callbacks :: "rf_env \<Rightarrow> nat \<Rightarrow> nat \<Rightarrow> unit fop" where
  "add_callbacks w cb eb = op_then (add_callback w cb) (add_errback w eb)"

definition clear_callbacks :: "unit fop" where
  "clear_callbacks = op_modify (\<lambda>f. f\<lparr>f_callbacks := [], f_errbacks := []\<rparr>)"

text \<open>\<open>result\<close>, once the event is set; \<open>raise None\<close> is a \<open>TypeError\<close>.\<close>

definition result_of :: "future \<Rightarrow> rf_exn + rf_result" where
  "result_of f = (case f_result f of
       Some r \<Rightarrow> Inr r
     | None \<Rightarrow> Inl (case f_exception f of Some e \<Rightarrow> e | None \<Rightarrow> Exn (PyError TypeError)))"

section \<open>Sending\<close>

definition set_error :: "nat \<Rightarrow> pool_exn \<Rightarrow> unit fop" where
  "set_error host e = op_modify (\<lambda>f. f\<lparr>f_errors := AList.update host e (f_errors f)\<rparr>)"

definition message_of :: "future \<Rightarrow> rf_request" where
  "message_of f = Execute (f_consistency f) (f_message_paging f)"

definition query :: "pool_answer \<Rightarrow> nat \<Rightarrow> rf_request \<Rightarrow> int option fop" where
  "query a host message =
     (if a = NoPool \<or> a = PoolIsShutdown
      then op_then (set_error host (OfConn ConnectionException)) (op_return None)
      else op_then (op_modify (\<lambda>f. f\<lparr>f_current_host := Some host\<rparr>))
        (case a of
           BorrowFails e \<Rightarrow> op_then (set_error host e) (op_return None)
         | SendFails c e \<Rightarrow>
             op_then (op_emit [Borrowed host c])
             (op_then (op_modify (\<lambda>f. f\<lparr>f_connection := Some (host, c)\<rparr>))
             (op_then (set_error host (OfConn e))
             (op_then (op_emit [Returned (Some host) host c]) (op_return None))))
         | Sends c n \<Rightarrow>
             op_then (op_emit [Borrowed host c])
             (op_then (op_modify (\<lambda>f. f\<lparr>f_connection := Some (host, c)\<rparr>))
             (op_then (op_emit [Sent host c n message])
             (op_then (op_modify (\<lambda>f. f\<lparr>f_attempted := f_attempted f @ [host]\<rparr>)) (op_return (Some n)))))
         | _ \<Rightarrow> op_return None))"

definition timeout_errors_of :: "future \<Rightarrow> timeout_errors" where
  "timeout_errors_of f =
     (if f_errors f \<noteq> [] then HostErrors (f_errors f)
      else if f_schema_agreed f then ClientTimeout (f_current_host f)
      else SchemaTimeout)"

definition on_timeout :: "rf_env \<Rightarrow> unit fop" where
  "on_timeout w = op_bind (op_read (\<lambda>f. (f_connection f, f_req_id f, f_current_host f))) (\<lambda>(conn, n, current).
     case conn of
       None \<Rightarrow> op_raise (Exn (PyError AttributeError))
     | Some (h, c) \<Rightarrow>
         (case n of
            None \<Rightarrow> op_return ()
          | Some n \<Rightarrow>
              if \<not> registered w h c n then op_return ()
              else
                op_then (op_emit [Forgotten h c n])
                (op_then (op_when (case current of Some x \<Rightarrow> pool_open w x | None \<Rightarrow> False) (op_emit [Returned current h c]))
                (op_bind (op_read timeout_errors_of) (\<lambda>errors. set_final_exception w (RequestTimeout errors current))))))"

definition late :: "future \<Rightarrow> rat \<Rightarrow> bool" where
  "late f now \<longleftrightarrow> (case f_timeout f of None \<Rightarrow> False | Some t \<Rightarrow> now - f_start f > t)"

text \<open>The loop over what is left of the plan; \<open>k\<close> counts the attempts of the step.\<close>

fun send_loop :: "rf_env \<Rightarrow> nat \<Rightarrow> nat list \<Rightarrow> bool fop" where
  "send_loop w k [] = op_return False"
| "send_loop w k (host # hosts) =
     op_then (op_modify (\<lambda>f. f\<lparr>f_plan := hosts\<rparr>))
     (op_bind (op_read message_of) (\<lambda>message.
      op_bind (query (answers w k) host message) (\<lambda>r.
        case r of
          Some n \<Rightarrow> op_then (op_modify (\<lambda>f. f\<lparr>f_req_id := Some n\<rparr>)) (op_return True)
        | None \<Rightarrow> op_bind (op_read (\<lambda>f. late f (clock w k))) (\<lambda>over.
            if over then op_then (on_timeout w) (op_return True) else send_loop w (Suc k) hosts))))"

definition send_request :: "rf_env \<Rightarrow> nat \<Rightarrow> bool \<Rightarrow> bool fop" where
  "send_request w k error_no_hosts =
     op_bind (op_read f_plan) (\<lambda>hosts.
     op_bind (send_loop w k hosts) (\<lambda>sent.
       if sent then op_return True
       else op_then (op_when error_no_hosts
           (op_bind (op_read f_errors) (\<lambda>errors. set_final_exception w (NoHostAvailable errors))))
         (op_return False)))"

section \<open>Timers of a request\<close>

definition start_timer :: "rat \<Rightarrow> unit fop" where
  "start_timer now = op_modify (\<lambda>f.
     if f_timer f \<noteq> None then f
     else
       let (delay, spec') = next_execution (f_spec f); f1 = f\<lparr>f_spec := spec'\<rparr>;
           remaining = map_option (\<lambda>t. (f_start f + t) - now) (f_timeout f)
       in if delay \<ge> 0 \<and> (case remaining of Some r \<Rightarrow> r > delay | None \<Rightarrow> True)
          then f1\<lparr>f_timer := Some (SpeculativeTimer (now + delay)), f_armed := Some (SpeculativeTimer (now + delay))\<rparr>
          else case remaining of
                 Some r \<Rightarrow> f1\<lparr>f_timer := Some (TimeoutTimer (now + r)), f_armed := Some (TimeoutTimer (now + r))\<rparr>
               | None \<Rightarrow> f1)"

definition on_speculative_execute :: "rf_env \<Rightarrow> rat \<Rightarrow> unit fop" where
  "on_speculative_execute w now =
     op_then (op_modify (\<lambda>f. f\<lparr>f_timer := None\<rparr>))
     (op_bind (op_read (\<lambda>f. (f_event f, f_timeout f, f_start f))) (\<lambda>(finished, timeout, start).
        op_when (\<not> finished)
          (if (case timeout of Some t \<Rightarrow> (start + t) - now \<le> 0 | None \<Rightarrow> False) then on_timeout w
           else op_then (send_request w 0 False) (start_timer now))))"

text \<open>
  The timer manager runs the callback of the timer; a timer whose callback raises stays in its
  queue.
\<close>

definition fire_timer :: "rf_env \<Rightarrow> rat \<Rightarrow> unit fop" where
  "fire_timer w now = op_bind (op_read f_armed) (\<lambda>t.
     case t of
       None \<Rightarrow> op_return ()
     | Some x \<Rightarrow>
         op_then (op_modify (\<lambda>f. f\<lparr>f_armed := None\<rparr>))
           (op_catch (case x of SpeculativeTimer _ \<Rightarrow> on_speculative_execute w now | TimeoutTimer _ \<Rightarrow> on_timeout w)
             (\<lambda>e. op_then (op_modify (\<lambda>f. f\<lparr>f_armed := t\<rparr>)) (op_raise e))))"

definition future_init :: "nat list \<Rightarrow> rat option \<Rightarrow> rat \<Rightarrow> ConstantSpeculativeExecutionPlan \<Rightarrow> int option \<Rightarrow> bytes option \<Rightarrow> pstmt option \<Rightarrow> future" where
  "future_init plan timeout now spec cl paging ps =
     snd (snd (start_timer now
       \<lparr>f_plan = plan, f_timeout = timeout, f_start = now, f_errors = [], f_attempted = [], f_current_host = None,
        f_coordinator = None, f_connection = None, f_req_id = None, f_result = None, f_exception = None, f_event = False,
        f_callbacks = [], f_errbacks = [], f_retries = 0, f_timer = None, f_armed = None, f_spec = spec,
        f_paging_state = None, f_consistency = cl, f_message_paging = paging, f_traces = [], f_warnings = None,
        f_payload = None, f_schema_agreed = True, f_prepared = ps\<rparr>))"

definition start_fetching_next_page :: "rf_env \<Rightarrow> rat \<Rightarrow> nat list \<Rightarrow> unit fop" where
  "start_fetching_next_page w now new_plan = op_bind (op_read f_paging_state) (\<lambda>paging.
     if paging = None \<or> paging = Some [] then op_raise QueryExhausted
     else op_then (op_modify (\<lambda>f. f\<lparr>f_plan := new_plan, f_message_paging := paging, f_event := False\<rparr>))
       (op_then (op_emit [EventClear])
       (op_then (op_modify (\<lambda>f. f\<lparr>f_result := None, f_exception := None\<rparr>))
       (op_then (start_timer now) (op_then (send_request w 0 True) (op_return ()))))))"

section \<open>Retries\<close>

definition retry :: "bool \<Rightarrow> int option \<Rightarrow> nat \<Rightarrow> unit fop" where
  "retry reuse_connection consistency_level host = op_bind (op_read f_exception) (\<lambda>failed.
     op_when (failed = None)
       (op_then (op_when (consistency_level \<noteq> None) (op_modify (\<lambda>f. f\<lparr>f_consistency := consistency_level\<rparr>)))
         (op_emit [SubmitTask (RetryTask reuse_connection host)])))"

definition send_again :: "rf_env \<Rightarrow> nat \<Rightarrow> unit fop" where
  "send_again w host = op_bind (op_read message_of) (\<lambda>message. op_bind (query (answers w 0) host message) (\<lambda>r.
     if r \<noteq> None then op_return () else op_then (send_request w 1 True) (op_return ())))"

definition retry_task :: "rf_env \<Rightarrow> bool \<Rightarrow> nat \<Rightarrow> unit fop" where
  "retry_task w reuse_connection host = op_bind (op_read f_exception) (\<lambda>failed.
     op_when (failed = None)
       (if reuse_connection then send_again w host else op_then (send_request w 1 True) (op_return ())))"

definition reprepare :: "rf_env \<Rightarrow> ptext \<Rightarrow> ptext option \<Rightarrow> nat \<Rightarrow> nat \<Rightarrow> unit fop" where
  "reprepare w q ks host conn = op_bind (query (answers w 0) host (Prepare q ks conn)) (\<lambda>r.
     if r \<noteq> None then op_return () else op_then (send_request w 1 True) (op_return ()))"

section \<open>The response\<close>

definition decided :: "rf_env \<Rightarrow> nat \<Rightarrow> exn \<Rightarrow> decision \<Rightarrow> unit fop" where
  "decided w host e = (\<lambda>(retry_type, consistency).
     op_then
       (case retry_type of
          RETHROW \<Rightarrow> set_final_exception w (Exn e)
        | IGNORE \<Rightarrow> set_final_result w NoResult
        | _ \<Rightarrow> op_then (op_modify (\<lambda>f. f\<lparr>f_retries := f_retries f + 1\<rparr>)) (retry (retry_type = RETRY) consistency host))
       (set_error host (OfConn e)))"

text \<open>
  \<open>PreparedQueryNotFound\<close>. The log message for an unknown statement calls \<open>encode\<close> on a byte
  string, which Python 3 does not have.
\<close>

definition statement_for :: "rf_env \<Rightarrow> bytes \<Rightarrow> pstmt fop" where
  "statement_for w query_id = op_bind (op_read f_prepared) (\<lambda>ps.
     if (case ps of Some p \<Rightarrow> ps_query_id p \<noteq> query_id | None \<Rightarrow> False) then op_raise (Exn (PyError AssertionError))
     else case known_statement w query_id of
       Some p \<Rightarrow> op_return p
     | None \<Rightarrow>
         (case ps of
            None \<Rightarrow> op_raise (Exn (PyError AttributeError))
          | Some p \<Rightarrow> op_then (op_emit [RememberStatement query_id]) (op_return p)))"

definition prepare_again :: "rf_env \<Rightarrow> nat \<Rightarrow> nat \<Rightarrow> bytes \<Rightarrow> unit fop" where
  "prepare_again w host c query_id = op_bind (statement_for w query_id) (\<lambda>p.
     op_bind (op_read (\<lambda>f. case f_connection f of Some (h, c) \<Rightarrow> keyspace_of w h c | None \<Rightarrow> None)) (\<lambda>current_keyspace.
       let flag = uses_keyspace_flag (cluster_version w); given = (ps_keyspace p \<noteq> None \<and> ps_keyspace p \<noteq> Some [])
       in if \<not> flag \<and> given \<and> current_keyspace \<noteq> ps_keyspace p then set_final_exception w (Exn (PyError ValueError))
          else op_emit [SubmitTask (Reprepare (ps_query_string p) (if flag then ps_keyspace p else None) host c)]))"

definition on_error :: "rf_env \<Rightarrow> retry_policy \<Rightarrow> nat \<Rightarrow> nat \<Rightarrow> int \<Rightarrow> ptext \<Rightarrow> error_info \<Rightarrow> unit fop" where
  "on_error w pol host c code msg info = op_bind (op_read f_retries) (\<lambda>retries.
     let e = ErrorResponse (Error code msg info)
     in case (error_class_of code, info) of
       (ReadTimeoutErrorMessage, ReadTimeoutInfo cl m n b) \<Rightarrow> decided w host e (rp_read_timeout pol cl m n b retries)
     | (WriteTimeoutErrorMessage, WriteTimeoutInfo cl m n t) \<Rightarrow> decided w host e (rp_write_timeout pol cl t m n retries)
     | (UnavailableErrorMessage, UnavailableInfo cl m n) \<Rightarrow> decided w host e (rp_unavailable pol cl m n retries)
     | (OverloadedErrorMessage, _) \<Rightarrow> retry False None host
     | (IsBootstrappingErrorMessage, _) \<Rightarrow> retry False None host
     | (PreparedQueryNotFound, PreparedQueryNotFoundInfo query_id) \<Rightarrow> prepare_again w host c query_id
     | _ \<Rightarrow> set_final_exception w (Exn e))"

definition on_result :: "rf_env \<Rightarrow> nat \<Rightarrow> nat \<Rightarrow> result \<Rightarrow> unit fop" where
  "on_result w host c r =
     (case r of
        SetKeyspaceResult ks \<Rightarrow> op_emit [SetKeyspaceForAllPools ks]
      | SchemaChangeResult change \<Rightarrow>
          op_then (op_modify (\<lambda>f. f\<lparr>f_schema_agreed := False\<rparr>)) (op_emit [SubmitTask (RefreshSchema host c change)])
      | RowsResult rows \<Rightarrow>
          op_then (op_modify (\<lambda>f. f\<lparr>f_paging_state := rr_paging_state rows\<rparr>))
            (case row_factory_raises w rows of Some e \<Rightarrow> op_raise (Exn e) | None \<Rightarrow> set_final_result w (RowsOf rows))
      | PreparedResult p \<Rightarrow> set_final_result w (PreparedOf p)
      | VoidResult \<Rightarrow> set_final_result w NoResult)"

definition defunct_connection :: "exn \<Rightarrow> unit fop" where
  "defunct_connection e = op_bind (op_read f_connection) (\<lambda>conn.
     case conn of None \<Rightarrow> op_raise (Exn (PyError AttributeError)) | Some (h, c) \<Rightarrow> op_emit [Defunct h c e])"

definition on_response :: "rf_env \<Rightarrow> retry_policy \<Rightarrow> nat \<Rightarrow> nat \<Rightarrow> answer \<Rightarrow> unit fop" where
  "on_response w pol host c ans =
     (case ans of
        Message m \<Rightarrow>
          (case msg_body m of
             Result r \<Rightarrow> on_result w host c r
           | Error code msg info \<Rightarrow> on_error w pol host c code msg info
           | _ \<Rightarrow> op_then cancel_timer (op_then (defunct_connection ConnectionException)
                (set_final_exception w (Exn ConnectionException))))
      | Failure e \<Rightarrow>
          (case e of
             ErrorResponse (Error code msg info) \<Rightarrow> on_error w pol host c code msg info
           | ConnectionShutdown \<Rightarrow> retry False None host
           | ConnectionException \<Rightarrow> op_then (defunct_connection e) (retry False None host)
           | _ \<Rightarrow> set_final_exception w (Exn e)))"

definition note_response :: "nat \<Rightarrow> answer \<Rightarrow> future \<Rightarrow> future" where
  "note_response host ans f =
     (case ans of
        Message m \<Rightarrow> f\<lparr>f_coordinator := Some host, f_traces := f_traces f @ (case msg_trace_id m of Some t \<Rightarrow> [t] | None \<Rightarrow> []),
          f_warnings := msg_warnings m, f_payload := msg_custom_payload m\<rparr>
      | Failure e \<Rightarrow> f\<lparr>f_coordinator := Some host, f_warnings := None, f_payload := None\<rparr>)"

definition set_result :: "rf_env \<Rightarrow> retry_policy \<Rightarrow> nat \<Rightarrow> nat \<Rightarrow> answer \<Rightarrow> unit fop" where
  "set_result w pol host c ans =
     op_catch
       (op_then (op_emit [Returned (Some host) host c])
       (op_then (op_modify (note_response host ans)) (on_response w pol host c ans)))
       (set_final_exception w)"

definition set_keyspace_completed :: "rf_env \<Rightarrow> bool \<Rightarrow> unit fop" where
  "set_keyspace_completed w failed =
     (if failed then set_final_exception w (Exn ConnectionException) else set_final_result w NoResult)"

text \<open>\<open>refresh_schema_and_set_result\<close>: \<open>None\<close> when the refresh raised.\<close>

definition refresh_schema_and_set_result :: "rf_env \<Rightarrow> bool option \<Rightarrow> unit fop" where
  "refresh_schema_and_set_result w agreed =
     op_then (case agreed of Some b \<Rightarrow> op_modify (\<lambda>f. f\<lparr>f_schema_agreed := b\<rparr>) | None \<Rightarrow> op_return ())
       (set_final_result w NoResult)"

definition new_metadata :: "prepared \<Rightarrow> pstmt \<Rightarrow> pstmt" where
  "new_metadata r p = p\<lparr>ps_result_metadata := pr_result_metadata r,
     ps_result_metadata_id := (case pr_result_metadata_id r of Some i \<Rightarrow> Some i | None \<Rightarrow> ps_result_metadata_id p)\<rparr>"

definition after_prepare :: "rf_env \<Rightarrow> nat \<Rightarrow> answer \<Rightarrow> unit fop" where
  "after_prepare w host ans =
     (case ans of
        Message m \<Rightarrow>
          (case msg_body m of
             Result (PreparedResult r) \<Rightarrow>
               op_then (op_modify (\<lambda>f. f\<lparr>f_prepared := map_option (new_metadata r) (f_prepared f)\<rparr>)) (send_again w host)
           | Error code msg info \<Rightarrow> set_final_exception w (Exn (ErrorResponse (msg_body m)))
           | _ \<Rightarrow> set_final_exception w (Exn ConnectionException))
      | Failure e \<Rightarrow>
          (case e of
             ErrorResponse r \<Rightarrow> set_final_exception w (Exn e)
           | ConnectionShutdown \<Rightarrow> op_then (set_error host (OfConn e)) (op_then (send_request w 1 True) (op_return ()))
           | ConnectionException \<Rightarrow> op_then (set_error host (OfConn e)) (op_then (send_request w 1 True) (op_return ()))
           | _ \<Rightarrow> set_final_exception w (Exn ConnectionException)))"

definition execute_after_prepare :: "rf_env \<Rightarrow> nat \<Rightarrow> nat \<Rightarrow> answer \<Rightarrow> unit fop" where
  "execute_after_prepare w host c ans =
     op_then (op_emit [Returned (Some host) host c])
     (op_bind (op_read f_exception) (\<lambda>failed. op_when (failed = None) (after_prepare w host ans)))"

section \<open>The driver around a request\<close>

text \<open>
  What a request waits for: the call of \<open>send_request\<close> by the user's thread, a response, a task of
  the executor, or the keyspace change of all pools.
\<close>

datatype todo = Start | Awaiting nat nat int rf_request | Task rf_task | KeyspacePending ptext

fun opens :: "rf_action \<Rightarrow> todo list" where
  "opens (Sent h c n q) = [Awaiting h c n q]"
| "opens (SubmitTask t) = [Task t]"
| "opens (SetKeyspaceForAllPools ks) = [KeyspacePending ks]"
| "opens _ = []"

definition opened :: "rf_action list \<Rightarrow> todo list" where
  "opened out = concat (map opens out)"

lemma opened_simps [simp]: "opened [] = []" "opened (a # out) = opens a @ opened out" "opened (out @ out') = opened out @ opened out'"
  by (simp_all add: opened_def)

fun forgets :: "rf_action \<Rightarrow> todo \<Rightarrow> bool" where
  "forgets (Forgotten h c n) (Awaiting h' c' n' q) \<longleftrightarrow> h = h' \<and> c = c' \<and> n = n'"
| "forgets _ _ \<longleftrightarrow> False"

text \<open>What is done with an item: a response \<open>ans\<close>, whether the schema agrees, whether the keyspace change failed.\<close>

fun handle :: "rf_env \<Rightarrow> retry_policy \<Rightarrow> answer \<Rightarrow> bool option \<Rightarrow> bool \<Rightarrow> todo \<Rightarrow> unit fop" where
  "handle w pol ans agreed failed Start = op_then (send_request w 0 True) (op_return ())"
| "handle w pol ans agreed failed (Awaiting h c n (Execute cl paging)) = set_result w pol h c ans"
| "handle w pol ans agreed failed (Awaiting h c n (Prepare q ks c0)) = op_emit [SubmitTask (ExecuteAfterPrepare h c0 ans)]"
| "handle w pol ans agreed failed (Task (RetryTask reuse h)) = retry_task w reuse h"
| "handle w pol ans agreed failed (Task (Reprepare q ks h c)) = reprepare w q ks h c"
| "handle w pol ans agreed failed (Task (ExecuteAfterPrepare h c a)) = execute_after_prepare w h c a"
| "handle w pol ans agreed failed (Task (RefreshSchema h c change)) = refresh_schema_and_set_result w agreed"
| "handle w pol ans agreed failed (KeyspacePending ks) = set_keyspace_completed w failed"

record rf_sys =
  fut :: future
  todos :: "todo list"
  hist :: "rf_action list"
  now :: rat
  deadline :: "rat option"
  planned :: nat

text \<open>\<open>planned\<close> is the length of the query plans of all pages.\<close>

definition after :: "rf_sys \<Rightarrow> todo list \<Rightarrow> rf_action list \<Rightarrow> future \<Rightarrow> rat \<Rightarrow> rf_sys" where
  "after s rest out f t = \<lparr>fut = f, todos = filter (\<lambda>x. \<not> (\<exists>a \<in> set out. forgets a x)) rest @ opened out, hist = hist s @ out,
     now = t, deadline = deadline s, planned = planned s\<rparr>"

text \<open>
  The environment of a step: the clock does not run backwards, a connection knows the requests it
  has not answered, and the callbacks of the user do not raise.
\<close>

definition env_ok :: "rf_env \<Rightarrow> rf_sys \<Rightarrow> rat \<Rightarrow> bool" where
  "env_ok w s t \<longleftrightarrow> now s \<le> t \<and> (\<forall>k. now s \<le> clock w k \<and> clock w k \<le> t)
     \<and> (\<forall>h c n q. Awaiting h c n q \<in> set (todos s) \<longrightarrow> registered w h c n) \<and> (\<forall>cb. callback_raises w cb = None)"

inductive rf_step :: "retry_policy \<Rightarrow> rf_sys \<Rightarrow> rf_sys \<Rightarrow> bool" for pol where
  item: "x \<in> set (todos s) \<Longrightarrow> env_ok w s t \<Longrightarrow> handle w pol ans agreed failed x (fut s) = (r, out, f')
    \<Longrightarrow> rf_step pol s (after s (remove1 x (todos s)) out f' t)"
| timer: "f_armed (fut s) = Some (SpeculativeTimer d) \<or> f_armed (fut s) = Some (TimeoutTimer d) \<Longrightarrow> d \<le> t \<Longrightarrow> env_ok w s t
    \<Longrightarrow> fire_timer w t (fut s) = (r, out, f') \<Longrightarrow> rf_step pol s (after s (todos s) out f' t)"
| callback: "env_ok w s t \<Longrightarrow> m \<in> {add_callback w cb, add_errback w cb, clear_callbacks} \<Longrightarrow> m (fut s) = (r, out, f')
    \<Longrightarrow> rf_step pol s (after s (todos s) out f' t)"
| page: "f_event (fut s) \<Longrightarrow> env_ok w s t \<Longrightarrow> start_fetching_next_page w t plan (fut s) = (r, out, f')
    \<Longrightarrow> rf_step pol s ((after s (todos s) out f' t)\<lparr>planned := planned s + length plan\<rparr>)"

inductive rf_reachable :: "retry_policy \<Rightarrow> ConstantSpeculativeExecutionPlan \<Rightarrow> rf_sys \<Rightarrow> bool" for pol spec where
  start: "rf_reachable pol spec \<lparr>fut = future_init plan timeout t spec cl paging ps, todos = [Start], hist = [], now = t,
    deadline = map_option (\<lambda>x. t + x) timeout, planned = length plan\<rparr>"
| step: "rf_reachable pol spec s \<Longrightarrow> rf_step pol s s' \<Longrightarrow> rf_reachable pol spec s'"

definition in_time :: "rf_sys \<Rightarrow> bool" where
  "in_time s \<longleftrightarrow> (case deadline s of None \<Rightarrow> True | Some x \<Rightarrow> now s < x)"

section \<open>Example requests\<close>

text \<open>The environment of the examples, with the answers of the pools and the time as arguments.\<close>

definition example_env :: "(nat \<Rightarrow> pool_answer) \<Rightarrow> rat \<Rightarrow> bool \<Rightarrow> rf_env" where
  "example_env ans t known = \<lparr>answers = ans, clock = \<lambda>_. t, registered = \<lambda>h c n. known, pool_open = \<lambda>h. True, keyspace_of = \<lambda>h c. None,
     known_statement = \<lambda>q. None, cluster_version = 4, callback_raises = \<lambda>cb. None, row_factory_raises = \<lambda>rows. None\<rparr>"

definition request_start :: "nat list \<Rightarrow> rat option \<Rightarrow> ConstantSpeculativeExecutionPlan \<Rightarrow> rf_sys" where
  "request_start plan timeout spec = \<lparr>fut = future_init plan timeout 0 spec None None None, todos = [Start], hist = [], now = 0,
     deadline = map_option (\<lambda>x. 0 + x) timeout, planned = length plan\<rparr>"

definition do_item :: "rf_env \<Rightarrow> answer \<Rightarrow> rat \<Rightarrow> todo \<Rightarrow> rf_sys \<Rightarrow> rf_sys" where
  "do_item w ans t x s = (case handle w RetryPolicy ans None False x (fut s) of (r, out, f) \<Rightarrow> after s (remove1 x (todos s)) out f t)"

definition do_timer :: "rf_env \<Rightarrow> rat \<Rightarrow> rf_sys \<Rightarrow> rf_sys" where
  "do_timer w t s = (case fire_timer w t (fut s) of (r, out, f) \<Rightarrow> after s (todos s) out f t)"

definition do_callback :: "rf_env \<Rightarrow> nat \<Rightarrow> rat \<Rightarrow> rf_sys \<Rightarrow> rf_sys" where
  "do_callback w cb t s = (case add_callback w cb (fut s) of (r, out, f) \<Rightarrow> after s (todos s) out f t)"

lemma start_reachable: "rf_reachable pol spec (request_start plan timeout spec)"
  unfolding request_start_def by (rule rf_reachable.start [where t = 0])

lemma do_item_reachable:
  "rf_reachable RetryPolicy spec s \<Longrightarrow> x \<in> set (todos s) \<Longrightarrow> env_ok w s t \<Longrightarrow> rf_reachable RetryPolicy spec (do_item w ans t x s)"
  unfolding do_item_def by (auto split: prod.split intro: rf_reachable.step rf_step.item)

lemma do_timer_reachable:
  "rf_reachable RetryPolicy spec s \<Longrightarrow> f_armed (fut s) = Some (SpeculativeTimer d) \<or> f_armed (fut s) = Some (TimeoutTimer d) \<Longrightarrow> d \<le> t
    \<Longrightarrow> env_ok w s t \<Longrightarrow> rf_reachable RetryPolicy spec (do_timer w t s)"
  unfolding do_timer_def by (auto split: prod.split intro: rf_reachable.step rf_step.timer)

lemma do_callback_reachable:
  "rf_reachable RetryPolicy spec s \<Longrightarrow> env_ok w s t \<Longrightarrow> rf_reachable RetryPolicy spec (do_callback w cb t s)"
  unfolding do_callback_def by (auto split: prod.split intro: rf_reachable.step rf_step.callback)

lemmas example_defs = example_env_def request_start_def do_item_def do_timer_def do_callback_def after_def future_init_def start_timer_def
  next_execution_def spec_new_plan_def op_defs env_ok_def fire_timer_def

text \<open>A request with two hosts: the first one is down, the second one gets the request.\<close>

definition example_sent :: rf_sys where
  "example_sent = do_item (example_env (\<lambda>k. if k = 0 then NoPool else Sends 0 5) 1 True) (Failure ConnectionShutdown) 1 Start
     (request_start [1, 2] (Some 10) (spec_new_plan 0 0))"

lemma example_sent_reachable: "rf_reachable RetryPolicy (spec_new_plan 0 0) example_sent"
  unfolding example_sent_def
  by (rule do_item_reachable [OF start_reachable]) (simp_all add: request_start_def env_ok_def example_env_def)

lemma example_sent_eval:
  "todos example_sent = [Awaiting 2 0 5 (Execute None None)]"
  "hist example_sent = [Borrowed 2 0, Sent 2 0 5 (Execute None None)]"
  "f_event (fut example_sent) = False" "now example_sent = 1" "deadline example_sent = Some 10" "planned example_sent = 2"
  by (simp_all add: example_sent_def example_defs send_request_def query_def set_error_def message_of_def late_def)

section \<open>Exactly one thing to wait for\<close>

text \<open>
  \<open>baton n\<close>: of the items that were opened and the end of the request there are \<open>n\<close>; without
  speculative executions, with the timeout \<open>d\<close> from \<open>t0\<close> on.
\<close>

definition plain_request :: "rat option \<Rightarrow> rat \<Rightarrow> future \<Rightarrow> bool" where
  "plain_request d t0 f \<longleftrightarrow> f_timeout f = d \<and> f_start f = t0 \<and> remaining (f_spec f) \<le> 0
     \<and> (f_armed f = None \<or> (\<exists>x. d = Some x \<and> f_armed f = Some (TimeoutTimer (t0 + x))))"

definition baton :: "rat option \<Rightarrow> rat \<Rightarrow> nat \<Rightarrow> future \<Rightarrow> rf_action list \<Rightarrow> bool" where
  "baton d t0 n f out \<longleftrightarrow> plain_request d t0 f \<and> length (opened out) + of_bool (f_event f) = n
     \<and> count_list out EventSet = count_list out EventClear + of_bool (f_event f)
     \<and> (f_event f \<longleftrightarrow> f_result f \<noteq> None \<or> f_exception f \<noteq> None) \<and> (f_result f = None \<or> f_exception f = None)"

text \<open>A step in time whose environment does not raise.\<close>

definition calm :: "rat option \<Rightarrow> rat \<Rightarrow> rf_env \<Rightarrow> bool" where
  "calm d t0 w \<longleftrightarrow> (\<forall>cb. callback_raises w cb = None) \<and> (\<forall>k x. d = Some x \<longrightarrow> clock w k < t0 + x)"

definition handed :: "rat option \<Rightarrow> rat \<Rightarrow> rf_exn + 'a \<Rightarrow> future \<Rightarrow> rf_action list \<Rightarrow> bool" where
  "handed d t0 r f out \<longleftrightarrow> (\<exists>x. r = Inr x) \<and> baton d t0 1 f out"

lemma handed_simps [simp]: "handed d t0 (Inr x) f out \<longleftrightarrow> baton d t0 1 f out" "\<not> handed d t0 (Inl e) f out"
  by (simp_all add: handed_def)

abbreviation hands_on :: "rat option \<Rightarrow> rat \<Rightarrow> 'a fop \<Rightarrow> bool" where
  "hands_on d t0 m \<equiv> triple (baton d t0 0) m (handed d t0)"

text \<open>Inside the \<open>try\<close> of \<open>_set_result\<close>: an exception comes before the end of the request.\<close>

definition handed_or_raised :: "rat option \<Rightarrow> rat \<Rightarrow> rf_exn + 'a \<Rightarrow> future \<Rightarrow> rf_action list \<Rightarrow> bool" where
  "handed_or_raised d t0 r f out \<longleftrightarrow> baton d t0 (case r of Inl _ \<Rightarrow> 0 | Inr _ \<Rightarrow> 1) f out"

lemma handed_or_raised_simps [simp]:
  "handed_or_raised d t0 (Inr x) f out \<longleftrightarrow> baton d t0 1 f out" "handed_or_raised d t0 (Inl e) f out \<longleftrightarrow> baton d t0 0 f out"
  by (simp_all add: handed_or_raised_def)

abbreviation hands_or_raises :: "rat option \<Rightarrow> rat \<Rightarrow> 'a fop \<Rightarrow> bool" where
  "hands_or_raises d t0 m \<equiv> triple (baton d t0 0) m (handed_or_raised d t0)"

named_theorems hands \<open>operations that hand the baton on\<close>

lemma run_user_run:
  assumes "\<And>cb. callback_raises w cb = None"
  shows "run_user w act cbs f = (Inr (), map act cbs, f)"
  using assms by (induction cbs) (simp_all add: run_user_def op_defs)

lemma set_final_result_run:
  assumes "\<And>cb. callback_raises w cb = None"
  shows "set_final_result w r f = (Inr (), EventSet # map (\<lambda>cb. RunCallback cb r) (f_callbacks f),
    f\<lparr>f_armed := if f_timer f \<noteq> None then None else f_armed f, f_result := Some r, f_event := True\<rparr>)"
  using assms by (simp add: set_final_result_def run_user_run cancel_timer_def op_defs)

lemma set_final_exception_run:
  assumes "\<And>cb. callback_raises w cb = None"
  shows "set_final_exception w e f = (Inr (), EventSet # map (\<lambda>cb. RunErrback cb e) (f_errbacks f),
    f\<lparr>f_armed := if f_timer f \<noteq> None then None else f_armed f, f_exception := Some e, f_event := True\<rparr>)"
  using assms by (simp add: set_final_exception_def run_user_run cancel_timer_def op_defs)

lemma opened_users [simp]:
  "opened (map (\<lambda>cb. RunCallback cb r) cbs) = []" "opened (map (\<lambda>cb. RunErrback cb e) cbs) = []"
  by (induction cbs) simp_all

lemma count_users [simp]:
  "count_list (map (\<lambda>cb. RunCallback cb r) cbs) EventSet = 0" "count_list (map (\<lambda>cb. RunErrback cb e) cbs) EventSet = 0"
  "count_list (map (\<lambda>cb. RunCallback cb r) cbs) EventClear = 0" "count_list (map (\<lambda>cb. RunErrback cb e) cbs) EventClear = 0"
  by (induction cbs) simp_all

lemma set_final_result_hands [hands]: "calm d t0 w \<Longrightarrow> hands_on d t0 (set_final_result w r)"
  by (auto simp: triple_def set_final_result_run calm_def baton_def plain_request_def)

lemma set_final_exception_hands [hands]: "calm d t0 w \<Longrightarrow> hands_on d t0 (set_final_exception w e)"
  by (auto simp: triple_def set_final_exception_run calm_def baton_def plain_request_def)

lemma hands_weaken: "hands_on d t0 m \<Longrightarrow> hands_or_raises d t0 m"
  by (erule triple_weaken) (auto simp: handed_def)

text \<open>Changes of the rest of the future do not matter.\<close>

definition baton_view :: "future \<Rightarrow> _" where
  "baton_view f = (f_timeout f, f_start f, f_spec f, f_armed f, f_event f, f_result f, f_exception f)"

lemma baton_cong: "baton_view f' = baton_view f \<Longrightarrow> baton d t0 n f' out \<longleftrightarrow> baton d t0 n f out"
  by (simp add: baton_view_def baton_def plain_request_def)

lemma modify_keeps: "(\<And>f. baton_view (g f) = baton_view f) \<Longrightarrow> keeps (baton d t0 n) (op_modify g)"
  by (rule keeps_modify) (simp add: baton_cong [of "g f" f for f])

lemma emit_keeps:
  "opened out' = [] \<Longrightarrow> count_list out' EventSet = count_list out' EventClear \<Longrightarrow> keeps (baton d t0 n) (op_emit out')"
  by (rule keeps_emit) (auto simp: baton_def)

lemma set_error_keeps: "keeps (baton d t0 n) (set_error host e)"
  unfolding set_error_def by (rule modify_keeps) (simp add: baton_view_def)

lemma set_error_never [never]: "never_raises (set_error host e)"
  by (simp add: set_error_def never_basic)

lemma query_never [never]: "never_raises (query a host message)"
  by (auto simp: query_def set_error_def never_raises_def op_defs split: pool_answer.split)

text \<open>A request that goes out is what is waited for; one that does not leaves all as it was.\<close>

lemma query_baton:
  "triple (baton d t0 0) (query a host message) (\<lambda>r f out. \<exists>x. r = Inr x \<and> baton d t0 (if x = None then 0 else 1) f out)"
  by (cases a) (auto simp: triple_def query_def set_error_def op_defs baton_def plain_request_def)

lemma baton_on_time:
  assumes "calm d t0 w" "baton d t0 n f out"
  shows "\<not> late f (clock w k)"
proof (cases d)
  case (Some x)
  then have "clock w k < t0 + x" using assms(1) by (simp add: calm_def)
  moreover have "f_timeout f = Some x" "f_start f = t0" using assms(2) Some by (simp_all add: baton_def plain_request_def)
  ultimately show ?thesis by (simp add: late_def)
qed (use assms(2) in \<open>simp add: late_def baton_def plain_request_def\<close>)

text \<open>What the loop over the plan leaves: a request that is waited for, or the baton.\<close>

definition sent_or_not :: "rat option \<Rightarrow> rat \<Rightarrow> rf_exn + bool \<Rightarrow> future \<Rightarrow> rf_action list \<Rightarrow> bool" where
  "sent_or_not d t0 r f out \<longleftrightarrow> (\<exists>x. r = Inr x \<and> baton d t0 (of_bool x) f out)"

lemma sent_or_not_simps [simp]:
  "sent_or_not d t0 (Inr x) f out \<longleftrightarrow> baton d t0 (of_bool x) f out" "\<not> sent_or_not d t0 (Inl e) f out"
  by (simp_all add: sent_or_not_def)

lemma send_loop_baton:
  assumes "calm d t0 w"
  shows "triple (baton d t0 0) (send_loop w k hosts) (sent_or_not d t0)"
proof (induction hosts arbitrary: k)
  case Nil
  show ?case unfolding send_loop.simps by (rule triple_return) simp
next
  case (Cons host hosts)
  define next_try where "next_try = (\<lambda>over. if over then op_then (on_timeout w) (op_return True) else send_loop w (Suc k) hosts)"
  define rest where "rest = (\<lambda>r. case r of
          Some n \<Rightarrow> op_then (op_modify (\<lambda>f. f\<lparr>f_req_id := Some n\<rparr>)) (op_return True)
        | None \<Rightarrow> op_bind (op_read (\<lambda>f. late f (clock w k))) next_try)"
  have "triple (\<lambda>f out. baton d t0 0 f out \<and> late f (clock w k) = over) (next_try over) (sent_or_not d t0)" for over
    unfolding next_try_def
  proof (rule triple_if)
    show "triple (\<lambda>f out. baton d t0 0 f out \<and> late f (clock w k) = over) (send_loop w (Suc k) hosts) (sent_or_not d t0)"
      by (rule triple_pre [OF Cons.IH]) simp
  qed (rule triple_false, use baton_on_time [OF assms] in blast)
  then have "triple (baton d t0 0) (rest None) (sent_or_not d t0)"
    unfolding rest_def option.case by (rule triple_read)
  moreover have "triple (baton d t0 1) (rest (Some n)) (sent_or_not d t0)" for n
    unfolding rest_def option.case
    by (auto simp: triple_def op_defs baton_cong [of "f\<lparr>f_req_id := Some n\<rparr>" f for f] baton_view_def)
  ultimately have rest: "triple (baton d t0 (if r = None then 0 else 1)) (rest r) (sent_or_not d t0)" for r
    by (cases r) simp_all
  have plan: "keeps (baton d t0 0) (op_modify (\<lambda>f. f\<lparr>f_plan := hosts\<rparr>))"
    by (rule modify_keeps) (simp add: baton_view_def)
  have ask: "triple (baton d t0 0) (op_bind (query (answers w k) host message) rest) (sent_or_not d t0)" for message
  proof (rule triple_bind [OF query_baton])
    show "triple (\<lambda>f out. \<exists>y. Inr x = Inr y \<and> baton d t0 (if y = None then 0 else 1) f out) (rest x) (sent_or_not d t0)" for x
      by (rule triple_pre [OF rest]) simp
  qed simp
  show ?case unfolding send_loop.simps rest_def [symmetric] next_try_def [symmetric]
    by (rule triple_then_never [OF never_basic(3) plan], rule triple_bind_never [OF never_basic(2) keeps_read ask])
qed

lemma send_request_hands [hands]:
  assumes "calm d t0 w"
  shows "hands_on d t0 (send_request w k True)"
proof -
  have "triple (baton d t0 (of_bool sent)) (if sent then op_return True
       else op_then (op_when True (op_bind (op_read f_errors) (\<lambda>errors. set_final_exception w (NoHostAvailable errors))))
         (op_return False)) (handed d t0)" for sent
    using assms by (cases sent)
      (auto simp: triple_def op_defs set_final_exception_run calm_def baton_def plain_request_def)
  then have "triple (sent_or_not d t0 (Inr sent)) (if sent then op_return True
       else op_then (op_when True (op_bind (op_read f_errors) (\<lambda>errors. set_final_exception w (NoHostAvailable errors))))
         (op_return False)) (handed d t0)" for sent
    by (rule triple_pre) simp
  then show ?thesis unfolding send_request_def
    by (intro triple_bind_never [OF never_basic(2) keeps_read] triple_bind [OF send_loop_baton [OF assms]]) simp_all
qed

lemma hands_return: "hands_on d t0 m \<Longrightarrow> hands_on d t0 (op_then m (op_return x))"
  unfolding op_then_def by (erule triple_bind) (auto intro: triple_return)

lemma hands_then: "never_raises m \<Longrightarrow> keeps (baton d t0 0) m \<Longrightarrow> hands_on d t0 m' \<Longrightarrow> hands_on d t0 (op_then m m')"
  by (rule triple_then_never)

lemma hands_read: "(\<And>x. hands_on d t0 (g x)) \<Longrightarrow> hands_on d t0 (op_bind (op_read h) g)"
  by (rule triple_bind_never [OF never_basic(2) keeps_read])

lemma baton_not_failed: "baton d t0 0 f out \<Longrightarrow> f_exception f = None"
  by (auto simp: baton_def)

lemma hands_not_failed:
  assumes "hands_on d t0 m"
  shows "hands_on d t0 (op_bind (op_read f_exception) (\<lambda>failed. op_when (failed = None) m))"
proof (rule triple_read)
  fix x
  show "triple (\<lambda>f out. baton d t0 0 f out \<and> f_exception f = x) (op_when (x = None) m) (handed d t0)"
  proof (cases x)
    case None
    then show ?thesis unfolding op_when_def by (simp only: if_True refl) (rule triple_pre [OF assms], simp)
  next
    case Some
    then show ?thesis by (intro triple_false) (auto dest: baton_not_failed)
  qed
qed

lemma emit_hands: "length (opened out') = 1 \<Longrightarrow> EventSet \<notin> set out' \<Longrightarrow> EventClear \<notin> set out' \<Longrightarrow> hands_on d t0 (op_emit out')"
  by (auto simp: triple_def op_emit_def baton_def count_notin)

lemma retry_hands [hands]: "hands_on d t0 (retry reuse cl host)"
  unfolding retry_def
proof (rule hands_not_failed, rule hands_then)
  show "keeps (baton d t0 0) (op_when (cl \<noteq> None) (op_modify (\<lambda>f. f\<lparr>f_consistency := cl\<rparr>)))"
    by (intro keeps_when modify_keeps) (simp add: baton_view_def)
qed (auto intro: never emit_hands)

text \<open>The request that was sent, or the rest of the plan.\<close>

lemma query_or_plan_hands:
  assumes "calm d t0 w"
  shows "hands_on d t0 (op_bind (query a host message) (\<lambda>r.
     if r \<noteq> None then op_return () else op_then (send_request w 1 True) (op_return ())))"
proof (rule triple_bind [OF query_baton])
  fix x
  show "triple (\<lambda>f out. \<exists>y. Inr x = Inr y \<and> baton d t0 (if y = None then 0 else 1) f out)
      (if x \<noteq> None then op_return () else op_then (send_request w 1 True) (op_return ()))
      (handed d t0)"
  proof (rule triple_if)
    show "triple (\<lambda>f out. \<exists>y. Inr x = Inr y \<and> baton d t0 (if y = None then 0 else 1) f out)
      (op_then (send_request w 1 True) (op_return ())) (handed d t0)" if "\<not> x \<noteq> None"
      using that by (intro triple_pre [OF hands_return [OF send_request_hands [OF assms]]]) simp
  qed (auto intro: triple_return)
qed simp

lemma send_again_hands [hands]: "calm d t0 w \<Longrightarrow> hands_on d t0 (send_again w host)"
  unfolding send_again_def by (rule hands_read) (rule query_or_plan_hands)

lemma reprepare_hands [hands]: "calm d t0 w \<Longrightarrow> hands_on d t0 (reprepare w q ks host c)"
  unfolding reprepare_def by (rule query_or_plan_hands)

lemma retry_task_hands [hands]:
  assumes "calm d t0 w"
  shows "hands_on d t0 (retry_task w reuse host)"
  unfolding retry_task_def
  by (rule hands_not_failed) (intro triple_if send_again_hands hands_return send_request_hands assms)

lemma after_prepare_hands: "calm d t0 w \<Longrightarrow> hands_on d t0 (after_prepare w host ans)"
  unfolding after_prepare_def
  by (auto split: answer.split response.split result.split exn.split
      intro!: hands_then hands_return send_again_hands send_request_hands set_final_exception_hands set_error_keeps set_error_never
        never modify_keeps simp: baton_view_def)

lemma execute_after_prepare_hands [hands]: "calm d t0 w \<Longrightarrow> hands_on d t0 (execute_after_prepare w host c ans)"
  unfolding execute_after_prepare_def
  by (intro hands_then never emit_keeps hands_not_failed after_prepare_hands) simp_all

lemma refresh_schema_hands [hands]: "calm d t0 w \<Longrightarrow> hands_on d t0 (refresh_schema_and_set_result w agreed)"
  unfolding refresh_schema_and_set_result_def
  by (cases agreed) (auto intro!: hands_then set_final_result_hands never modify_keeps keeps_return simp: baton_view_def)

lemma set_keyspace_completed_hands [hands]: "calm d t0 w \<Longrightarrow> hands_on d t0 (set_keyspace_completed w failed)"
  unfolding set_keyspace_completed_def by (intro triple_if hands)

text \<open>The response.\<close>

lemma decided_hands: "calm d t0 w \<Longrightarrow> hands_on d t0 (decided w host e dec)"
proof -
  assume calm: "calm d t0 w"
  have err: "triple (\<lambda>f out. baton d t0 1 f out) (set_error host (OfConn e)) (handed d t0)"
    unfolding set_error_def by (auto simp: triple_def op_modify_def baton_cong [of "f\<lparr>f_errors := z\<rparr>" f for f z] baton_view_def)
  have again: "hands_on d t0 (op_then (op_modify (\<lambda>f. f\<lparr>f_retries := f_retries f + 1\<rparr>)) (retry reuse cl host))" for reuse cl
    by (intro hands_then never modify_keeps retry_hands) (simp add: baton_view_def)
  obtain t cl where dec: "dec = (t, cl)" by (cases dec) auto
  have "hands_on d t0 (case t of
          RETHROW \<Rightarrow> set_final_exception w (Exn e)
        | IGNORE \<Rightarrow> set_final_result w NoResult
        | _ \<Rightarrow> op_then (op_modify (\<lambda>f. f\<lparr>f_retries := f_retries f + 1\<rparr>)) (retry (t = RETRY) cl host))"
    using calm again by (cases t) (simp_all add: set_final_exception_hands set_final_result_hands)
  then show ?thesis unfolding decided_def dec case_prod_conv op_then_def
    by (rule triple_bind) (auto intro: triple_pre [OF err])
qed

lemma raise_hands: "hands_or_raises d t0 (op_raise e)"
  by (auto simp: triple_def op_raise_def)

lemma statement_for_keeps: "keeps (baton d t0 0) (statement_for w query_id)"
  unfolding statement_for_def
  by (intro triples emit_keeps) (auto intro!: triples emit_keeps split: option.split)

lemma prepare_again_hands:
  assumes "calm d t0 w"
  shows "hands_or_raises d t0 (prepare_again w host c query_id)"
  unfolding prepare_again_def
proof (rule triple_bind [OF statement_for_keeps])
  fix p
  show "hands_or_raises d t0 (op_bind (op_read (\<lambda>f. case f_connection f of Some (h, c) \<Rightarrow> keyspace_of w h c | None \<Rightarrow> None)) (\<lambda>current_keyspace.
       let flag = uses_keyspace_flag (cluster_version w); given = (ps_keyspace p \<noteq> None \<and> ps_keyspace p \<noteq> Some [])
       in if \<not> flag \<and> given \<and> current_keyspace \<noteq> ps_keyspace p then set_final_exception w (Exn (PyError ValueError))
          else op_emit [SubmitTask (Reprepare (ps_query_string p) (if flag then ps_keyspace p else None) host c)]))"
    unfolding Let_def
    by (intro hands_weaken hands_read triple_if set_final_exception_hands assms emit_hands) simp_all
qed simp

lemma on_error_hands:
  assumes "calm d t0 w"
  shows "hands_or_raises d t0 (on_error w pol host c code msg info)"
proof -
  note rules = hands_weaken [OF decided_hands [OF assms]] hands_weaken [OF retry_hands]
    hands_weaken [OF set_final_exception_hands [OF assms]] prepare_again_hands [OF assms]
  show ?thesis unfolding on_error_def Let_def
    by (rule triple_bind_never [OF never_basic(2) keeps_read])
      (cases "error_class_of code"; cases info; simp only: prod.case error_class.case error_info.case rules)
qed

lemma on_result_hands:
  assumes "calm d t0 w"
  shows "hands_or_raises d t0 (on_result w host c r)"
proof (cases r)
  case (RowsResult rows)
  then show ?thesis unfolding on_result_def
    by (auto intro!: triple_then_never [OF never_basic(3) modify_keeps] raise_hands hands_weaken [OF set_final_result_hands [OF assms]]
        simp: baton_view_def split: option.split)
next
  case (SchemaChangeResult change)
  then show ?thesis unfolding on_result_def
    by (auto intro!: hands_weaken hands_then never modify_keeps emit_hands simp: baton_view_def)
qed (auto simp: on_result_def intro!: hands_weaken emit_hands set_final_result_hands assms)

lemma defunct_keeps: "keeps (baton d t0 n) (defunct_connection e)"
  unfolding defunct_connection_def by (auto intro!: triples emit_keeps split: option.split)

lemma on_response_hands:
  assumes "calm d t0 w"
  shows "hands_or_raises d t0 (on_response w pol host c ans)"
proof -
  have drop: "hands_or_raises d t0 (op_then (defunct_connection e) m)" if "hands_on d t0 m" for e and m :: "unit fop"
    unfolding op_then_def by (rule triple_bind [OF defunct_keeps]) (use hands_weaken [OF that] in auto)
  have timer: "keeps (baton d t0 0) cancel_timer"
    unfolding cancel_timer_def by (rule keeps_modify) (auto simp: baton_def plain_request_def)
  have odd: "hands_or_raises d t0 (op_then cancel_timer (op_then (defunct_connection ConnectionException)
                (set_final_exception w (Exn ConnectionException))))"
    using timer by (intro triple_then_never [OF _ _ drop] set_final_exception_hands assms) (auto simp: cancel_timer_def never_basic)
  note rules = on_result_hands [OF assms] on_error_hands [OF assms] odd drop [OF retry_hands] hands_weaken [OF retry_hands]
    hands_weaken [OF set_final_exception_hands [OF assms]]
  show ?thesis unfolding on_response_def
    by (simp add: rules split: answer.split response.split exn.split)
qed

lemma set_result_hands [hands]:
  assumes "calm d t0 w"
  shows "hands_on d t0 (set_result w pol host c ans)"
  unfolding set_result_def
proof (rule triple_catch)
  have noted: "keeps (baton d t0 0) (op_modify (note_response host ans))"
    by (rule modify_keeps) (simp add: baton_view_def note_response_def split: answer.split)
  show "hands_or_raises d t0 (op_then (op_emit [Returned (Some host) host c])
       (op_then (op_modify (note_response host ans)) (on_response w pol host c ans)))"
    by (intro triple_then_never [OF never_basic(4) emit_keeps] triple_then_never [OF never_basic(3) noted] on_response_hands assms) simp_all
  show "triple (handed_or_raised d t0 (Inl e)) (set_final_exception w e)
      (handed d t0)" for e :: rf_exn
    by (rule triple_pre [OF set_final_exception_hands [OF assms]]) simp
qed simp

lemma handle_hands: "calm d t0 w \<Longrightarrow> hands_on d t0 (handle w pol ans agreed failed x)"
  by (induction w pol ans agreed failed x rule: handle.induct)
    (simp_all only: handle.simps hands hands_return emit_hands, (intro emit_hands; simp)?)

text \<open>The state between two steps: one thing to wait for, or the end.\<close>

definition one_baton :: "rf_sys \<Rightarrow> rat option \<Rightarrow> rat \<Rightarrow> bool" where
  "one_baton s d t0 \<longleftrightarrow> deadline s = map_option (\<lambda>x. t0 + x) d \<and> plain_request d t0 (fut s)
     \<and> length (todos s) + of_bool (f_event (fut s)) = 1
     \<and> count_list (hist s) EventSet = count_list (hist s) EventClear + of_bool (f_event (fut s))
     \<and> (f_event (fut s) \<longleftrightarrow> f_result (fut s) \<noteq> None \<or> f_exception (fut s) \<noteq> None)
     \<and> (f_result (fut s) = None \<or> f_exception (fut s) = None)"

lemma in_time_calm:
  assumes "env_ok w s t" "deadline s = map_option (\<lambda>x. t0 + x) d" "in_time (after s rest out f' t)"
  shows "in_time s" "calm d t0 w"
  using assms by (auto simp: env_ok_def in_time_def after_def calm_def split: option.splits intro: le_less_trans)

lemma one_baton_after:
  assumes "one_baton s d t0" "baton d t0 1 f' out"
    "filter (\<lambda>x. \<not> (\<exists>a \<in> set out. forgets a x)) rest = []" "\<not> f_event (fut s)"
  shows "one_baton (after s rest out f' t) d t0"
  using assms by (auto simp: one_baton_def baton_def after_def)

lemma item_one_baton:
  assumes "one_baton s d t0" "x \<in> set (todos s)" "calm d t0 w" "handle w pol ans agreed failed x (fut s) = (r, out, f')"
  shows "one_baton (after s (remove1 x (todos s)) out f' t) d t0"
proof -
  have one: "todos s = [x]" "\<not> f_event (fut s)"
    using assms(1, 2) by (cases "todos s"; auto simp: one_baton_def)+
  have "baton d t0 0 (fut s) []" using assms(1) one(2) by (auto simp: one_baton_def baton_def)
  from tripleD [OF handle_hands [OF assms(3)] this assms(4)] have "baton d t0 1 f' out" by (simp add: handed_def)
  then show ?thesis using assms(1) one by (intro one_baton_after) simp_all
qed

text \<open>Callbacks and the timer.\<close>

lemma callback_one_baton:
  assumes "one_baton s d t0" "\<And>cb. callback_raises w cb = None" "m \<in> {add_callback w cb, add_errback w cb, clear_callbacks}"
    "m (fut s) = (r, out, f')"
  shows "one_baton (after s (todos s) out f' t) d t0"
proof -
  have "baton_view f' = baton_view (fut s) \<and> opened out = [] \<and> count_list out EventSet = 0 \<and> count_list out EventClear = 0
      \<and> (\<forall>a \<in> set out. \<forall>x. \<not> forgets a x)"
    using assms(2-4) by (auto simp: add_callback_def add_errback_def clear_callbacks_def run_user_run op_defs baton_view_def
        split: option.splits)
  moreover from this have "filter (\<lambda>x. \<not> (\<exists>a \<in> set out. forgets a x)) (todos s) = todos s" by (simp add: filter_id_conv)
  ultimately show ?thesis using assms(1) by (auto simp: one_baton_def after_def baton_view_def plain_request_def)
qed

lemma no_timer_in_time:
  assumes "one_baton s d t0" "in_time (after s rest out f' t)"
    "f_armed (fut s) = Some (SpeculativeTimer x) \<or> f_armed (fut s) = Some (TimeoutTimer x)" "x \<le> t"
  shows False
  using assms by (auto simp: one_baton_def plain_request_def in_time_def after_def)

text \<open>The next page.\<close>

lemma start_timer_plain: "plain_request d t0 f \<Longrightarrow> start_timer t f = (r, out, f') \<Longrightarrow> plain_request d t0 f'"
  by (auto simp: start_timer_def op_modify_def plain_request_def next_execution_def Let_def split: option.splits if_splits)

lemma start_timer_view:
  assumes "start_timer t f = (r, out, f')"
  shows "r = Inr ()" "out = []" "f_event f' = f_event f" "f_result f' = f_result f" "f_exception f' = f_exception f"
  using assms by (auto simp: start_timer_def op_modify_def Let_def split: option.splits if_splits prod.splits)

lemma page_run:
  assumes "f_paging_state f = Some p" "p \<noteq> []"
    "start_timer t (f\<lparr>f_plan := plan, f_message_paging := Some p, f_event := False, f_result := None, f_exception := None\<rparr>) = (r1, out1, f1)"
    "send_request w 0 True f1 = (Inr x, out2, f2)"
  shows "start_fetching_next_page w t plan f = (Inr (), EventClear # out2, f2)"
  using assms start_timer_view [OF assms(3)] by (simp add: start_fetching_next_page_def op_defs)

lemma page_one_baton:
  assumes "one_baton s d t0" "f_event (fut s)" "calm d t0 w" "start_fetching_next_page w t plan (fut s) = (r, out, f')"
  shows "one_baton (after s (todos s) out f' u) d t0"
proof (cases "f_paging_state (fut s) = None \<or> f_paging_state (fut s) = Some []")
  case True
  with assms(1, 4) show ?thesis by (auto simp: start_fetching_next_page_def op_defs one_baton_def after_def)
next
  case False
  then obtain p where p: "f_paging_state (fut s) = Some p" "p \<noteq> []" by auto
  let ?f = "fut s\<lparr>f_plan := plan, f_message_paging := Some p, f_event := False, f_result := None, f_exception := None\<rparr>"
  obtain r1 out1 f1 where f1: "start_timer t ?f = (r1, out1, f1)" by (cases "start_timer t ?f") auto
  have "plain_request d t0 ?f" using assms(1) by (simp add: one_baton_def plain_request_def)
  then have "baton d t0 0 f1 []"
    using start_timer_plain [OF _ f1] start_timer_view [OF f1] by (simp add: baton_def)
  moreover obtain r2 out2 f2 where f2: "send_request w 0 True f1 = (r2, out2, f2)" by (cases "send_request w 0 True f1") auto
  ultimately have "\<exists>x. r2 = Inr x" "baton d t0 1 f2 out2"
    using tripleD [OF send_request_hands [OF assms(3)], of f1 "[]"] by (auto simp: handed_def)
  moreover from this page_run [OF p f1] f2 assms(4) have "out = EventClear # out2" "f' = f2" by auto
  moreover have "todos s = []" using assms(1, 2) by (simp add: one_baton_def)
  ultimately show ?thesis using assms(1, 2) by (auto simp: one_baton_def baton_def after_def)
qed

lemma step_one_baton:
  assumes "rf_step pol s s'" "in_time s \<Longrightarrow> one_baton s d t0" "deadline s = map_option (\<lambda>x. t0 + x) d" "in_time s'"
  shows "one_baton s' d t0"
  using assms(1)
proof cases
  case (item x w t ans agreed failed r out f')
  with in_time_calm [OF item(3) assms(3)] assms(2, 4) show ?thesis by (metis item_one_baton)
next
  case (timer x t w r out f')
  with in_time_calm [OF timer(4) assms(3)] assms(2, 4) no_timer_in_time show ?thesis by metis
next
  case (callback w t m cb r out f')
  with in_time_calm [OF callback(2) assms(3)] assms(2, 4) callback_one_baton [of s d t0 w m cb r out f' t] show ?thesis
    by (auto simp: env_ok_def)
next
  case (page w t plan r out f')
  moreover have "one_baton (s1\<lparr>planned := n\<rparr>) d t0 = one_baton s1 d t0" "in_time (s1\<lparr>planned := n\<rparr>) = in_time s1" for s1 n
    by (simp_all add: one_baton_def in_time_def split: option.split)
  ultimately show ?thesis using in_time_calm [OF page(3) assms(3)] assms(2, 4) by (metis page_one_baton)
qed

lemma step_deadline: "rf_step pol s s' \<Longrightarrow> deadline s' = deadline s"
  by (erule rf_step.cases) (simp_all add: after_def)

lemma reachable_one_baton:
  assumes "rf_reachable pol spec s" "remaining spec \<le> 0"
  shows "\<exists>d t0. deadline s = map_option (\<lambda>x. t0 + x) d \<and> (in_time s \<longrightarrow> one_baton s d t0)"
  using assms(1)
proof induction
  case (start plan timeout t cl paging ps)
  let ?f = "\<lparr>f_plan = plan, f_timeout = timeout, f_start = t, f_errors = [], f_attempted = [], f_current_host = None,
        f_coordinator = None, f_connection = None, f_req_id = None, f_result = None, f_exception = None, f_event = False,
        f_callbacks = [], f_errbacks = [], f_retries = 0, f_timer = None, f_armed = None, f_spec = spec,
        f_paging_state = None, f_consistency = cl, f_message_paging = paging, f_traces = [], f_warnings = None,
        f_payload = None, f_schema_agreed = True, f_prepared = ps\<rparr>"
  obtain r out f where f: "start_timer t ?f = (r, out, f)" by (cases "start_timer t ?f") auto
  have "plain_request timeout t f" using assms(2) by (intro start_timer_plain [OF _ f]) (simp add: plain_request_def)
  moreover have "future_init plan timeout t spec cl paging ps = f" using f by (simp add: future_init_def)
  ultimately have "one_baton \<lparr>fut = future_init plan timeout t spec cl paging ps, todos = [Start], hist = [], now = t,
      deadline = map_option (\<lambda>x. t + x) timeout, planned = length plan\<rparr> timeout t"
    using start_timer_view [OF f] by (simp add: one_baton_def)
  then show ?case by (intro exI [of _ timeout] exI [of _ t]) simp
next
  case (step s s')
  then obtain d t0 where "deadline s = map_option (\<lambda>x. t0 + x) d" "in_time s \<Longrightarrow> one_baton s d t0" by auto
  with step_one_baton [OF step(2)] step_deadline [OF step(2)] show ?case by metis
qed



end
