(* ===== verification/Request_Accounting.thy ===== *)
theory Request_Accounting
  imports Response_Future
begin

text \<open>
  What a request of \<open>ResponseFuture\<close> does over its life: which connections it gives back, and how
  often it is sent. Both are relations between the future and the calls it made; the locales below
  hold the operations that keep such a relation.
\<close>

section \<open>Relations that every operation keeps\<close>

text \<open>
  A relation between a future and the calls it made, which does not look at most of the future
  and of the calls: then it is kept by everything but the operations that send requests.
\<close>

fun neutral :: "rf_action \<Rightarrow> bool" where
  "neutral (Borrowed h c) \<longleftrightarrow> False"
| "neutral (Sent h c n q) \<longleftrightarrow> False"
| "neutral (Returned p h c) \<longleftrightarrow> False"
| "neutral (Forgotten h c n) \<longleftrightarrow> False"
| "neutral (SubmitTask (RetryTask reuse h)) \<longleftrightarrow> \<not> reuse"
| "neutral (SubmitTask (ExecuteAfterPrepare h c ans)) \<longleftrightarrow> False"
| "neutral _ \<longleftrightarrow> True"

locale rf_effects =
  fixes P :: "future \<Rightarrow> rf_action list \<Rightarrow> bool"
  assumes modify: "\<And>g. (\<And>f. f_plan (g f) = f_plan f \<and> f_retries (g f) = f_retries f) \<Longrightarrow> keeps P (op_modify g :: unit fop)"
    and neutral_emit: "\<And>a. neutral a \<Longrightarrow> keeps P (op_emit [a] :: unit fop)"
begin

lemma run_user_keeps: "(\<And>cb. neutral (act cb)) \<Longrightarrow> keeps P (run_user w act cbs)"
  unfolding run_user_def by (auto intro!: triples neutral_emit split: option.split)

lemma cancel_timer_keeps: "keeps P cancel_timer"
  unfolding cancel_timer_def by (rule modify) simp

lemma final_result: "keeps P (set_final_result w r)"
  unfolding set_final_result_def by (intro triples cancel_timer_keeps modify neutral_emit run_user_keeps) simp_all

lemma final_exception: "keeps P (set_final_exception w e)"
  unfolding set_final_exception_def by (intro triples cancel_timer_keeps modify neutral_emit run_user_keeps) simp_all

lemma error_keeps: "keeps P (set_error host e)"
  unfolding set_error_def by (rule modify) simp

lemma next_host_retry: "keeps P (retry False cl host)"
  unfolding retry_def by (intro triples modify neutral_emit) simp_all

lemma statement_keeps: "keeps P (statement_for w query_id)"
  unfolding statement_for_def by (auto intro!: triples neutral_emit split: option.split)

lemma prepare_again_keeps: "keeps P (prepare_again w host c query_id)"
  unfolding prepare_again_def Let_def by (intro triples statement_keeps final_exception neutral_emit) simp

lemma result_keeps: "keeps P (on_result w host c r)"
  unfolding on_result_def by (cases r) (auto intro!: triples modify neutral_emit final_result split: option.split)

lemma defunct_connection_keeps: "keeps P (defunct_connection e)"
  unfolding defunct_connection_def by (auto intro!: triples neutral_emit split: option.split)

lemma noted: "keeps P (op_modify (note_response host ans) :: unit fop)"
  by (rule modify) (simp add: note_response_def split: answer.split)

lemma start_timer_keeps: "keeps P (start_timer t)"
  unfolding start_timer_def by (rule modify) (simp add: Let_def split: option.split prod.split)

lemma callback_keeps: "m \<in> {add_callback w cb, add_errback w cb, clear_callbacks} \<Longrightarrow> keeps P m"
  unfolding add_callback_def add_errback_def clear_callbacks_def
  by (auto intro!: triples modify run_user_keeps split: option.split)

lemma completed_keeps: "keeps P (set_keyspace_completed w failed)" "keeps P (refresh_schema_and_set_result w agreed)"
  unfolding set_keyspace_completed_def refresh_schema_and_set_result_def
  by (auto intro!: triples modify final_result final_exception split: option.split)

end

text \<open>
  With the operations that send, and the retries that the policy decides: \<open>k\<close> is the number of
  retries so far.
\<close>

definition decides :: "retry_policy \<Rightarrow> nat \<Rightarrow> decision \<Rightarrow> bool" where
  "decides pol k dec \<longleftrightarrow> (\<exists>cl m n. (\<exists>b. dec = rp_read_timeout pol cl m n b k) \<or> (\<exists>t. dec = rp_write_timeout pol cl t m n k)
     \<or> dec = rp_unavailable pol cl m n k)"

locale rf_predicate = rf_effects +
  fixes pol :: retry_policy
  assumes loop: "\<And>hosts w k. triple (\<lambda>f out. P f out \<and> f_plan f = hosts) (send_loop w k hosts) (\<lambda>_. P)"
    and timeout: "\<And>w. keeps P (on_timeout w)"
    and prepare_query: "\<And>a host q ks c. keeps P (query a host (Prepare q ks c))"
    and again: "\<And>k dec host. decides pol k dec \<Longrightarrow> fst dec \<in> {RETRY, RETRY_NEXT_HOST} \<Longrightarrow>
      triple (\<lambda>f out. P f out \<and> f_retries f = k)
        (op_then (op_modify (\<lambda>f. f\<lparr>f_retries := f_retries f + 1\<rparr>)) (retry (fst dec = RETRY) (snd dec) host)) (\<lambda>_. P)"
begin

lemma send_request_keeps: "keeps P (send_request w k err)"
  unfolding send_request_def
proof (rule triple_read, rule triple_bind [OF loop])
  show "keeps P (if sent then op_return True
       else op_then (op_when err (op_bind (op_read f_errors) (\<lambda>errors. set_final_exception w (NoHostAvailable errors)))) (op_return False))"
    for sent by (intro triples final_exception)
qed simp

lemma reprepare_keeps: "keeps P (reprepare w q ks host c)"
  unfolding reprepare_def by (intro triples prepare_query send_request_keeps)

lemma decided_keeps:
  assumes "decides pol k dec"
  shows "triple (\<lambda>f out. P f out \<and> f_retries f = k) (decided w host e dec) (\<lambda>_. P)"
proof -
  obtain t cl where dec: "dec = (t, cl)" by (cases dec) auto
  have weaken: "keeps P m \<Longrightarrow> triple (\<lambda>f out. P f out \<and> f_retries f = k) m (\<lambda>_. P)" for m :: "unit fop"
    by (erule triple_pre) simp
  have "triple (\<lambda>f out. P f out \<and> f_retries f = k) (case t of
          RETHROW \<Rightarrow> set_final_exception w (Exn e)
        | IGNORE \<Rightarrow> set_final_result w NoResult
        | _ \<Rightarrow> op_then (op_modify (\<lambda>f. f\<lparr>f_retries := f_retries f + 1\<rparr>)) (retry (t = RETRY) cl host)) (\<lambda>_. P)"
    using again [OF assms] by (cases t) (simp_all add: weaken final_exception final_result dec)
  then show ?thesis unfolding decided_def dec case_prod_conv op_then_def
    by (rule triple_bind) (auto intro: error_keeps)
qed

lemma on_error_keeps: "keeps P (on_error w pol host c code msg info)"
proof -
  have other: "keeps P m \<Longrightarrow> triple (\<lambda>f out. P f out \<and> f_retries f = k) m (\<lambda>_. P)" for m :: "unit fop" and k
    by (erule triple_pre) simp
  have asked: "decides pol k (rp_read_timeout pol cl m n b k)" "decides pol k (rp_write_timeout pol cl t m n k)"
    "decides pol k (rp_unavailable pol cl m n k)" for k cl m n b t
    unfolding decides_def by blast+
  note rules = asked [THEN decided_keeps] other [OF next_host_retry] other [OF final_exception] other [OF prepare_again_keeps]
  show ?thesis unfolding on_error_def Let_def
    by (rule triple_read)
      (cases "error_class_of code"; cases info; simp only: prod.case error_class.case error_info.case rules)
qed

lemma on_response_keeps: "keeps P (on_response w pol host c ans)"
proof -
  note rules = result_keeps on_error_keeps next_host_retry final_exception
    keeps_then [OF defunct_connection_keeps next_host_retry]
    keeps_then [OF cancel_timer_keeps keeps_then [OF defunct_connection_keeps final_exception]]
  show ?thesis unfolding on_response_def by (simp add: rules split: answer.split response.split exn.split)
qed

lemma fire_timer_keeps: "keeps P (fire_timer w t)"
proof -
  have "keeps P (on_speculative_execute w t)"
    unfolding on_speculative_execute_def by (auto intro!: triples modify timeout send_request_keeps start_timer_keeps)
  then show ?thesis unfolding fire_timer_def
    by (auto intro!: triples modify timeout split: option.split rf_timer.split)
qed

end

section \<open>Connections that are given back\<close>

definition returned :: "rf_action list \<Rightarrow> nat \<Rightarrow> nat \<Rightarrow> nat" where
  "returned out h c = length (filter (\<lambda>a. \<exists>p. a = Returned p h c) out)"

text \<open>
  The items that will give a connection back: a response to a request gives back the connection it
  came on, the response to the preparation of a statement the one that is stored with it.
\<close>

fun owes :: "todo \<Rightarrow> nat \<Rightarrow> nat \<Rightarrow> bool" where
  "owes (Awaiting h c n (Execute cl paging)) h' c' \<longleftrightarrow> h = h' \<and> c = c'"
| "owes (Awaiting h c n (Prepare q ks c0)) h' c' \<longleftrightarrow> h = h' \<and> c0 = c'"
| "owes (Task (ExecuteAfterPrepare h c ans)) h' c' \<longleftrightarrow> h = h' \<and> c = c'"
| "owes _ h' c' \<longleftrightarrow> False"

definition still_owed :: "todo list \<Rightarrow> nat \<Rightarrow> nat \<Rightarrow> nat" where
  "still_owed xs h c = length (filter (\<lambda>x. owes x h c) xs)"

text \<open>A request that timed out, or a preparation sent on another connection than the one stored with it.\<close>

fun irregular :: "rf_action \<Rightarrow> bool" where
  "irregular (Forgotten h c n) \<longleftrightarrow> True"
| "irregular (Sent h c n (Prepare q ks c0)) \<longleftrightarrow> c \<noteq> c0"
| "irregular _ \<longleftrightarrow> False"

definition level :: "nat \<Rightarrow> nat \<Rightarrow> rf_action list \<Rightarrow> int" where
  "level h c out = int (count_list out (Borrowed h c)) - int (returned out h c) - int (still_owed (opened out) h c)"

definition regular_level :: "nat \<Rightarrow> nat \<Rightarrow> int \<Rightarrow> future \<Rightarrow> rf_action list \<Rightarrow> bool" where
  "regular_level h c v f out \<longleftrightarrow> (\<exists>a \<in> set out. irregular a) \<or> level h c out = v"

lemma level_append: "level h c (out @ out') = level h c out + level h c out'"
  by (simp add: level_def returned_def still_owed_def)

lemma level_emit: "(\<exists>a \<in> set out'. irregular a) \<or> level h c out' = x \<Longrightarrow>
   triple (regular_level h c v) (op_emit out') (\<lambda>_. regular_level h c (v + x))"
  by (auto simp: triple_def op_emit_def regular_level_def level_append)

lemma level_modify: "keeps (regular_level h c v) (op_modify g)"
  by (rule keeps_modify) (simp add: regular_level_def)

lemmas level_simps = level_def returned_def still_owed_def

lemma level_neutral:
  assumes "neutral a"
  shows "keeps (regular_level h c v) (op_emit [a])"
proof -
  have "level h c [a] = 0" using assms by (cases a rule: neutral.cases) (simp_all add: level_simps)
  from level_emit [OF disjI2 [OF this], of v] show ?thesis by simp
qed

text \<open>A request is borrowed for and then either still_owed or given back at once.\<close>

lemma query_level: "keeps (regular_level h c v) (query a host message)"
proof (cases a)
  case (Sends c' n)
  then show ?thesis
    by (cases message) (auto simp: triple_def query_def op_defs regular_level_def level_append, auto simp: level_simps split: if_splits)
qed (auto simp: triple_def query_def set_error_def op_defs regular_level_def level_append, auto simp: level_simps split: if_splits)

lemma on_timeout_level: "keeps (regular_level h c v) (on_timeout w)"
proof -
  have "keeps (regular_level h c v) (op_then (op_emit [Forgotten h' c' n]) m)" for h' c' n and m :: "unit fop"
    by (auto simp: triple_def op_then_def op_bind_def op_emit_def regular_level_def split: prod.splits)
  then show ?thesis unfolding on_timeout_def
    by (auto intro!: triples split: option.split prod.split)
qed

lemma send_loop_level: "keeps (regular_level h c v) (send_loop w k hosts)"
  by (induction hosts arbitrary: k)
    (auto intro!: triples level_modify query_level on_timeout_level split: option.split)

lemma retry_level: "keeps (regular_level h c v) (retry reuse cl host)"
proof -
  have "level h c [SubmitTask (RetryTask reuse host)] = 0" by (simp add: level_simps)
  from level_emit [OF disjI2 [OF this], of v] show ?thesis
    unfolding retry_def by (intro triples level_modify) simp
qed

interpretation given: rf_predicate "regular_level h c v" pol for h c v pol
proof unfold_locales
  fix k dec host
  show "triple (\<lambda>f out. regular_level h c v f out \<and> f_retries f = k)
      (op_then (op_modify (\<lambda>f. f\<lparr>f_retries := f_retries f + 1\<rparr>)) (retry (fst dec = RETRY) (snd dec) host)) (\<lambda>_. regular_level h c v)"
    by (rule triple_pre [OF keeps_then [OF level_modify retry_level]]) simp
qed (auto intro: triple_pre [OF send_loop_level] on_timeout_level query_level level_modify level_neutral)

lemma send_again_level: "keeps (regular_level h c v) (send_again w host)"
  unfolding send_again_def by (intro triples query_level given.send_request_keeps)

lemma retry_task_level: "keeps (regular_level h c v) (retry_task w reuse host)"
  unfolding retry_task_def by (intro triples send_again_level given.send_request_keeps)

lemma after_prepare_level: "keeps (regular_level h c v) (after_prepare w host ans)"
  unfolding after_prepare_def
  by (auto intro!: triples level_modify send_again_level given.send_request_keeps given.final_exception given.error_keeps
      split: answer.split response.split result.split exn.split)

lemma given_back: "triple (regular_level h c v) (op_emit [Returned (Some host) host c'])
    (\<lambda>_. regular_level h c (v - of_bool (host = h \<and> c' = c)))"
proof -
  have "level h c [Returned (Some host) host c'] = - of_bool (host = h \<and> c' = c)" by (auto simp: level_simps)
  from level_emit [OF disjI2 [OF this], of v] show ?thesis by (simp only: diff_conv_add_uminus)
qed

lemma set_result_level:
  "triple (regular_level h c v) (set_result w pol host c' ans) (\<lambda>_. regular_level h c (v - of_bool (host = h \<and> c' = c)))"
  unfolding set_result_def
  by (intro triple_catch [where R = "\<lambda>_. regular_level h c (v - of_bool (host = h \<and> c' = c))"]
      triple_then_never [OF never_basic(4) given_back] keeps_then level_modify given.on_response_keeps given.final_exception)

lemma execute_after_prepare_level:
  "triple (regular_level h c v) (execute_after_prepare w host c' ans) (\<lambda>_. regular_level h c (v - of_bool (host = h \<and> c' = c)))"
  unfolding execute_after_prepare_def
  by (intro triple_then_never [OF never_basic(4) given_back] triples after_prepare_level)

text \<open>Handling an item gives back what it owes.\<close>

lemma handle_level:
  "triple (regular_level h c v) (handle w pol ans agreed failed x) (\<lambda>_. regular_level h c (v - of_bool (owes x h c)))"
proof (induction w pol ans agreed failed x rule: handle.induct)
  case (3 w pol ans agreed failed h' c' n q ks c0)
  have "level h c [SubmitTask (ExecuteAfterPrepare h' c0 ans)] = - of_bool (owes (Awaiting h' c' n (Prepare q ks c0)) h c)"
    by (auto simp: level_simps)
  from level_emit [OF disjI2 [OF this], of v] show ?case by (simp only: diff_conv_add_uminus handle.simps)
qed (simp_all only: handle.simps owes.simps of_bool_eq diff_zero set_result_level execute_after_prepare_level
    keeps_then [OF given.send_request_keeps keeps_return] retry_task_level given.reprepare_keeps given.completed_keeps)

lemma page_level: "keeps (regular_level h c v) (start_fetching_next_page w t plan)"
  unfolding start_fetching_next_page_def
  by (intro triples level_modify level_neutral given.start_timer_keeps given.send_request_keeps) simp

definition balanced :: "nat \<Rightarrow> nat \<Rightarrow> rf_sys \<Rightarrow> bool" where
  "balanced h c s \<longleftrightarrow> (\<exists>a \<in> set (hist s). irregular a)
     \<or> count_list (hist s) (Borrowed h c) = returned (hist s) h c + still_owed (todos s) h c"

lemma forgets_irregular: "forgets a x \<Longrightarrow> irregular a"
  by (cases a; cases x) simp_all

lemma after_balanced:
  assumes "balanced h c s" "regular_level h c (- k) f' out" "int (still_owed rest h c) + k = int (still_owed (todos s) h c)"
  shows "balanced h c (after s rest out f' t)"
proof (cases "\<exists>a \<in> set (hist s @ out). irregular a")
  case False
  then have "\<forall>a \<in> set out. \<forall>x. \<not> forgets a x" using forgets_irregular by auto
  then have "filter (\<lambda>x. \<not> (\<exists>a \<in> set out. forgets a x)) rest = rest" by (simp add: filter_id_conv)
  moreover have "level h c out = - k" using False assms(2) by (auto simp: regular_level_def)
  moreover have "count_list (hist s) (Borrowed h c) = returned (hist s) h c + still_owed (todos s) h c"
    using False assms(1) by (auto simp: balanced_def)
  ultimately show ?thesis using assms(3) by (simp add: balanced_def after_def level_def returned_def still_owed_def)
qed (auto simp: balanced_def after_def)

lemma balanced_planned: "balanced h c (s\<lparr>planned := n\<rparr>) = balanced h c s"
  by (simp add: balanced_def)

lemma still_owed_remove1: "x \<in> set xs \<Longrightarrow> int (still_owed (remove1 x xs) h c) + of_bool (owes x h c) = int (still_owed xs h c)"
  by (induction xs) (auto simp: still_owed_def)

lemma level_start: "regular_level h c 0 f []"
  by (simp add: regular_level_def level_simps)

lemma step_balanced: "rf_step pol s s' \<Longrightarrow> balanced h c s \<Longrightarrow> balanced h c s'"
proof (induction rule: rf_step.induct)
  case (item x s w t ans agreed failed r out f')
  from tripleD [OF handle_level [where v = 0] level_start item(3)]
  have "regular_level h c (- of_bool (owes x h c)) f' out" by simp
  then show ?case by (rule after_balanced [OF item(4) _ still_owed_remove1 [OF item(1)]])
next
  case (timer s x t w r out f')
  from tripleD [OF given.fire_timer_keeps [where v = 0] level_start timer(4)] show ?case
    using timer(5) by (intro after_balanced [where k = 0]) simp_all
next
  case (callback w s t m cb r out f')
  from tripleD [OF given.callback_keeps [OF callback(2), where v = 0] level_start callback(3)] show ?case
    using callback(4) by (intro after_balanced [where k = 0]) simp_all
next
  case (page s w t plan r out f')
  from tripleD [OF page_level [where v = 0] level_start page(3)] show ?case
    unfolding balanced_planned using page(4) by (intro after_balanced [where k = 0]) simp_all
qed

lemma reachable_balanced: "rf_reachable pol spec s \<Longrightarrow> balanced h c s"
proof (induction rule: rf_reachable.induct)
  case start
  then show ?case by (simp add: balanced_def returned_def still_owed_def)
qed (rule step_balanced)



section \<open>The number of requests\<close>

fun executes :: "rf_action \<Rightarrow> bool" where
  "executes (Sent h c n (Execute cl paging)) \<longleftrightarrow> True"
| "executes _ \<longleftrightarrow> False"

definition executions :: "rf_action list \<Rightarrow> nat" where
  "executions out = length (filter executes out)"

text \<open>The tasks that send the request again to the host that had it.\<close>

fun sends_again :: "todo \<Rightarrow> bool" where
  "sends_again (Task (RetryTask reuse h)) \<longleftrightarrow> reuse"
| "sends_again (Task (ExecuteAfterPrepare h c ans)) \<longleftrightarrow> True"
| "sends_again _ \<longleftrightarrow> False"

definition same_host_tasks :: "todo list \<Rightarrow> nat" where
  "same_host_tasks xs = length (filter sends_again xs)"

definition budget :: "nat \<Rightarrow> future \<Rightarrow> rf_action list \<Rightarrow> bool" where
  "budget n f out \<longleftrightarrow> executions out + length (f_plan f) \<le> n"

lemma executions_append [simp]: "executions (out @ out') = executions out + executions out'" "executions [] = 0"
  by (simp_all add: executions_def)

lemma budget_modify: "(\<And>f. f_plan (g f) = f_plan f) \<Longrightarrow> keeps (budget n) (op_modify g)"
  by (rule keeps_modify) (simp add: budget_def)

lemma budget_emit: "executions out' = 0 \<Longrightarrow> keeps (budget n) (op_emit out')"
  by (rule keeps_emit) (simp add: budget_def)

lemma budget_mono: "budget n f out \<Longrightarrow> n \<le> m \<Longrightarrow> budget m f out"
  by (simp add: budget_def)

lemma budget_neutral: "neutral a \<Longrightarrow> keeps (budget n) (op_emit [a])"
  by (rule budget_emit) (cases a rule: neutral.cases; simp add: executions_def)

interpretation spent: rf_effects "budget n" for n
  by unfold_locales (simp_all add: budget_modify budget_neutral)

lemma query_budget: "triple (budget n) (query a host message) (\<lambda>_. budget (Suc n))"
  by (cases a) (auto simp: triple_def query_def set_error_def op_defs budget_def executions_def)

lemma query_prepare_budget: "keeps (budget n) (query a host (Prepare q ks c))"
  by (cases a) (auto simp: triple_def query_def set_error_def op_defs budget_def executions_def)

lemma on_timeout_budget: "keeps (budget n) (on_timeout w)"
  unfolding on_timeout_def
  by (auto intro!: triples budget_emit spent.final_exception split: option.split simp: executions_def)

lemma send_loop_budget: "triple (\<lambda>f out. budget n f out \<and> f_plan f = hosts) (send_loop w k hosts) (\<lambda>_. budget n)"
proof (induction hosts arbitrary: k)
  case Nil
  show ?case unfolding send_loop.simps by (rule triple_return) simp
next
  case (Cons host hosts)
  let ?P = "\<lambda>f out. executions out + Suc (length hosts) \<le> n \<and> f_plan f = hosts"
  let ?Q = "\<lambda>r f out. (r \<noteq> Inr None \<longrightarrow> budget n f out) \<and> (r = Inr None \<longrightarrow> ?P f out)"
  have tried: "triple ?P (query a host message) ?Q" for a message
    by (cases a) (auto simp: triple_def query_def set_error_def op_defs budget_def executions_def)
  have rest: "triple ?P (op_bind (op_read (\<lambda>f. late f (clock w k))) (\<lambda>over.
            if over then op_then (on_timeout w) (op_return True) else send_loop w (Suc k) hosts)) (\<lambda>_. budget n)"
    by (intro triple_bind_never [OF never_basic(2) keeps_read] triple_if triple_pre [OF Cons.IH]
        triple_pre [OF keeps_then [OF on_timeout_budget keeps_return]]) (simp_all add: budget_def)
  have sent: "triple (budget n) (op_then (op_modify (\<lambda>f. f\<lparr>f_req_id := Some m\<rparr>)) (op_return True)) (\<lambda>_. budget n)" for m
    by (intro triples budget_modify) simp
  have body: "triple ?P (op_bind (query (answers w k) host message) (\<lambda>r.
        case r of
          Some n \<Rightarrow> op_then (op_modify (\<lambda>f. f\<lparr>f_req_id := Some n\<rparr>)) (op_return True)
        | None \<Rightarrow> op_bind (op_read (\<lambda>f. late f (clock w k))) (\<lambda>over.
            if over then op_then (on_timeout w) (op_return True) else send_loop w (Suc k) hosts))) (\<lambda>_. budget n)" for message
    by (rule triple_bind [OF tried]) (auto split: option.split intro: triple_pre [OF rest] triple_pre [OF sent])
  show ?case unfolding send_loop.simps
    by (rule triple_modify_then [OF _ triple_bind_never [OF never_basic(2) keeps_read body]]) (auto simp: budget_def)
qed

lemma retry_budget: "keeps (budget n) (retry reuse cl host)"
  unfolding retry_def by (intro triples budget_modify budget_emit) (simp_all add: executions_def)

interpretation costs: rf_predicate "budget n" pol for n pol
proof unfold_locales
  fix k dec host
  show "triple (\<lambda>f out. budget n f out \<and> f_retries f = k)
      (op_then (op_modify (\<lambda>f. f\<lparr>f_retries := f_retries f + 1\<rparr>)) (retry (fst dec = RETRY) (snd dec) host)) (\<lambda>_. budget n)"
    by (rule triple_pre [OF keeps_then [OF budget_modify retry_budget]]) simp_all
qed (auto intro: send_loop_budget on_timeout_budget query_prepare_budget)

text \<open>Sending to the same host again costs one request more than the plan has.\<close>

lemma send_again_budget: "triple (budget n) (send_again w host) (\<lambda>_. budget (Suc n))"
  unfolding send_again_def
  by (intro triple_bind_never [OF never_basic(2) keeps_read] triple_bind [OF query_budget] triples costs.send_request_keeps)

lemma set_result_budget: "keeps (budget n) (set_result w pol host c ans)"
  unfolding set_result_def
  by (intro triples budget_emit spent.noted costs.on_response_keeps spent.final_exception) (simp add: executions_def)

lemma keeps_more: "keeps (budget n) m \<Longrightarrow> triple (budget n) m (\<lambda>_. budget (n + k))"
  by (erule triple_weaken) (auto intro: budget_mono)

lemma after_prepare_budget: "triple (budget n) (after_prepare w host ans) (\<lambda>_. budget (Suc n))"
proof -
  have more: "keeps (budget n) m \<Longrightarrow> triple (budget n) m (\<lambda>_. budget (Suc n))" for m :: "unit fop"
    using keeps_more [of n m 1] by simp
  have next_host: "keeps (budget n) (op_then (set_error host e) (op_then (send_request w k True) (op_return ())))" for e k
    by (intro triples spent.error_keeps costs.send_request_keeps)
  have again: "triple (budget n) (op_then (op_modify (\<lambda>f. f\<lparr>f_prepared := g (f_prepared f)\<rparr>)) (send_again w host)) (\<lambda>_. budget (Suc n))" for g
    by (rule triple_then_never [OF never_basic(3) budget_modify send_again_budget]) simp
  show ?thesis unfolding after_prepare_def
    by (simp add: again more next_host spent.final_exception split: answer.split response.split result.split exn.split)
qed

lemma handle_budget:
  "triple (budget n) (handle w pol ans agreed failed x) (\<lambda>_. budget (n + of_bool (sends_again x)))"
proof -
  have "triple (budget n) (retry_task w reuse host) (\<lambda>_. budget (n + of_bool reuse))" for reuse host
  proof (cases reuse)
    case True
    then show ?thesis unfolding retry_task_def op_when_def
      by (auto intro!: triple_bind_never [OF never_basic(2) keeps_read] send_again_budget keeps_more [of n "op_return ()" 1, simplified] keeps_return)
  next
    case False
    then show ?thesis unfolding retry_task_def by (auto intro!: triples costs.send_request_keeps)
  qed
  moreover have "triple (budget n) (execute_after_prepare w host c a) (\<lambda>_. budget (Suc n))" for host c a
    unfolding execute_after_prepare_def op_when_def
    by (intro triple_then_never [OF never_basic(4) budget_emit] triple_bind_never [OF never_basic(2) keeps_read] triple_if after_prepare_budget
        keeps_more [of n "op_return ()" 1, simplified] keeps_return) (simp add: executions_def)
  ultimately show ?thesis
    by (induction w pol ans agreed failed x rule: handle.induct)
      (auto simp: refresh_schema_and_set_result_def set_keyspace_completed_def reprepare_def executions_def split: option.split
        intro!: triples costs.send_request_keeps set_result_budget budget_emit budget_modify spent.final_result spent.final_exception
          query_prepare_budget)
qed

lemma page_budget: "triple (budget n) (start_fetching_next_page w t plan) (\<lambda>_. budget (n + length plan))"
proof -
  have fetch: "triple (budget n) (op_then (op_modify (\<lambda>f. f\<lparr>f_plan := plan, f_message_paging := p, f_event := False\<rparr>))
       (op_then (op_emit [EventClear])
       (op_then (op_modify (\<lambda>f. f\<lparr>f_result := None, f_exception := None\<rparr>))
       (op_then (start_timer t) (op_then (send_request w 0 True) (op_return ())))))) (\<lambda>_. budget (n + length plan))" for p
    by (rule triple_modify_then [of _ "budget (n + length plan)"])
      (auto simp: budget_def [of _ "f_plan_update f s" for f s] budget_def executions_def
        intro!: triples budget_emit budget_modify spent.start_timer_keeps costs.send_request_keeps)
  show ?thesis unfolding start_fetching_next_page_def
    by (rule triple_bind_never [OF never_basic(2) keeps_read], rule triple_if, rule keeps_more [OF keeps_raise], rule fetch)
qed

text \<open>The retries on the same host, of a policy that retries the first time only.\<close>

fun is_same_host_retry :: "rf_action \<Rightarrow> bool" where
  "is_same_host_retry (SubmitTask (RetryTask reuse h)) \<longleftrightarrow> reuse"
| "is_same_host_retry _ \<longleftrightarrow> False"

fun is_after_prepare :: "rf_action \<Rightarrow> bool" where
  "is_after_prepare (SubmitTask (ExecuteAfterPrepare h c ans)) \<longleftrightarrow> True"
| "is_after_prepare _ \<longleftrightarrow> False"

definition retries_of :: "rf_action list \<Rightarrow> nat" where
  "retries_of out = length (filter is_same_host_retry out)"

definition prepared_again :: "rf_action list \<Rightarrow> nat" where
  "prepared_again out = length (filter is_after_prepare out)"

definition retries_once :: "retry_policy \<Rightarrow> bool" where
  "retries_once pol \<longleftrightarrow> (\<forall>cl m n b t k. 0 < k \<longrightarrow>
     fst (rp_read_timeout pol cl m n b k) \<in> {RETHROW, IGNORE} \<and> fst (rp_write_timeout pol cl t m n k) \<in> {RETHROW, IGNORE}
     \<and> fst (rp_unavailable pol cl m n k) \<in> {RETHROW, IGNORE})"

lemma stock_policies_retry_once:
  "retries_once RetryPolicy" "retries_once FallthroughRetryPolicy" "retries_once DowngradingConsistencyRetryPolicy"
  by (simp_all add: retries_once_def RetryPolicy_def FallthroughRetryPolicy_def DowngradingConsistencyRetryPolicy_def
      retry_on_read_timeout_def retry_on_write_timeout_def retry_on_unavailable_def fallthrough_on_read_timeout_def
      fallthrough_on_write_timeout_def fallthrough_on_unavailable_def downgrading_on_read_timeout_def
      downgrading_on_write_timeout_def downgrading_on_unavailable_def)

definition few_retries :: "nat \<Rightarrow> future \<Rightarrow> rf_action list \<Rightarrow> bool" where
  "few_retries n f out \<longleftrightarrow> n + retries_of out \<le> f_retries f \<and> f_retries f \<le> 1"

lemma retries_modify: "(\<And>f. f_retries (g f) = f_retries f) \<Longrightarrow> keeps (few_retries n) (op_modify g)"
  by (rule keeps_modify) (simp add: few_retries_def)

lemma retries_neutral: "neutral a \<Longrightarrow> keeps (few_retries n) (op_emit [a])"
  by (rule keeps_emit, cases a rule: neutral.cases) (simp_all add: few_retries_def retries_of_def)

lemma retries_silent: "list_all (\<lambda>a. \<not> is_same_host_retry a) out' \<Longrightarrow> keeps (few_retries n) (op_emit out')"
  by (rule keeps_emit) (auto simp: few_retries_def retries_of_def list_all_iff filter_empty_conv)

lemma query_retries: "keeps (few_retries n) (query a host message)"
  unfolding query_def set_error_def
  by (cases a) (auto intro!: triples retries_modify retries_silent)

lemma few_retries_effects: "rf_effects (few_retries n)"
  by unfold_locales (simp_all add: retries_modify retries_neutral)

lemma on_timeout_retries: "keeps (few_retries n) (on_timeout w)"
  unfolding on_timeout_def
  by (auto intro!: triples retries_silent rf_effects.final_exception [OF few_retries_effects] split: option.split)

lemma send_loop_retries: "keeps (few_retries n) (send_loop w k hosts)"
  by (induction hosts arbitrary: k)
    (auto intro!: triples retries_modify query_retries on_timeout_retries split: option.split)

lemma first_retry:
  "triple (\<lambda>f out. few_retries n f out \<and> f_retries f = 0)
     (op_then (op_modify (\<lambda>f. f\<lparr>f_retries := f_retries f + 1\<rparr>)) (retry reuse cl host)) (\<lambda>_. few_retries n)"
  by (auto simp: triple_def retry_def op_defs few_retries_def retries_of_def)

lemma decides_first:
  assumes "retries_once pol" "decides pol k dec" "fst dec \<in> {RETRY, RETRY_NEXT_HOST}"
  shows "k = 0"
proof (rule ccontr)
  assume "k \<noteq> 0"
  then have "fst dec \<in> {RETHROW, IGNORE}" using assms(1, 2) unfolding retries_once_def decides_def by blast
  with assms(3) show False by auto
qed

lemma few_retries_predicate:
  assumes "retries_once pol"
  shows "rf_predicate (few_retries n) pol"
proof (intro rf_predicate.intro few_retries_effects, unfold_locales)
  fix k dec host
  assume *: "decides pol k dec" "fst dec \<in> {RETRY, RETRY_NEXT_HOST}"
  show "triple (\<lambda>f out. few_retries n f out \<and> f_retries f = k)
      (op_then (op_modify (\<lambda>f. f\<lparr>f_retries := f_retries f + 1\<rparr>)) (retry (fst dec = RETRY) (snd dec) host)) (\<lambda>_. few_retries n)"
    unfolding decides_first [OF assms *] by (rule first_retry)
qed (auto intro: triple_pre [OF send_loop_retries] on_timeout_retries query_retries)

lemma handle_retries:
  assumes "retries_once pol"
  shows "keeps (few_retries n) (handle w pol ans agreed failed x)"
proof -
  note eff = few_retries_effects [of n]
  note prd = few_retries_predicate [OF assms, of n]
  have again: "keeps (few_retries n) (send_again w host)" for host
    unfolding send_again_def by (intro triples query_retries rf_predicate.send_request_keeps [OF prd])
  have after: "keeps (few_retries n) (after_prepare w host a)" for host a
    unfolding after_prepare_def
    by (auto intro!: triples retries_modify again rf_predicate.send_request_keeps [OF prd] rf_effects.final_exception [OF eff]
        rf_effects.error_keeps [OF eff] split: answer.split response.split result.split exn.split)
  have response: "keeps (few_retries n) (set_result w pol host c a)" for host c a
    unfolding set_result_def
    by (intro triples retries_silent rf_effects.noted [OF eff] rf_predicate.on_response_keeps [OF prd] rf_effects.final_exception [OF eff]) simp
  show ?thesis
    by (cases "(w, pol, ans, agreed, failed, x)" rule: handle.cases)
      (auto intro!: triples retries_silent response after again rf_predicate.send_request_keeps [OF prd] rf_predicate.reprepare_keeps [OF prd]
        rf_effects.completed_keeps [OF eff] simp: retry_task_def execute_after_prepare_def)
qed

lemma page_retries: "retries_once pol \<Longrightarrow> keeps (few_retries n) (start_fetching_next_page w t plan)"
  unfolding start_fetching_next_page_def
  by (intro triples retries_modify retries_silent rf_effects.start_timer_keeps [OF few_retries_effects]
      rf_predicate.send_request_keeps [OF few_retries_predicate]) simp_all

text \<open>Both together, between two steps.\<close>

definition affordable :: "rf_sys \<Rightarrow> bool" where
  "affordable s \<longleftrightarrow> executions (hist s) + length (f_plan (fut s)) + same_host_tasks (todos s)
       \<le> planned s + retries_of (hist s) + prepared_again (hist s)
     \<and> retries_of (hist s) \<le> f_retries (fut s) \<and> f_retries (fut s) \<le> 1"

lemma opened_same_host: "same_host_tasks (opened out) = retries_of out + prepared_again out"
proof (induction out)
  case (Cons a out)
  have "same_host_tasks (opens a) = of_bool (is_same_host_retry a) + of_bool (is_after_prepare a)"
  proof (cases a)
    case (SubmitTask t)
    then show ?thesis by (cases t) (simp_all add: same_host_tasks_def)
  qed (simp_all add: same_host_tasks_def)
  with Cons show ?case by (simp add: same_host_tasks_def retries_of_def prepared_again_def)
qed (simp add: same_host_tasks_def retries_of_def prepared_again_def)

lemma same_host_append: "same_host_tasks (xs @ ys) = same_host_tasks xs + same_host_tasks ys"
  by (simp add: same_host_tasks_def)

lemma same_host_filter: "same_host_tasks (filter p xs) \<le> same_host_tasks xs"
  by (induction xs) (simp_all add: same_host_tasks_def)

lemma same_host_remove1: "x \<in> set xs \<Longrightarrow> same_host_tasks (remove1 x xs) + of_bool (sends_again x) = same_host_tasks xs"
  by (induction xs) (auto simp: same_host_tasks_def)

lemma after_affordable:
  assumes "affordable s" "budget (length (f_plan (fut s)) + k) f' out" "few_retries (retries_of (hist s)) f' out"
    "same_host_tasks rest + k \<le> same_host_tasks (todos s) + j"
  shows "affordable ((after s rest out f' t)\<lparr>planned := planned s + j\<rparr>)"
proof -
  have "same_host_tasks (todos (after s rest out f' t)) \<le> same_host_tasks rest + retries_of out + prepared_again out"
    using same_host_filter [of "\<lambda>x. \<not> (\<exists>a \<in> set out. forgets a x)" rest] by (simp add: after_def same_host_append opened_same_host)
  moreover have "executions out + length (f_plan f') \<le> length (f_plan (fut s)) + k" using assms(2) by (simp add: budget_def)
  moreover have "executions (hist s) + length (f_plan (fut s)) + same_host_tasks (todos s)
       \<le> planned s + retries_of (hist s) + prepared_again (hist s)" using assms(1) by (simp add: affordable_def)
  ultimately show ?thesis using assms(3, 4)
    by (auto simp: affordable_def few_retries_def after_def retries_of_def prepared_again_def)
qed

lemma planned_same: "(after s rest out f' t)\<lparr>planned := planned s\<rparr> = after s rest out f' t"
  by (simp add: after_def)

lemma step_affordable:
  assumes "rf_step pol s s'" "retries_once pol" "affordable s"
  shows "affordable s'"
proof -
  have here: "budget (length (f_plan (fut s))) (fut s) []" "few_retries (retries_of (hist s)) (fut s) []"
    using assms(3) by (simp_all add: budget_def affordable_def few_retries_def retries_of_def executions_def)
  have no_cost: "affordable (after s rest out f' t)"
    if "budget (length (f_plan (fut s)) + k) f' out" "few_retries (retries_of (hist s)) f' out"
      "same_host_tasks rest + k = same_host_tasks (todos s)" for rest out f' t k
    using after_affordable [OF assms(3) that(1, 2), of rest 0] that(3) by (simp add: planned_same)
  show ?thesis using assms(1)
  proof cases
    case (item x w t ans agreed failed r out f')
    note run = item(4)
    show ?thesis unfolding item(1)
      using tripleD [OF handle_budget here(1) run] tripleD [OF handle_retries [OF assms(2)] here(2) run] same_host_remove1 [OF item(2)]
      by (intro no_cost) simp_all
  next
    case (timer x t w r out f')
    note run = timer(5)
    show ?thesis unfolding timer(1)
      using tripleD [OF costs.fire_timer_keeps here(1) run]
        tripleD [OF rf_predicate.fire_timer_keeps [OF few_retries_predicate [OF assms(2)]] here(2) run]
      by (intro no_cost [where k = 0]) simp_all
  next
    case (callback w t m cb r out f')
    note run = callback(4)
    show ?thesis unfolding callback(1)
      using tripleD [OF spent.callback_keeps [OF callback(3)] here(1) run]
        tripleD [OF rf_effects.callback_keeps [OF few_retries_effects callback(3)] here(2) run]
      by (intro no_cost [where k = 0]) simp_all
  next
    case (page w t plan r out f')
    note run = page(4)
    show ?thesis unfolding page(1)
      using tripleD [OF page_budget here(1) run] tripleD [OF page_retries [OF assms(2)] here(2) run]
      by (intro after_affordable [OF assms(3), where k = "length plan"]) simp_all
  qed
qed

lemma reachable_affordable: "rf_reachable pol spec s \<Longrightarrow> retries_once pol \<Longrightarrow> affordable s"
proof (induction rule: rf_reachable.induct)
  case (start plan timeout t cl paging ps)
  have "f_plan (future_init plan timeout t spec cl paging ps) = plan \<and> f_retries (future_init plan timeout t spec cl paging ps) = 0"
    by (simp add: future_init_def start_timer_def op_modify_def Let_def split: option.split prod.split)
  then show ?case by (simp add: affordable_def executions_def same_host_tasks_def retries_of_def)
qed (rule step_affordable)

text \<open>
  C11: a request is not sent for ever. With each retry policy of the driver, a request is sent at
  most as often as its query plans have hosts, once more for a retry on the same host, and once
  for every time its statement was prepared again; speculative executions and timeouts included.
\<close>

theorem requests_bounded:
  assumes "rf_reachable pol spec s" "pol \<in> {RetryPolicy, FallthroughRetryPolicy, DowngradingConsistencyRetryPolicy}"
  shows "executions (hist s) \<le> planned s + 1 + prepared_again (hist s)"
proof -
  have "retries_once pol" using assms(2) stock_policies_retry_once by auto
  from reachable_affordable [OF assms(1) this] show ?thesis by (simp add: affordable_def)
qed

theorem requests_bounded_witness:
  "executions (hist example_sent) = 1 \<and> executions (hist example_sent) \<le> planned example_sent + 1 + prepared_again (hist example_sent)"
  using requests_bounded [OF example_sent_reachable] by (simp add: example_sent_eval executions_def)

end
