(* ===== verification/Request_Failures.thy ===== *)
theory Request_Failures
  imports Response_Future Request_Accounting Timers
begin

text \<open>
  Runs of \<open>ResponseFuture\<close> in which it does not do what it should: requests that hang, that finish
  twice, that return the wrong connection, and a timeout that blocks the event loop.
\<close>

section \<open>What can go wrong\<close>

text \<open>A request that will never be finished, whatever happens.\<close>

definition hangs :: "retry_policy \<Rightarrow> rf_sys \<Rightarrow> bool" where
  "hangs pol s \<longleftrightarrow> (\<forall>s'. (rf_step pol)\<^sup>*\<^sup>* s s' \<longrightarrow> \<not> f_event (fut s'))"

definition nothing_pending :: "rf_sys \<Rightarrow> bool" where
  "nothing_pending s \<longleftrightarrow> todos s = [] \<and> \<not> f_event (fut s) \<and> f_armed (fut s) = None"

lemma step_nothing_pending:
  assumes "rf_step pol s s'" "nothing_pending s"
  shows "nothing_pending s'"
  using assms(1)
proof cases
  case (callback w t m cb r out f')
  then have quiet: "\<And>cb. callback_raises w cb = None" by (simp add: env_ok_def)
  have "opened out = [] \<and> f_event f' = f_event (fut s) \<and> f_armed f' = f_armed (fut s)"
    using callback(3, 4) by (auto simp: add_callback_def add_errback_def clear_callbacks_def run_user_run [OF quiet] op_defs split: option.splits)
  then show ?thesis using assms(2) callback(1) by (simp add: nothing_pending_def after_def)
qed (use assms(2) in \<open>auto simp: nothing_pending_def\<close>)

lemma nothing_pending_hangs: "nothing_pending s \<Longrightarrow> hangs pol s"
proof -
  assume pending: "nothing_pending s"
  have "nothing_pending s'" if "(rf_step pol)\<^sup>*\<^sup>* s s'" for s'
    using that by (induction rule: rtranclp_induct) (auto intro: step_nothing_pending pending)
  then show ?thesis by (auto simp: hangs_def nothing_pending_def)
qed

definition overloaded_answer :: answer where
  "overloaded_answer = Message \<lparr>msg_stream_id = 5, msg_trace_id = None, msg_warnings = None, msg_custom_payload = None, msg_body = Error 0x1001 [] NoInfo\<rparr>"

definition void_answer :: answer where
  "void_answer = Message \<lparr>msg_stream_id = 5, msg_trace_id = None, msg_warnings = None, msg_custom_payload = None, msg_body = Result VoidResult\<rparr>"

text \<open>
  A request that is retried when its timeout passes: the first host answers in time that it is
  overloaded; the timeout passes before the task that retries the request runs; the second host
  has no pool.
\<close>

definition hang1 :: rf_sys where
  "hang1 = do_item (example_env (\<lambda>k. Sends 0 5) 0 True) overloaded_answer 0 Start (request_start [1, 2] (Some 10) (spec_new_plan 0 0))"

definition hang2 :: rf_sys where
  "hang2 = do_item (example_env (\<lambda>k. NoPool) 9 True) overloaded_answer 9 (Awaiting 1 0 5 (Execute None None)) hang1"

definition hang3 :: rf_sys where
  "hang3 = do_timer (example_env (\<lambda>k. NoPool) 10 False) 10 hang2"

definition hang4 :: rf_sys where
  "hang4 = do_item (example_env (\<lambda>k. NoPool) 11 False) overloaded_answer 11 (Task (RetryTask False 1)) hang3"

lemmas run_defs = send_request_def query_def set_error_def message_of_def late_def set_result_def on_response_def on_error_def
  note_response_def retry_def error_class_of_def error_classes_def on_timeout_def retry_task_def overloaded_answer_def void_answer_def

lemma hang1_eval:
  "todos hang1 = [Awaiting 1 0 5 (Execute None None)]" "now hang1 = 0" "f_exception (fut hang1) = None" "f_event (fut hang1) = False"
  "f_armed (fut hang1) = Some (TimeoutTimer 10)" "f_connection (fut hang1) = Some (1, 0)" "f_req_id (fut hang1) = Some 5"
  "f_plan (fut hang1) = [2]" "f_timeout (fut hang1) = Some 10" "f_start (fut hang1) = 0" "f_retries (fut hang1) = 0"
  by (simp_all add: hang1_def example_defs run_defs)

lemma hang2_eval:
  "todos hang2 = [Task (RetryTask False 1)]" "now hang2 = 9" "f_exception (fut hang2) = None" "f_event (fut hang2) = False"
  "f_armed (fut hang2) = Some (TimeoutTimer 10)" "f_connection (fut hang2) = Some (1, 0)" "f_req_id (fut hang2) = Some 5"
  "f_plan (fut hang2) = [2]" "f_timeout (fut hang2) = Some 10" "f_start (fut hang2) = 0"
  by (simp_all add: hang2_def example_defs run_defs hang1_eval)

lemma hang3_eval:
  "todos hang3 = [Task (RetryTask False 1)]" "now hang3 = 10" "f_exception (fut hang3) = None" "f_event (fut hang3) = False"
  "f_armed (fut hang3) = None" "f_connection (fut hang3) = Some (1, 0)" "f_req_id (fut hang3) = Some 5"
  "f_plan (fut hang3) = [2]" "f_timeout (fut hang3) = Some 10" "f_start (fut hang3) = 0"
  by (simp_all add: hang3_def example_defs run_defs hang2_eval)

lemma hang4_eval: "nothing_pending hang4"
  by (simp add: hang4_def example_defs run_defs hang3_eval nothing_pending_def)

lemma hang4_reachable: "rf_reachable RetryPolicy (spec_new_plan 0 0) hang4"
proof -
  have "rf_reachable RetryPolicy (spec_new_plan 0 0) hang1"
    unfolding hang1_def by (rule do_item_reachable [OF start_reachable]) (simp_all add: request_start_def env_ok_def example_env_def)
  then have "rf_reachable RetryPolicy (spec_new_plan 0 0) hang2"
    unfolding hang2_def by (rule do_item_reachable) (simp_all add: hang1_eval env_ok_def example_env_def)
  then have "rf_reachable RetryPolicy (spec_new_plan 0 0) hang3"
    unfolding hang3_def by (rule do_timer_reachable [where d = 10]) (simp_all add: hang2_eval env_ok_def example_env_def)
  then show ?thesis
    unfolding hang4_def by (rule do_item_reachable) (simp_all add: hang3_eval env_ok_def example_env_def)
qed


text \<open>
  A timer that fires before the request has a connection: \<open>_on_timeout\<close> raises, and since the timer
  manager keeps a timer whose callback raises, it calls it again and again.
\<close>

definition timeout_raises :: "rf_env \<Rightarrow> future \<Rightarrow> nat \<Rightarrow> nat \<Rightarrow> nat \<Rightarrow> bool" where
  "timeout_raises w f n i k \<longleftrightarrow> i = n \<and> (case on_timeout w f of (Inl e, _) \<Rightarrow> True | _ \<Rightarrow> False)"

lemma on_timeout_unconnected: "f_connection f = None \<Longrightarrow> on_timeout w f = (Inl (Exn (PyError AttributeError)), [], f)"
  by (simp add: on_timeout_def op_defs)



text \<open>A retry on the same host does not store its stream id, so the timeout looks for the old one.\<close>

lemma same_host_retry_keeps_old_id:
  assumes "f_exception f = None" "answers w 0 = Sends c n"
  shows "\<exists>f'. retry_task w True host f = (Inr (), [Borrowed host c, Sent host c n (message_of f)], f') \<and> f_req_id f' = f_req_id f"
  using assms by (simp add: retry_task_def send_again_def query_def op_defs)

lemma same_host_retry_timeout_ignored:
  assumes "f_connection f = Some (h, c)" "f_req_id f = Some n" "\<not> registered w h c n"
  shows "on_timeout w f = (Inr (), [], f)"
  using assms by (simp add: on_timeout_def op_defs)

text \<open>The pages after the first have no timer.\<close>

lemma next_page_has_no_timer: "f_timer f \<noteq> None \<Longrightarrow> start_timer t f = (Inr (), [], f)"
  by (simp add: start_timer_def op_modify_def)

text \<open>A callback that raises makes the request fail as well.\<close>

lemma raising_callback_fails_request:
  assumes "callback_raises w 7 = Some e" "callback_raises w 8 = None" "f_callbacks f = [7]" "f_errbacks f = [8]"
  shows "\<exists>f'. set_result w pol host c void_answer f
      = (Inr (), [Returned (Some host) host c, EventSet, RunCallback 7 NoResult, EventSet, RunErrback 8 (Exn e)], f')
    \<and> result_of f' = Inr NoResult \<and> f_exception f' = Some (Exn e)"
  using assms
  by (simp add: set_result_def void_answer_def note_response_def on_response_def on_result_def set_final_result_def set_final_exception_def
      run_user_def cancel_timer_def op_defs result_of_def)

text \<open>Two speculative executions that are both answered finish the request twice.\<close>

definition twice1 :: rf_sys where
  "twice1 = do_callback (example_env (\<lambda>k. Sends 0 5) 0 True) 7 0
     (do_item (example_env (\<lambda>k. Sends 0 5) 0 True) void_answer 0 Start (request_start [1, 2] None (spec_new_plan 1 1)))"

definition twice2 :: rf_sys where
  "twice2 = do_timer (example_env (\<lambda>k. Sends 0 5) 1 True) 1 twice1"

definition twice3 :: rf_sys where
  "twice3 = do_item (example_env (\<lambda>k. NoPool) 2 True) void_answer 2 (Awaiting 2 0 5 (Execute None None)) twice2"

definition twice4 :: rf_sys where
  "twice4 = do_item (example_env (\<lambda>k. NoPool) 3 True) void_answer 3 (Awaiting 1 0 5 (Execute None None)) twice3"

lemmas twice_defs = example_defs run_defs on_speculative_execute_def add_callback_def set_final_result_def run_user_def cancel_timer_def on_result_def

lemma twice1_eval:
  "todos twice1 = [Awaiting 1 0 5 (Execute None None)]" "now twice1 = 0" "f_armed (fut twice1) = Some (SpeculativeTimer 1)"
  "hist twice1 = [Borrowed 1 0, Sent 1 0 5 (Execute None None)]" "f_event (fut twice1) = False" "f_timeout (fut twice1) = None"
  "f_plan (fut twice1) = [2]" "f_spec (fut twice1) = \<lparr>spec_delay = 1, remaining = 0\<rparr>" "f_start (fut twice1) = 0"
  "f_callbacks (fut twice1) = [7]" "f_consistency (fut twice1) = None" "f_message_paging (fut twice1) = None"
  by (simp_all add: twice1_def twice_defs)

lemma twice2_eval:
  "todos twice2 = [Awaiting 1 0 5 (Execute None None), Awaiting 2 0 5 (Execute None None)]" "now twice2 = 1"
  "hist twice2 = [Borrowed 1 0, Sent 1 0 5 (Execute None None), Borrowed 2 0, Sent 2 0 5 (Execute None None)]"
  "f_callbacks (fut twice2) = [7]"
  by (simp_all add: twice2_def twice_defs twice1_eval)

lemma twice3_eval:
  "todos twice3 = [Awaiting 1 0 5 (Execute None None)]" "now twice3 = 2" "f_callbacks (fut twice3) = [7]"
  "hist twice3 = hist twice2 @ [Returned (Some 2) 2 0, EventSet, RunCallback 7 NoResult]"
  by (simp_all add: twice3_def twice_defs twice2_eval)

lemma twice4_hist: "hist twice4 = hist twice3 @ [Returned (Some 1) 1 0, EventSet, RunCallback 7 NoResult]"
  by (simp add: twice4_def twice_defs twice3_eval)

lemma speculative_request_finishes_twice:
  "\<exists>s. rf_reachable RetryPolicy (spec_new_plan 1 1) s \<and> count_list (hist s) (RunCallback 7 NoResult) = 2"
proof -
  note ok = env_ok_def example_env_def
  have "rf_reachable RetryPolicy (spec_new_plan 1 1) twice1"
    unfolding twice1_def
    by (intro do_callback_reachable do_item_reachable start_reachable) (simp_all add: twice_defs)
  then have "rf_reachable RetryPolicy (spec_new_plan 1 1) twice2"
    unfolding twice2_def by (rule do_timer_reachable [where d = 1]) (simp_all add: twice1_eval ok)
  then have "rf_reachable RetryPolicy (spec_new_plan 1 1) twice3"
    unfolding twice3_def by (rule do_item_reachable) (simp_all add: twice2_eval ok)
  then have "rf_reachable RetryPolicy (spec_new_plan 1 1) twice4"
    unfolding twice4_def by (rule do_item_reachable) (simp_all add: twice3_eval ok)
  then show ?thesis by (intro exI [of _ twice4]) (simp add: twice4_hist twice3_eval twice2_eval)
qed

text \<open>
  A statement that is prepared again on another connection of the pool: the connection of the
  first request is given back twice for it, the one that prepared the statement never.
\<close>

definition answer_with :: "response \<Rightarrow> answer" where
  "answer_with r = Message \<lparr>msg_stream_id = 5, msg_trace_id = None, msg_warnings = None, msg_custom_payload = None, msg_body = r\<rparr>"

definition example_statement :: pstmt where
  "example_statement = \<lparr>ps_query_id = [1], ps_query_string = [], ps_keyspace = None, ps_result_metadata = None, ps_result_metadata_id = None\<rparr>"

definition example_prepared :: prepared where
  "example_prepared = \<lparr>pr_query_id = [1], pr_bind_metadata = [], pr_pk_indexes = None, pr_result_metadata = None, pr_result_metadata_id = None\<rparr>"

definition wrong1 :: rf_sys where
  "wrong1 = do_item (example_env (\<lambda>k. Sends 0 5) 0 True) void_answer 0 Start (request_start [1] None (spec_new_plan 0 0))"

definition wrong2 :: rf_sys where
  "wrong2 = do_item ((example_env (\<lambda>k. NoPool) 0 True)\<lparr>known_statement := \<lambda>q. Some example_statement\<rparr>)
     (answer_with (Error 0x2500 [] (PreparedQueryNotFoundInfo [1]))) 0 (Awaiting 1 0 5 (Execute None None)) wrong1"

definition wrong3 :: rf_sys where
  "wrong3 = do_item (example_env (\<lambda>k. Sends 1 6) 0 True) void_answer 0 (Task (Reprepare [] None 1 0)) wrong2"

definition wrong4 :: rf_sys where
  "wrong4 = do_item (example_env (\<lambda>k. NoPool) 0 True) (answer_with (Result (PreparedResult example_prepared))) 0
     (Awaiting 1 1 6 (Prepare [] None 0)) wrong3"

definition wrong5 :: rf_sys where
  "wrong5 = do_item (example_env (\<lambda>k. Sends 0 7) 0 True) void_answer 0
     (Task (ExecuteAfterPrepare 1 0 (answer_with (Result (PreparedResult example_prepared))))) wrong4"

definition wrong6 :: rf_sys where
  "wrong6 = do_item (example_env (\<lambda>k. NoPool) 0 True) void_answer 0 (Awaiting 1 0 7 (Execute None None)) wrong5"

lemmas wrong_defs = example_defs run_defs set_final_result_def run_user_def cancel_timer_def on_result_def answer_with_def
  prepare_again_def statement_for_def example_statement_def uses_keyspace_flag_def reprepare_def execute_after_prepare_def after_prepare_def
  send_again_def

lemma wrong1_eval:
  "todos wrong1 = [Awaiting 1 0 5 (Execute None None)]" "now wrong1 = 0" "f_prepared (fut wrong1) = None" "f_exception (fut wrong1) = None"
  "hist wrong1 = [Borrowed 1 0, Sent 1 0 5 (Execute None None)]" "f_connection (fut wrong1) = Some (1, 0)"
  "f_consistency (fut wrong1) = None" "f_message_paging (fut wrong1) = None" "f_callbacks (fut wrong1) = []" "f_retries (fut wrong1) = 0"
  by (simp_all add: wrong1_def wrong_defs)

lemma wrong2_eval:
  "todos wrong2 = [Task (Reprepare [] None 1 0)]" "now wrong2 = 0" "f_prepared (fut wrong2) = None" "f_exception (fut wrong2) = None"
  "hist wrong2 = hist wrong1 @ [Returned (Some 1) 1 0, SubmitTask (Reprepare [] None 1 0)]"
  "f_consistency (fut wrong2) = None" "f_message_paging (fut wrong2) = None" "f_callbacks (fut wrong2) = []"
  by (simp_all add: wrong2_def wrong_defs wrong1_eval)

lemma wrong3_eval:
  "todos wrong3 = [Awaiting 1 1 6 (Prepare [] None 0)]" "now wrong3 = 0" "f_prepared (fut wrong3) = None" "f_exception (fut wrong3) = None"
  "hist wrong3 = hist wrong2 @ [Borrowed 1 1, Sent 1 1 6 (Prepare [] None 0)]"
  "f_consistency (fut wrong3) = None" "f_message_paging (fut wrong3) = None" "f_callbacks (fut wrong3) = []"
  by (simp_all add: wrong3_def wrong_defs wrong2_eval)

lemma wrong4_eval:
  "todos wrong4 = [Task (ExecuteAfterPrepare 1 0 (answer_with (Result (PreparedResult example_prepared))))]" "now wrong4 = 0"
  "hist wrong4 = hist wrong3 @ [SubmitTask (ExecuteAfterPrepare 1 0 (answer_with (Result (PreparedResult example_prepared))))]"
  "fut wrong4 = fut wrong3"
  by (simp_all add: wrong4_def do_item_def after_def op_emit_def wrong3_eval)

lemma wrong5_eval:
  "todos wrong5 = [Awaiting 1 0 7 (Execute None None)]" "now wrong5 = 0" "f_callbacks (fut wrong5) = []"
  "hist wrong5 = hist wrong4 @ [Returned (Some 1) 1 0, Borrowed 1 0, Sent 1 0 7 (Execute None None)]"
  by (simp_all add: wrong5_def wrong_defs wrong4_eval wrong3_eval)

lemma wrong6_eval:
  "todos wrong6 = []" "f_event (fut wrong6)" "hist wrong6 = hist wrong5 @ [Returned (Some 1) 1 0, EventSet]"
  by (simp_all add: wrong6_def wrong_defs wrong5_eval)

lemma prepared_again_on_wrong_connection:
  "\<exists>s. rf_reachable RetryPolicy (spec_new_plan 0 0) s \<and> f_event (fut s) \<and> todos s = []
    \<and> count_list (hist s) (Borrowed 1 0) = 2 \<and> returned (hist s) 1 0 = 3
    \<and> count_list (hist s) (Borrowed 1 1) = 1 \<and> returned (hist s) 1 1 = 0"
proof -
  note ok = env_ok_def example_env_def
  have "rf_reachable RetryPolicy (spec_new_plan 0 0) wrong1"
    unfolding wrong1_def by (rule do_item_reachable [OF start_reachable]) (simp_all add: request_start_def ok)
  then have "rf_reachable RetryPolicy (spec_new_plan 0 0) wrong2"
    unfolding wrong2_def by (rule do_item_reachable) (simp_all add: wrong1_eval ok)
  then have "rf_reachable RetryPolicy (spec_new_plan 0 0) wrong3"
    unfolding wrong3_def by (rule do_item_reachable) (simp_all add: wrong2_eval ok)
  then have "rf_reachable RetryPolicy (spec_new_plan 0 0) wrong4"
    unfolding wrong4_def by (rule do_item_reachable) (simp_all add: wrong3_eval ok)
  then have "rf_reachable RetryPolicy (spec_new_plan 0 0) wrong5"
    unfolding wrong5_def by (rule do_item_reachable) (simp_all add: wrong4_eval ok)
  then have "rf_reachable RetryPolicy (spec_new_plan 0 0) wrong6"
    unfolding wrong6_def by (rule do_item_reachable) (simp_all add: wrong5_eval ok)
  then show ?thesis
    by (intro exI [of _ wrong6]) (simp add: wrong6_eval wrong5_eval wrong4_eval wrong3_eval wrong2_eval wrong1_eval returned_def)
qed

end
