(* ===== verification/Result_Set.thy ===== *)
theory Result_Set
  imports Prelude
begin

text \<open>
  \<open>ResultSet\<close> of \<open>cassandra/cluster.py\<close>, which iterates over the rows of all pages of a result.
\<close>

section \<open>ResultSet\<close>

text \<open>
  \<open>rs_page\<close> is what is left of \<open>_page_iter\<close>, \<open>rs_more\<close> are the pages that the server still has, in
  the order in which \<open>start_fetching_next_page\<close> gets them. Fetching a page may fail; the future then
  still has more pages.
\<close>

record 'a result_set =
  rs_rows :: "'a list"
  rs_page :: "'a list option"
  rs_list_mode :: bool
  rs_more :: "'a list list"

datatype ('a, 'e) next_row = Row 'a | Stop | FetchFailed 'e | NotIterated

definition rs_init :: "'a list \<Rightarrow> 'a list list \<Rightarrow> 'a result_set" where
  "rs_init rows pages = \<lparr>rs_rows = rows, rs_page = None, rs_list_mode = False, rs_more = pages\<rparr>"

definition has_more_pages :: "'a result_set \<Rightarrow> bool" where
  "has_more_pages rs \<longleftrightarrow> rs_more rs \<noteq> []"

definition fetch_next_page :: "'e option \<Rightarrow> 'a result_set \<Rightarrow> 'e option \<times> 'a result_set" where
  "fetch_next_page failure rs =
     (case rs_more rs of
        [] \<Rightarrow> (None, rs\<lparr>rs_rows := []\<rparr>)
      | page # pages \<Rightarrow>
          (case failure of
             Some e \<Rightarrow> (Some e, rs)
           | None \<Rightarrow> (None, rs\<lparr>rs_rows := page, rs_more := pages\<rparr>)))"

definition rs_iter :: "'a result_set \<Rightarrow> 'a result_set" where
  "rs_iter rs = rs\<lparr>rs_page := Some (rs_rows rs)\<rparr>"

definition rs_next :: "'e option \<Rightarrow> 'a result_set \<Rightarrow> ('a, 'e) next_row \<times> 'a result_set" where
  "rs_next failure rs =
     (case rs_page rs of
        None \<Rightarrow> (NotIterated, rs)
      | Some (x # xs) \<Rightarrow> (Row x, rs\<lparr>rs_page := Some xs\<rparr>)
      | Some [] \<Rightarrow>
          if \<not> has_more_pages rs then (Stop, if rs_list_mode rs then rs else rs\<lparr>rs_rows := []\<rparr>)
          else
            (case fetch_next_page failure rs of
               (Some e, rs1) \<Rightarrow> (FetchFailed e, rs1)
             | (None, rs1) \<Rightarrow>
                 (case rs_rows rs1 of
                    [] \<Rightarrow> (Stop, rs1\<lparr>rs_page := Some []\<rparr>)
                  | x # xs \<Rightarrow> (Row x, rs1\<lparr>rs_page := Some xs\<rparr>))))"

text \<open>A \<open>for\<close> loop over the rest of the iterator, when no fetch fails.\<close>

function rs_loop :: "'a result_set \<Rightarrow> 'a list \<times> 'a result_set" where
  "rs_loop rs = (case rs_next (None :: unit option) rs of (Row x, rs1) \<Rightarrow> (case rs_loop rs1 of (xs, rs2) \<Rightarrow> (x # xs, rs2)) | (_, rs1) \<Rightarrow> ([], rs1))"
  by pat_completeness auto
termination
  by (relation "measures [\<lambda>rs. length (rs_more rs), \<lambda>rs. length (case rs_page rs of Some xs \<Rightarrow> xs | None \<Rightarrow> [])]")
    (auto simp: rs_next_def fetch_next_page_def split: option.splits list.splits if_splits)

declare rs_loop.simps [simp del]

text \<open>\<open>list(self)\<close>: in list mode \<open>__iter__\<close> gives an iterator over the rows at hand.\<close>

definition rs_list :: "'a result_set \<Rightarrow> 'a list \<times> 'a result_set" where
  "rs_list rs = (if rs_list_mode rs then (rs_rows rs, rs) else rs_loop (rs_iter rs))"

definition fetch_all :: "'a result_set \<Rightarrow> 'a result_set" where
  "fetch_all rs = (case rs_list rs of (rows, rs1) \<Rightarrow> rs1\<lparr>rs_rows := rows, rs_page := None\<rparr>)"

definition enter_list_mode :: "'a result_set \<Rightarrow> 'a result_set res" where
  "enter_list_mode rs =
     (if rs_list_mode rs then Inr rs
      else if rs_page rs \<noteq> None then Inl RuntimeError
      else Inr ((fetch_all rs)\<lparr>rs_list_mode := True\<rparr>))"

definition rs_eq :: "'a result_set \<Rightarrow> 'a list \<Rightarrow> (bool \<times> 'a result_set) res" where
  "rs_eq rs other = res_bind (enter_list_mode rs) (\<lambda>rs1. Inr (rs_rows rs1 = other, rs1))"

definition rs_getitem :: "'a result_set \<Rightarrow> nat \<Rightarrow> ('a \<times> 'a result_set) res" where
  "rs_getitem rs i = res_bind (enter_list_mode rs) (\<lambda>rs1.
     if i < length (rs_rows rs1) then Inr (rs_rows rs1 ! i, rs1) else Inl IndexError)"

definition rs_bool :: "'a result_set \<Rightarrow> bool" where
  "rs_bool rs \<longleftrightarrow> rs_rows rs \<noteq> []"

text \<open>The pages up to the first empty one.\<close>

definition visible_pages :: "'a list list \<Rightarrow> 'a list list" where
  "visible_pages pages = takeWhile (\<lambda>page. page \<noteq> []) pages"

lemma rs_loop_row:
  "rs_next (None :: unit option) rs = (Row x, rs1) \<Longrightarrow> rs_loop rs = (x # fst (rs_loop rs1), snd (rs_loop rs1))"
  by (subst rs_loop.simps) (simp split: prod.split)

lemma rs_loop_stop: "rs_next (None :: unit option) rs = (Stop, rs1) \<Longrightarrow> rs_loop rs = ([], rs1)"
  by (subst rs_loop.simps) simp

lemma rs_loop_rows:
  assumes "rs_page rs = Some xs"
  shows "fst (rs_loop rs) = xs @ concat (visible_pages (rs_more rs))"
  using assms
proof (induction rs arbitrary: xs rule: rs_loop.induct)
  case (1 rs)
  show ?case
  proof (cases xs)
    case (Cons y ys)
    then have row: "rs_next (None :: unit option) rs = (Row y, rs\<lparr>rs_page := Some ys\<rparr>)" using 1(2) by (simp add: rs_next_def)
    from 1(1) [OF row [symmetric] refl, of ys] Cons show ?thesis by (simp add: rs_loop_row [OF row])
  next
    case Nil
    show ?thesis
    proof (cases "rs_more rs")
      case pages: (Cons page pages)
      show ?thesis
      proof (cases page)
        case (Cons y ys)
        then have row: "rs_next (None :: unit option) rs = (Row y, rs\<lparr>rs_rows := page, rs_more := pages, rs_page := Some ys\<rparr>)"
          using 1(2) Nil pages by (simp add: rs_next_def has_more_pages_def fetch_next_page_def)
        from 1(1) [OF row [symmetric] refl, of ys] Nil pages Cons show ?thesis
          by (simp add: rs_loop_row [OF row] visible_pages_def)
      next
        case page: Nil
        then have "rs_next (None :: unit option) rs = (Stop, rs\<lparr>rs_rows := page, rs_more := pages, rs_page := Some []\<rparr>)"
          using 1(2) Nil pages by (simp add: rs_next_def has_more_pages_def fetch_next_page_def)
        then show ?thesis using page Nil pages by (simp add: rs_loop_stop visible_pages_def)
      qed
    next
      case empty: Nil
      then have "rs_next (None :: unit option) rs = (Stop, if rs_list_mode rs then rs else rs\<lparr>rs_rows := []\<rparr>)"
        using 1(2) Nil by (simp add: rs_next_def has_more_pages_def)
      then show ?thesis using Nil empty by (simp add: rs_loop_stop visible_pages_def)
    qed
  qed
qed



end
