(* ===== verification/Concurrent.thy ===== *)
theory Concurrent
  imports Prelude "HOL-Library.Multiset"
begin

text \<open>
  \<open>cassandra/concurrent.py\<close>: executing many statements with a bound on how many run at a time, and
  returning their results in the order of the statements.
\<close>

section \<open>The executors\<close>

text \<open>
  What \<open>execute_async\<close> and \<open>add_callbacks\<close> do with a statement: they raise, they call back at once
  because the future is finished already, or the statement runs.
\<close>

datatype 'r start = Raises 'r | Finishes bool 'r | Runs

text \<open>
  The state of a \<open>ConcurrentExecutorListResults\<close> or, with \<open>ex_gen\<close>, of a \<open>ConcurrentExecutorGenResults\<close>.
  \<open>ex_next\<close> is the position of the enumeration of the \<open>ex_total\<close> statements; \<open>ex_running\<close> are the
  statements whose future has not called back, \<open>ex_submitted\<close> the results that were submitted to
  the executor of the session.
\<close>

record 'r executor =
  ex_gen :: bool
  ex_fail_fast :: bool
  ex_total :: nat
  ex_next :: nat
  ex_count :: nat
  ex_current :: nat
  ex_depth :: nat
  ex_queue :: "(nat \<times> bool \<times> 'r) list"
  ex_exception :: "'r option"
  ex_running :: "nat list"
  ex_submitted :: "(nat \<times> 'r) list"

definition max_error_recursion :: nat where
  "max_error_recursion = 100"

definition executor_init :: "bool \<Rightarrow> bool \<Rightarrow> nat \<Rightarrow> 'r executor" where
  "executor_init gen fail_fast n = \<lparr>ex_gen = gen, ex_fail_fast = fail_fast, ex_total = n, ex_next = 0, ex_count = 0, ex_current = 0,
     ex_depth = 0, ex_queue = [], ex_exception = None, ex_running = [], ex_submitted = []\<rparr>"

text \<open>\<open>_put_result\<close> up to where it starts the next statement, and whether it does so.\<close>

definition stops :: "bool \<Rightarrow> 'r executor \<Rightarrow> bool" where
  "stops success s \<longleftrightarrow> \<not> ex_gen s \<and> \<not> success \<and> ex_fail_fast s"

definition record_result :: "nat \<Rightarrow> bool \<Rightarrow> 'r \<Rightarrow> 'r executor \<Rightarrow> 'r executor" where
  "record_result idx success result s =
     (if ex_gen s then s\<lparr>ex_queue := insort_key fst (idx, success, result) (ex_queue s)\<rparr>
      else
        let s1 = s\<lparr>ex_queue := ex_queue s @ [(idx, success, result)], ex_current := ex_current s + 1\<rparr>
        in if stops success s \<and> ex_exception s = None then s1\<lparr>ex_exception := Some result\<rparr> else s1)"

lemma record_result_fields [simp]:
  "ex_total (record_result i b r s) = ex_total s" "ex_next (record_result i b r s) = ex_next s"
  "ex_running (record_result i b r s) = ex_running s" "ex_submitted (record_result i b r s) = ex_submitted s"
  "ex_count (record_result i b r s) = ex_count s" "ex_gen (record_result i b r s) = ex_gen s"
  "ex_fail_fast (record_result i b r s) = ex_fail_fast s" "ex_depth (record_result i b r s) = ex_depth s"
  by (simp_all add: record_result_def Let_def)

text \<open>
  \<open>_execute_next\<close>, with \<open>_execute\<close> and, for a statement that fails or is finished at once, the
  \<open>_put_result\<close> that it calls itself.
\<close>

function execute_next :: "(nat \<Rightarrow> 'r start) \<Rightarrow> 'r executor \<Rightarrow> 'r executor" where
  "execute_next env s =
     (if ex_total s \<le> ex_next s then s
      else
        let i = ex_next s; s1 = s\<lparr>ex_next := i + 1, ex_count := ex_count s + 1, ex_depth := ex_depth s + 1\<rparr>;
            put = (\<lambda>success r. if stops success s1 then record_result i success r s1 else execute_next env (record_result i success r s1));
            s2 = (case env i of
               Runs \<Rightarrow> s1\<lparr>ex_running := ex_running s1 @ [i]\<rparr>
             | Finishes success r \<Rightarrow> put success r
             | Raises e \<Rightarrow> if ex_depth s1 < max_error_recursion then put False e else s1\<lparr>ex_submitted := ex_submitted s1 @ [(i, e)]\<rparr>)
        in s2\<lparr>ex_depth := ex_depth s2 - 1\<rparr>)"
  by pat_completeness auto
termination
  by (relation "measure (\<lambda>(env, s). ex_total s - ex_next s)") auto

declare execute_next.simps [simp del]

definition put_result :: "(nat \<Rightarrow> 'r start) \<Rightarrow> nat \<Rightarrow> bool \<Rightarrow> 'r \<Rightarrow> 'r executor \<Rightarrow> 'r executor" where
  "put_result env idx success result s =
     (if stops success s then record_result idx success result s else execute_next env (record_result idx success result s))"

text \<open>\<open>execute\<close>: the first statements, as many as may run at a time.\<close>

fun execute_first :: "(nat \<Rightarrow> 'r start) \<Rightarrow> nat \<Rightarrow> 'r executor \<Rightarrow> 'r executor" where
  "execute_first env 0 s = s"
| "execute_first env (Suc n) s = (if ex_total s \<le> ex_next s then s else execute_first env n (execute_next env s))"

definition execute_concurrent :: "(nat \<Rightarrow> 'r start) \<Rightarrow> int \<Rightarrow> bool \<Rightarrow> bool \<Rightarrow> nat \<Rightarrow> 'r executor res" where
  "execute_concurrent env concurrency fail_fast gen n =
     (if concurrency \<le> 0 then Inl ValueError
      else Inr (execute_first env (nat concurrency) (executor_init gen fail_fast n)))"

text \<open>\<open>_results\<close>: \<open>None\<close> while it waits; for the generator the result that it yields next.\<close>

definition list_results :: "'r executor \<Rightarrow> ('r + (bool \<times> 'r) list) option" where
  "list_results s =
     (if ex_fail_fast s \<and> ex_exception s \<noteq> None then Some (Inl (the (ex_exception s)))
      else if ex_current s < ex_count s then None
      else Some (Inr (map snd (sort_key fst (ex_queue s)))))"

definition gen_next :: "'r executor \<Rightarrow> (('r + bool \<times> 'r) \<times> 'r executor) option" where
  "gen_next s =
     (case ex_queue s of
        (i, success, r) # q \<Rightarrow>
          if i = ex_current s
          then Some (if ex_fail_fast s \<and> \<not> success then Inl r else Inr (success, r), s\<lparr>ex_queue := q, ex_current := ex_current s + 1\<rparr>)
          else None
      | [] \<Rightarrow> None)"

section \<open>Every statement is executed once, and its result returned in order\<close>

definition busy :: "'r executor \<Rightarrow> nat" where
  "busy s = length (ex_running s) + length (ex_submitted s)"

definition stopped :: "'r executor \<Rightarrow> bool" where
  "stopped s \<longleftrightarrow> \<not> ex_gen s \<and> ex_fail_fast s \<and> ex_exception s \<noteq> None"

text \<open>
  The statements that were started: each runs, has its result submitted, or is in the queue or was
  yielded. The number of results is \<open>_current\<close> in a list executor, and a generator keeps its queue
  sorted and has yielded the results before \<open>_current\<close>.
\<close>

definition started_once :: "nat list \<Rightarrow> 'r executor \<Rightarrow> bool" where
  "started_once pending s \<longleftrightarrow> ex_next s \<le> ex_total s \<and> ex_count s = ex_next s
     \<and> mset (pending @ map fst (ex_queue s) @ ex_running s @ map fst (ex_submitted s)) = mset [0..<ex_next s]
     \<and> (if ex_gen s then sorted (map fst (ex_queue s)) \<and> ex_exception s = None else ex_current s = length (ex_queue s))"

lemma started_once_record:
  "started_once (i # pending) s \<Longrightarrow> started_once pending (record_result i b r s)"
  by (auto simp: started_once_def record_result_def Let_def sorted_insort_key image_mset_union split: if_splits)

lemma record_result_stops: "stops b s \<Longrightarrow> stopped (record_result i b r s)"
  by (auto simp: record_result_def stops_def stopped_def Let_def)

lemma record_result_stopped: "stopped s \<Longrightarrow> stopped (record_result i b r s)"
  by (auto simp: record_result_def stopped_def stops_def Let_def)

lemma execute_next_none: "ex_total s \<le> ex_next s \<Longrightarrow> execute_next env s = s"
  by (simp add: execute_next.simps)

text \<open>What starting a statement changes: one more is busy, unless there are no more or it stops.\<close>

definition advanced :: "'r executor \<Rightarrow> 'r executor \<Rightarrow> bool" where
  "advanced s s' \<longleftrightarrow> ex_total s' = ex_total s \<and> ex_gen s' = ex_gen s \<and> ex_fail_fast s' = ex_fail_fast s
     \<and> (ex_gen s \<longrightarrow> ex_current s' = ex_current s) \<and> busy s' \<le> busy s + 1
     \<and> (ex_total s' \<le> ex_next s' \<or> stopped s' \<or> busy s' = busy s + 1) \<and> (stopped s \<longrightarrow> stopped s')"

lemma record_result_busy: "busy (record_result i b r s) = busy s"
  by (simp add: busy_def)

lemma depth_irrelevant:
  "started_once pending (s\<lparr>ex_depth := d\<rparr>) = started_once pending s" "advanced s0 (s\<lparr>ex_depth := d\<rparr>) = advanced s0 s"
  by (simp_all add: started_once_def advanced_def busy_def stopped_def)

lemma execute_next_advances:
  assumes "started_once pending s"
  shows "started_once pending (execute_next env s) \<and> advanced s (execute_next env s)"
  using assms
proof (induction env s rule: execute_next.induct)
  case (1 env s)
  show ?case
  proof (cases "ex_total s \<le> ex_next s")
    case True
    then show ?thesis using 1(2) by (simp add: execute_next_none advanced_def)
  next
    case False
    define i where "i = ex_next s"
    define s1 where "s1 = s\<lparr>ex_next := i + 1, ex_count := ex_count s + 1, ex_depth := ex_depth s + 1\<rparr>"
    define put where "put = (\<lambda>success r. if stops success s1 then record_result i success r s1
        else execute_next env (record_result i success r s1))"
    have s1: "started_once (i # pending) s1" using 1(2) False by (auto simp: started_once_def s1_def i_def)
    have same: "ex_total s1 = ex_total s" "ex_gen s1 = ex_gen s" "ex_fail_fast s1 = ex_fail_fast s" "ex_current s1 = ex_current s"
      "busy s1 = busy s" "stopped s1 = stopped s" by (simp_all add: s1_def busy_def stopped_def)
    have put: "started_once pending (put b r) \<and> advanced s (put b r)" for b r
    proof (cases "stops b s1")
      case True
      moreover have "ex_gen s \<longrightarrow> \<not> stops b s1" by (simp add: stops_def same)
      ultimately show ?thesis using started_once_record [OF s1] record_result_stops [OF True]
        by (simp add: put_def advanced_def record_result_busy same)
    next
      case go: False
      note next_one = started_once_record [OF s1, of b r]
      have "started_once pending (execute_next env (record_result i b r s1))
          \<and> advanced (record_result i b r s1) (execute_next env (record_result i b r s1))"
        using go next_one unfolding s1_def i_def by (rule 1(1) [OF False refl refl])
      moreover have "ex_gen s1 \<Longrightarrow> ex_current (record_result i b r s1) = ex_current s1" by (simp add: record_result_def)
      ultimately show ?thesis using go record_result_stopped [of s1 i b r]
        by (auto simp: put_def advanced_def record_result_busy same)
    qed
    have wait: "started_once pending (s1\<lparr>ex_running := ex_running s1 @ [i]\<rparr>) \<and> advanced s (s1\<lparr>ex_running := ex_running s1 @ [i]\<rparr>)"
      "started_once pending (s1\<lparr>ex_submitted := ex_submitted s1 @ [(i, e)]\<rparr>) \<and> advanced s (s1\<lparr>ex_submitted := ex_submitted s1 @ [(i, e)]\<rparr>)"
      for e using s1 by (auto simp: started_once_def advanced_def busy_def stopped_def s1_def simp del: mset_upt)
    define s2 where "s2 = (case env i of
               Runs \<Rightarrow> s1\<lparr>ex_running := ex_running s1 @ [i]\<rparr>
             | Finishes success r \<Rightarrow> put success r
             | Raises e \<Rightarrow> if ex_depth s1 < max_error_recursion then put False e else s1\<lparr>ex_submitted := ex_submitted s1 @ [(i, e)]\<rparr>)"
    have "started_once pending s2 \<and> advanced s s2" using put wait by (cases "env i") (simp_all add: s2_def)
    moreover have "execute_next env s = s2\<lparr>ex_depth := ex_depth s2 - 1\<rparr>"
      using False by (simp only: execute_next.simps [of env s] if_False Let_def s2_def put_def s1_def i_def)
    ultimately show ?thesis by (simp add: depth_irrelevant)
  qed
qed

text \<open>The results that come in, in any order, with any environment; the generator yields when it can.\<close>

inductive conc_step :: "'r executor \<times> (nat \<times> bool \<times> 'r) list \<Rightarrow> 'r executor \<times> (nat \<times> bool \<times> 'r) list \<Rightarrow> bool" where
  result: "i \<in> set (ex_running s) \<Longrightarrow> conc_step (s, ys) (put_result env i success r (s\<lparr>ex_running := remove1 i (ex_running s)\<rparr>), ys)"
| submitted: "(i, e) \<in> set (ex_submitted s)
    \<Longrightarrow> conc_step (s, ys) (put_result env i False e (s\<lparr>ex_submitted := remove1 (i, e) (ex_submitted s)\<rparr>), ys)"
| yields: "ex_gen s \<Longrightarrow> gen_next s = Some (Inr (success, r), s') \<Longrightarrow> conc_step (s, ys) (s', ys @ [(ex_current s, success, r)])"

definition conc_reachable :: "int \<Rightarrow> bool \<Rightarrow> bool \<Rightarrow> nat \<Rightarrow> 'r executor \<Rightarrow> (nat \<times> bool \<times> 'r) list \<Rightarrow> bool" where
  "conc_reachable concurrency fail_fast gen n s ys \<longleftrightarrow>
     (\<exists>env s0. execute_concurrent env concurrency fail_fast gen n = Inr s0 \<and> conc_step\<^sup>*\<^sup>* (s0, []) (s, ys))"

definition conc_inv :: "nat \<Rightarrow> nat \<Rightarrow> 'r executor \<times> (nat \<times> bool \<times> 'r) list \<Rightarrow> bool" where
  "conc_inv c n = (\<lambda>(s, ys). started_once (map fst ys) s \<and> ex_total s = n \<and> busy s \<le> c
     \<and> (n \<le> ex_next s \<or> stopped s \<or> busy s = c) \<and> (if ex_gen s then map fst ys = [0..<ex_current s] else ys = []))"

lemma put_result_inv:
  assumes "started_once (i # map fst ys) s" "ex_total s = n" "busy s + 1 \<le> c" "n \<le> ex_next s \<or> stopped s \<or> busy s + 1 = c"
    "if ex_gen s then map fst ys = [0..<ex_current s] else ys = []"
  shows "conc_inv c n (put_result env i b r s, ys)"
proof (cases "stops b s")
  case True
  then have "\<not> ex_gen s" by (simp add: stops_def)
  then show ?thesis using assms started_once_record [OF assms(1), of b r] record_result_stops [OF True, of i r] True
    by (simp add: put_result_def conc_inv_def record_result_busy)
next
  case False
  let ?s = "record_result i b r s"
  have "ex_gen s \<Longrightarrow> ex_current ?s = ex_current s" by (simp add: record_result_def)
  moreover have "started_once (map fst ys) (execute_next env ?s) \<and> advanced ?s (execute_next env ?s)"
    by (rule execute_next_advances [OF started_once_record [OF assms(1)]])
  moreover have "n \<le> ex_next ?s \<Longrightarrow> execute_next env ?s = ?s" using assms(2) by (intro execute_next_none) simp
  ultimately show ?thesis using False assms(2-5) record_result_stopped [of s i b r]
    by (auto simp: put_result_def conc_inv_def advanced_def record_result_busy)
qed

lemma take_running:
  assumes "started_once p s" "i \<in> set (ex_running s)"
  shows "started_once (i # p) (s\<lparr>ex_running := remove1 i (ex_running s)\<rparr>)"
    "busy (s\<lparr>ex_running := remove1 i (ex_running s)\<rparr>) + 1 = busy s"
proof -
  have "mset (ex_running s) = add_mset i (mset (remove1 i (ex_running s)))" using assms(2) by simp
  with assms(1) show "started_once (i # p) (s\<lparr>ex_running := remove1 i (ex_running s)\<rparr>)"
    by (simp add: started_once_def del: mset_remove1)
  show "busy (s\<lparr>ex_running := remove1 i (ex_running s)\<rparr>) + 1 = busy s"
    using length_pos_if_in_set [OF assms(2)] assms(2) by (simp add: busy_def length_remove1)
qed

lemma take_submitted:
  assumes "started_once p s" "(i, e) \<in> set (ex_submitted s)"
  shows "started_once (i # p) (s\<lparr>ex_submitted := remove1 (i, e) (ex_submitted s)\<rparr>)"
    "busy (s\<lparr>ex_submitted := remove1 (i, e) (ex_submitted s)\<rparr>) + 1 = busy s"
proof -
  have "mset (ex_submitted s) = add_mset (i, e) (mset (remove1 (i, e) (ex_submitted s)))" using assms(2) by simp
  with assms(1) show "started_once (i # p) (s\<lparr>ex_submitted := remove1 (i, e) (ex_submitted s)\<rparr>)"
    by (simp add: started_once_def del: mset_remove1)
  show "busy (s\<lparr>ex_submitted := remove1 (i, e) (ex_submitted s)\<rparr>) + 1 = busy s"
    using length_pos_if_in_set [OF assms(2)] assms(2) by (simp add: busy_def length_remove1)
qed

lemma conc_step_inv:
  assumes "conc_step x y" "conc_inv c n x"
  shows "conc_inv c n y"
  using assms
proof (induction rule: conc_step.induct)
  case (result i s ys env success r)
  then have "started_once (map fst ys) s" by (simp add: conc_inv_def)
  from take_running [OF this result(1)] result(2) show ?case
    by (intro put_result_inv) (auto simp: conc_inv_def stopped_def)
next
  case (submitted i e s ys env)
  then have "started_once (map fst ys) s" by (simp add: conc_inv_def)
  from take_submitted [OF this submitted(1)] submitted(2) show ?case
    by (intro put_result_inv) (auto simp: conc_inv_def stopped_def)
next
  case (yields s success r s' ys)
  from yields(2) obtain q where "ex_queue s = (ex_current s, success, r) # q" "s' = s\<lparr>ex_queue := q, ex_current := ex_current s + 1\<rparr>"
    by (auto simp: gen_next_def split: list.splits if_splits)
  then show ?case using yields(1, 3) by (auto simp: conc_inv_def started_once_def busy_def stopped_def)
qed

lemma execute_first_inv:
  assumes "started_once [] s" "ex_total s = n" "busy s \<le> k" "ex_gen s \<longrightarrow> ex_current s = 0" "n \<le> ex_next s \<or> stopped s \<or> busy s = k"
  shows "conc_inv (k + m) n (execute_first env m s, [])"
  using assms
proof (induction env m s arbitrary: k rule: execute_first.induct)
  case (1 env s)
  then show ?case by (simp add: conc_inv_def)
next
  case (2 env m s)
  show ?case
  proof (cases "ex_total s \<le> ex_next s")
    case True
    then show ?thesis using 2(2-) by (simp add: conc_inv_def)
  next
    case False
    have "started_once [] (execute_next env s) \<and> advanced s (execute_next env s)" by (rule execute_next_advances [OF 2(2)])
    then have "conc_inv (Suc k + m) n (execute_first env m (execute_next env s), [])"
      using 2(2-) False by (intro 2(1)) (auto simp: advanced_def)
    then show ?thesis using False by simp
  qed
qed

lemma conc_reachable_inv:
  assumes "conc_reachable c fail_fast gen n s ys"
  shows "conc_inv (nat c) n (s, ys)"
proof -
  from assms obtain env s0 where s0: "execute_concurrent env c fail_fast gen n = Inr s0" "conc_step\<^sup>*\<^sup>* (s0, []) (s, ys)"
    by (auto simp: conc_reachable_def)
  have "conc_inv (0 + nat c) n (execute_first env (nat c) (executor_init gen fail_fast n), [])"
    by (rule execute_first_inv) (simp_all add: executor_init_def started_once_def busy_def)
  with s0(1) have "conc_inv (nat c) n (s0, [])" by (simp add: execute_concurrent_def split: if_splits)
  with s0(2) show ?thesis by (induction rule: rtranclp_induct) (auto intro: conc_step_inv)
qed

text \<open>What is left when nothing runs any more.\<close>

lemma upt_rest:
  assumes "mset [0..<k] + mset (map fst q) = mset [0..<n]"
  shows "[0..<k] @ map fst (sort_key fst q) = [0..<n]"
proof -
  have "size (mset [0..<k] + mset (map fst q)) = size (mset [0..<n])" by (simp only: assms)
  then have k: "k + length q = n" by (simp del: mset_upt)
  then have "[0..<n] = [0..<k] @ [k..<n]" using upt_add_eq_append [of 0 k "n - k"] by simp
  then have "mset (map fst (sort_key fst q)) = mset [k..<n]" using assms by simp
  then have "sort [k..<n] = map fst (sort_key fst q)" by (intro properties_for_sort) simp_all
  then have "map fst (sort_key fst q) = [k..<n]" by (simp add: sorted_sort_id)
  with \<open>[0..<n] = [0..<k] @ [k..<n]\<close> show ?thesis by simp
qed

lemma idle_results:
  assumes "conc_inv (nat c) n (s, ys)" "map fst ys = [0..<length ys]" "0 < c" "busy s = 0" "\<not> stopped s"
  shows "map fst (ys @ sort_key fst (ex_queue s)) = [0..<n]"
    "\<not> ex_gen s \<Longrightarrow> list_results s = Some (Inr (map snd (sort_key fst (ex_queue s))))"
proof -
  from assms(1) have once: "started_once (map fst ys) s" "ex_total s = n" by (simp_all add: conc_inv_def)
  have n: "ex_next s = n" using assms(1, 3-5) once by (auto simp: conc_inv_def started_once_def)
  have "ex_running s = []" "ex_submitted s = []" using assms(4) by (simp_all add: busy_def)
  then have "mset (map fst ys) + mset (map fst (ex_queue s)) = mset [0..<n]"
    using once(1) n by (simp add: started_once_def del: mset_upt mset_map)
  then have all: "mset [0..<length ys] + mset (map fst (ex_queue s)) = mset [0..<n]" by (simp only: assms(2))
  from arg_cong [OF all, of size] have len: "length ys + length (ex_queue s) = n" by (simp del: mset_upt)
  from upt_rest [OF all] show "map fst (ys @ sort_key fst (ex_queue s)) = [0..<n]" by (simp add: assms(2))
  assume "\<not> ex_gen s"
  moreover from this have "ys = []" "ex_current s = length (ex_queue s)" using assms(1) once(1) by (simp_all add: conc_inv_def started_once_def)
  moreover from this len have "length (ex_queue s) = n" by simp
  moreover have "ex_count s = n" using once(1) n by (simp add: started_once_def)
  ultimately show "list_results s = Some (Inr (map snd (sort_key fst (ex_queue s))))"
    using assms(5) by (auto simp: list_results_def stopped_def)
qed

text \<open>
  C14: executing statements concurrently. At most \<open>concurrency\<close> statements run at a time; each
  statement is started at most once; a generator yields the results in the order of the
  statements; and when nothing runs any more and no failure stopped the execution, the results
  that were yielded or are returned are exactly one for each statement, in their order.
\<close>

theorem concurrent_results:
  assumes "conc_reachable c fail_fast gen n s ys"
  shows "int (busy s) \<le> max 0 c \<and> distinct (map fst ys @ map fst (ex_queue s) @ ex_running s @ map fst (ex_submitted s))
    \<and> map fst ys = [0..<length ys]
    \<and> (0 < c \<and> busy s = 0 \<and> \<not> stopped s \<longrightarrow> map fst (ys @ sort_key fst (ex_queue s)) = [0..<n]
        \<and> (\<not> ex_gen s \<longrightarrow> list_results s = Some (Inr (map snd (sort_key fst (ex_queue s))))))"
proof -
  note inv = conc_reachable_inv [OF assms]
  then have once: "started_once (map fst ys) s" "ex_total s = n" by (simp_all add: conc_inv_def)
  have ys: "map fst ys = [0..<length ys]" using inv by (cases "ex_gen s") (auto simp: conc_inv_def dest: arg_cong [where f = length])
  have "mset (map fst ys @ map fst (ex_queue s) @ ex_running s @ map fst (ex_submitted s)) = mset [0..<ex_next s]"
    using once(1) by (simp add: started_once_def)
  then have "distinct (map fst ys @ map fst (ex_queue s) @ ex_running s @ map fst (ex_submitted s))"
    by (metis distinct_upt mset_eq_imp_distinct_iff)
  moreover have "int (busy s) \<le> max 0 c" using inv by (auto simp: conc_inv_def)
  ultimately show ?thesis using ys idle_results [OF inv ys] by blast
qed

text \<open>Three statements, two at a time: the second one is answered first.\<close>

definition example_executor :: "nat executor" where
  "example_executor = execute_first (\<lambda>i. Runs) 2 (executor_init False True 3)"

definition example_done :: "nat executor" where
  "example_done = fold (\<lambda>i s. put_result (\<lambda>i. Runs) i True (i + 10) (s\<lparr>ex_running := remove1 i (ex_running s)\<rparr>)) [1, 0, 2] example_executor"

lemma example_step:
  assumes "i \<in> set (ex_running s)" "conc_reachable c ff g n s ys"
  shows "conc_reachable c ff g n (put_result env i b r (s\<lparr>ex_running := remove1 i (ex_running s)\<rparr>)) ys"
proof -
  from assms(2) obtain env' s0 where "execute_concurrent env' c ff g n = Inr s0" "conc_step\<^sup>*\<^sup>* (s0, []) (s, ys)"
    by (auto simp: conc_reachable_def)
  with rtranclp.rtrancl_into_rtrancl [OF this(2) conc_step.result [OF assms(1)]] show ?thesis
    unfolding conc_reachable_def by blast
qed

lemma example_done_reachable: "conc_reachable 2 True False 3 example_done []"
proof -
  have "conc_reachable 2 True False 3 example_executor []"
    unfolding conc_reachable_def example_executor_def by (auto simp: execute_concurrent_def)
  then show ?thesis unfolding example_done_def fold.simps comp_def id_apply
    by (intro example_step)
      (simp_all add: example_executor_def executor_init_def numeral_2_eq_2 execute_next.simps Let_def put_result_def record_result_def stops_def)
qed

theorem concurrent_results_witness:
  "busy example_done = 0 \<and> list_results example_done = Some (Inr [(True, 10), (True, 11), (True, 12)])"
proof -
  have eval: "ex_queue example_done = [(1, True, 11), (0, True, 10), (2, True, 12)]" "busy example_done = 0" "\<not> stopped example_done"
    "\<not> ex_gen example_done"
    by (simp_all add: example_done_def example_executor_def executor_init_def numeral_2_eq_2 execute_next.simps Let_def put_result_def
        record_result_def stops_def busy_def stopped_def)
  with concurrent_results [OF example_done_reachable] show ?thesis by simp
qed

end
