(* ===== verification/Encoder.thy ===== *)
theory Encoder
  imports CqlTypes
begin

text \<open>
  \<open>cassandra/encoder.py\<close>: the values of a statement that is not prepared as CQL literals, and a
  reader of such literals, after the grammar of CQL, to state that no value can leave its literal.
\<close>

section \<open>Encoding\<close>

text \<open>
  A value by the encoder that its type is mapped to. \<open>PyObject\<close> is what \<open>cql_encode_object\<close> gets
  other than an integer, with the text that \<open>str\<close> gives for it (a \<open>UUID\<close>, a \<open>Decimal\<close>), and
  \<open>PyQuoted\<close> a date, a time or an address with its text.
\<close>

datatype py_float = Infinite bool | NotANumber | Finite ptext

datatype cql_value =
    PyNone
  | PyStr ptext
  | PyBlob bytes
  | PyInteger int
  | PyFloat py_float
  | PyDate int
  | PyObject ptext
  | PyQuoted ptext
  | PyValueSequence "cql_value list"
  | PyListOf "cql_value list"
  | PySetOf "cql_value list"
  | PyMapOf "(cql_value \<times> cql_value) list"

definition quote :: nat where "quote = 39"

fun double_quotes :: "ptext \<Rightarrow> ptext" where
  "double_quotes [] = []"
| "double_quotes (c # s) = (if c = quote then [quote, quote] else [c]) @ double_quotes s"

definition cql_quote :: "ptext \<Rightarrow> ptext" where
  "cql_quote term = [quote] @ double_quotes term @ [quote]"

definition cql_encode_none :: ptext where
  [simp]: "cql_encode_none = text_of ''NULL''"

definition cql_encode_str :: "ptext \<Rightarrow> ptext" where
  [simp]: "cql_encode_str val = cql_quote val"

definition cql_encode_bytes :: "bytes \<Rightarrow> ptext" where
  [simp]: "cql_encode_bytes val = text_of (''0x'' @ hexlify val)"

text \<open>A float is infinite, with its sign, or not a number, or has the text that \<open>repr\<close> gives for it.\<close>

fun cql_encode_float :: "py_float \<Rightarrow> ptext" where
  "cql_encode_float (Infinite positive) = (if positive then text_of ''Infinity'' else text_of ''-Infinity'')"
| "cql_encode_float NotANumber = text_of ''NaN''"
| "cql_encode_float (Finite repr) = repr"

fun cql_encode_all_types :: "cql_value \<Rightarrow> ptext" where
  "cql_encode_all_types PyNone = cql_encode_none"
| "cql_encode_all_types (PyStr s) = cql_encode_str s"
| "cql_encode_all_types (PyBlob bs) = cql_encode_bytes bs"
| "cql_encode_all_types (PyInteger n) = text_of (int_text n)"
| "cql_encode_all_types (PyFloat x) = cql_encode_float x"
| "cql_encode_all_types (PyDate days) = text_of (int_text (days + 2 ^ 31))"
| "cql_encode_all_types (PyObject s) = s"
| "cql_encode_all_types (PyQuoted s) = [quote] @ s @ [quote]"
| "cql_encode_all_types (PyValueSequence vs) = text_of ''('' @ join_text (text_of '', '') (map cql_encode_all_types vs) @ text_of '')''"
| "cql_encode_all_types (PyListOf vs) = text_of ''['' @ join_text (text_of '', '') (map cql_encode_all_types vs) @ text_of '']''"
| "cql_encode_all_types (PySetOf vs) = text_of ''{'' @ join_text (text_of '', '') (map cql_encode_all_types vs) @ text_of ''}''"
| "cql_encode_all_types (PyMapOf kvs) = text_of ''{''
     @ join_text (text_of '', '') (map (\<lambda>(k, v). cql_encode_all_types k @ text_of '': '' @ cql_encode_all_types v) kvs) @ text_of ''}''"

section \<open>Reading CQL literals\<close>

datatype cql_literal =
    LWord ptext
  | LString ptext
  | LTuple "cql_literal list"
  | LList "cql_literal list"
  | LSet "cql_literal list"
  | LMap "(cql_literal \<times> cql_literal) list"

text \<open>A string ends at a quote that is not doubled; a word (a number, a blob, a name) at a delimiter.\<close>

fun read_quoted :: "ptext \<Rightarrow> (ptext \<times> ptext) option" where
  "read_quoted [] = None"
| "read_quoted [c] = (if c = quote then Some ([], []) else None)"
| "read_quoted (c # d # s) =
     (if c = quote then
        if d = quote then map_option (\<lambda>(t, rest). (quote # t, rest)) (read_quoted s) else Some ([], d # s)
      else map_option (\<lambda>(t, rest). (c # t, rest)) (read_quoted (d # s)))"

definition delimiters :: ptext where
  "delimiters = text_of '',: ()[]{}'' @ [quote]"

definition is_word :: "ptext \<Rightarrow> bool" where
  "is_word s \<longleftrightarrow> s \<noteq> [] \<and> list_all (\<lambda>c. c \<notin> set delimiters) s"

definition read_word :: "ptext \<Rightarrow> (ptext \<times> ptext) option" where
  "read_word s = (let w = takeWhile (\<lambda>c. c \<notin> set delimiters) s in if w = [] then None else Some (w, dropWhile (\<lambda>c. c \<notin> set delimiters) s))"

definition skip :: "ptext \<Rightarrow> ptext" where
  "skip s = dropWhile (\<lambda>c. c = 32) s"

fun expect :: "nat \<Rightarrow> ptext \<Rightarrow> ptext option" where
  "expect c [] = None"
| "expect c (d # s) = (if d = c then Some s else None)"

fun read_literal :: "nat \<Rightarrow> ptext \<Rightarrow> (cql_literal \<times> ptext) option"
  and read_list :: "nat \<Rightarrow> nat \<Rightarrow> ptext \<Rightarrow> (cql_literal list \<times> ptext) option"
  and read_items :: "nat \<Rightarrow> nat \<Rightarrow> ptext \<Rightarrow> (cql_literal list \<times> ptext) option"
  and read_pairs :: "nat \<Rightarrow> ptext \<Rightarrow> ((cql_literal \<times> cql_literal) list \<times> ptext) option" where
  "read_literal 0 s = None"
| "read_literal (Suc n) s =
     (case s of
        [] \<Rightarrow> None
      | c # r \<Rightarrow>
          if c = quote then map_option (\<lambda>(t, rest). (LString t, rest)) (read_quoted r)
          else if c = 40 then map_option (\<lambda>(xs, rest). (LTuple xs, rest)) (read_list n 41 r)
          else if c = 91 then map_option (\<lambda>(xs, rest). (LList xs, rest)) (read_list n 93 r)
          else if c = 123 then
            (case Option.bind (read_literal n r) (\<lambda>(x, r1). map_option (Pair x) (expect 58 r1)) of
               Some (x, r2) \<Rightarrow> Option.bind (read_literal n (skip r2)) (\<lambda>(y, r3).
                 map_option (\<lambda>(ps, rest). (LMap ((x, y) # ps), rest)) (read_pairs n r3))
             | None \<Rightarrow> map_option (\<lambda>(xs, rest). (LSet xs, rest)) (read_list n 125 r))
          else map_option (\<lambda>(t, rest). (LWord t, rest)) (read_word s))"
| "read_list 0 close s = None"
| "read_list (Suc n) close s =
     (case expect close s of
        Some rest \<Rightarrow> Some ([], rest)
      | None \<Rightarrow> Option.bind (read_literal n s) (\<lambda>(x, r). map_option (\<lambda>(xs, rest). (x # xs, rest)) (read_items n close r)))"
| "read_items 0 close s = None"
| "read_items (Suc n) close s =
     (case expect close s of
        Some rest \<Rightarrow> Some ([], rest)
      | None \<Rightarrow> Option.bind (expect 44 s) (\<lambda>r. Option.bind (read_literal n (skip r)) (\<lambda>(x, r).
          map_option (\<lambda>(xs, rest). (x # xs, rest)) (read_items n close r))))"
| "read_pairs 0 s = None"
| "read_pairs (Suc n) s =
     (case expect 125 s of
        Some rest \<Rightarrow> Some ([], rest)
      | None \<Rightarrow> Option.bind (expect 44 s) (\<lambda>r. Option.bind (read_literal n (skip r)) (\<lambda>(x, r).
          Option.bind (expect 58 r) (\<lambda>r. Option.bind (read_literal n (skip r)) (\<lambda>(y, r).
            map_option (\<lambda>(ps, rest). ((x, y) # ps, rest)) (read_pairs n r))))))"

section \<open>A value does not leave its literal\<close>

text \<open>What is meant: an empty map is written like an empty set.\<close>

fun literal_of :: "cql_value \<Rightarrow> cql_literal" where
  "literal_of PyNone = LWord (text_of ''NULL'')"
| "literal_of (PyStr s) = LString s"
| "literal_of (PyBlob bs) = LWord (text_of (''0x'' @ hexlify bs))"
| "literal_of (PyInteger n) = LWord (text_of (int_text n))"
| "literal_of (PyFloat x) = LWord (cql_encode_float x)"
| "literal_of (PyDate days) = LWord (text_of (int_text (days + 2 ^ 31)))"
| "literal_of (PyObject s) = LWord s"
| "literal_of (PyQuoted s) = LString s"
| "literal_of (PyValueSequence vs) = LTuple (map literal_of vs)"
| "literal_of (PyListOf vs) = LList (map literal_of vs)"
| "literal_of (PySetOf vs) = LSet (map literal_of vs)"
| "literal_of (PyMapOf kvs) = (if kvs = [] then LSet [] else LMap (map (\<lambda>(k, v). (literal_of k, literal_of v)) kvs))"

text \<open>The texts of numbers and other objects are words, those of dates and addresses have no quotes.\<close>

fun plain_texts :: "cql_value \<Rightarrow> bool" where
  "plain_texts (PyFloat x) \<longleftrightarrow> is_word (cql_encode_float x)"
| "plain_texts (PyObject s) \<longleftrightarrow> is_word s"
| "plain_texts (PyQuoted s) \<longleftrightarrow> quote \<notin> set s"
| "plain_texts (PyValueSequence vs) \<longleftrightarrow> list_all plain_texts vs"
| "plain_texts (PyListOf vs) \<longleftrightarrow> list_all plain_texts vs"
| "plain_texts (PySetOf vs) \<longleftrightarrow> list_all plain_texts vs"
| "plain_texts (PyMapOf kvs) \<longleftrightarrow> list_all (\<lambda>(k, v). plain_texts k \<and> plain_texts v) kvs"
| "plain_texts _ \<longleftrightarrow> True"

text \<open>What may follow a literal.\<close>

definition follows :: "ptext \<Rightarrow> bool" where
  "follows rest \<longleftrightarrow> (case rest of [] \<Rightarrow> True | c # _ \<Rightarrow> c \<in> set delimiters \<and> c \<noteq> quote)"

lemma quote_follows: "follows rest \<Longrightarrow> read_quoted (double_quotes s @ quote # rest) = Some (s, rest)"
proof (induction s)
  case Nil
  then show ?case by (cases rest) (auto simp: follows_def)
next
  case (Cons c s)
  then show ?case by (cases "double_quotes s @ quote # rest") auto
qed

lemma double_quotes_none [simp]: "quote \<notin> set s \<Longrightarrow> double_quotes s = s"
  by (induction s) auto

lemma symbols: "text_of '', '' = [44, 32]" "text_of '': '' = [58, 32]" "text_of ''('' = [40]" "text_of '')'' = [41]"
  "text_of ''['' = [91]" "text_of '']'' = [93]" "text_of ''{'' = [123]" "text_of ''}'' = [125]"
  by (simp_all add: text_of_def)

lemma set_delimiters: "set delimiters = {32, 39, 40, 41, 44, 58, 91, 93, 123, 125}"
  by (auto simp: delimiters_def text_of_def quote_def)

lemma skip_head [simp]: "skip (32 # s) = skip s" "c \<noteq> 32 \<Longrightarrow> skip (c # s) = c # s"
  by (simp_all add: skip_def)

lemma follows_Cons: "c \<in> {41, 44, 58, 93, 125} \<Longrightarrow> follows (c # rest)"
  by (auto simp: follows_def set_delimiters quote_def)

lemma read_word_follows:
  assumes "is_word w" "follows rest"
  shows "read_word (w @ rest) = Some (w, rest)"
proof -
  have w: "\<And>c. c \<in> set w \<Longrightarrow> c \<notin> set delimiters" "w \<noteq> []" using assms(1) by (auto simp: is_word_def list_all_iff)
  have "takeWhile (\<lambda>c. c \<notin> set delimiters) rest = []" "dropWhile (\<lambda>c. c \<notin> set delimiters) rest = rest"
    using assms(2) by (cases rest; simp add: follows_def)+
  with w show ?thesis by (simp add: read_word_def takeWhile_append2 dropWhile_append2)
qed

lemma nat_text_not_empty: "nat_text n \<noteq> []"
  using nat_text_Cons [of n] by auto

lemma digit_word: "is_digit c \<Longrightarrow> of_char c \<notin> set delimiters"
  by (auto simp: set_delimiters is_digit_def)

lemma int_word: "is_word (text_of (int_text n))"
proof -
  have "(45 :: nat) \<notin> set delimiters" by (simp add: set_delimiters)
  then show ?thesis
    by (auto simp: is_word_def text_of_def int_text_def list_all_iff nat_text_not_empty digit_word dest: nat_text_digits)
qed

lemma hex_digit_word: "0 \<le> n \<Longrightarrow> n < 16 \<Longrightarrow> of_char (hex_digit n) \<notin> set delimiters"
  by (auto simp: set_delimiters hex_digit_def of_char_mod_256)

lemma hexlify_word: "c \<in> set (hexlify bs) \<Longrightarrow> of_char c \<notin> set delimiters"
proof (induction bs)
  case (Cons b bs)
  have "of_char (hex_digit (uint b div 16)) \<notin> set delimiters" "of_char (hex_digit (uint b mod 16)) \<notin> set delimiters"
    using uint_byte_bounds [of b] by (intro hex_digit_word; linarith | simp)+
  with Cons show ?case by auto
qed simp

lemma blob_word: "is_word (text_of (''0x'' @ hexlify bs))"
proof -
  have "(48 :: nat) \<notin> set delimiters" "(120 :: nat) \<notin> set delimiters" by (simp_all add: set_delimiters)
  then show ?thesis by (auto simp: is_word_def text_of_def list_all_iff hexlify_word)
qed

lemma null_word: "is_word (text_of ''NULL'')"
  by (simp add: is_word_def text_of_def set_delimiters)

text \<open>The reader takes the text of a value, and nothing of what follows.\<close>

definition reads :: "cql_value \<Rightarrow> bool" where
  "reads v \<longleftrightarrow> (\<forall>n rest. length (cql_encode_all_types v) < n \<longrightarrow> follows rest \<longrightarrow>
     read_literal n (cql_encode_all_types v @ rest) = Some (literal_of v, rest))"

definition starts :: "ptext \<Rightarrow> bool" where
  "starts s \<longleftrightarrow> (\<exists>c r. s = c # r \<and> c \<notin> {32, 41, 44, 58, 93, 125})"

lemma word_starts: "is_word w \<Longrightarrow> starts w"
  by (cases w) (auto simp: starts_def is_word_def set_delimiters)

lemma value_starts: "plain_texts v \<Longrightarrow> starts (cql_encode_all_types v)"
  by (cases v) (auto simp: symbols cql_quote_def quote_def starts_def
      intro: word_starts [unfolded starts_def, simplified] null_word int_word blob_word [simplified])

lemma readsD:
  "reads v \<Longrightarrow> length (cql_encode_all_types v) < n \<Longrightarrow> follows rest \<Longrightarrow>
   read_literal n (cql_encode_all_types v @ rest) = Some (literal_of v, rest)"
  by (simp add: reads_def)

lemma word_reads:
  assumes "is_word (cql_encode_all_types v)" "literal_of v = LWord (cql_encode_all_types v)"
  shows "reads v"
proof -
  obtain c w where c: "cql_encode_all_types v = c # w" "c \<notin> set delimiters"
    using assms(1) by (cases "cql_encode_all_types v") (auto simp: is_word_def)
  have "read_literal n ((c # w) @ rest) = Some (LWord (c # w), rest)" if "0 < n" "follows rest" for n rest
  proof -
    have "read_word (c # w @ rest) = Some (c # w, rest)" using read_word_follows [OF _ that(2), of "c # w"] assms(1) c(1) by simp
    moreover have "c \<noteq> quote" "c \<noteq> 40" "c \<noteq> 91" "c \<noteq> 123" using c(2) by (auto simp: set_delimiters quote_def)
    ultimately show ?thesis using that(1) by (cases n) simp_all
  qed
  then show ?thesis unfolding reads_def assms(2) c(1) by simp
qed

lemma quoted_reads:
  assumes "cql_encode_all_types v = [quote] @ double_quotes s @ [quote]" "literal_of v = LString s"
  shows "reads v"
  unfolding reads_def assms
  using quote_follows [of _ s] by (auto simp: gr0_conv_Suc elim!: less_natE)

lemma expect_starts: "starts s \<Longrightarrow> c \<in> {32, 41, 44, 58, 93, 125} \<Longrightarrow> expect c (s @ rest) = None"
  by (auto simp: starts_def)

lemma skip_starts: "starts s \<Longrightarrow> skip (s @ rest) = s @ rest"
  by (auto simp: starts_def)

lemma starts_length: "starts s \<Longrightarrow> 0 < length s"
  by (auto simp: starts_def)

definition closing :: "nat \<Rightarrow> bool" where
  "closing c \<longleftrightarrow> c \<in> {41, 93, 125}"

definition items_text :: "cql_value list \<Rightarrow> ptext" where
  "items_text vs = concat (map (\<lambda>v. [44, 32] @ cql_encode_all_types v) vs)"

definition good :: "cql_value \<Rightarrow> bool" where
  "good v \<longleftrightarrow> reads v \<and> starts (cql_encode_all_types v)"

lemma join_items: "join_text [44, 32] (map cql_encode_all_types (v # vs)) = cql_encode_all_types v @ items_text vs"
  by (induction vs arbitrary: v) (auto simp: items_text_def)

lemma items_follow: "closing c \<Longrightarrow> follows (items_text vs @ c # rest)"
  by (cases vs) (auto simp: items_text_def closing_def intro: follows_Cons)

lemma items_read:
  assumes "closing c" "list_all good vs" "length (items_text vs) < n"
  shows "read_items n c (items_text vs @ c # rest) = Some (map literal_of vs, rest)"
  using assms(2,3)
proof (induction vs arbitrary: n)
  case Nil
  then show ?case by (cases n) (simp_all add: items_text_def)
next
  case (Cons v vs)
  let ?t = "items_text vs @ c # rest"
  obtain m where n: "n = Suc m" using Cons.prems by (cases n) auto
  have v: "reads v" "starts (cql_encode_all_types v)" using Cons.prems by (auto simp: good_def)
  have len: "length (cql_encode_all_types v) < m" "length (items_text vs) < m" 
    using Cons.prems(2) by (auto simp: n items_text_def)
  have "c \<noteq> 44" using assms(1) by (auto simp: closing_def)
  then show ?case
    using Cons.IH [OF _ len(2)] Cons.prems(1) readsD [OF v(1) len(1) items_follow [OF assms(1)]]
    by (simp add: n items_text_def skip_starts [OF v(2)])
qed

lemma list_reads:
  assumes "closing c" "list_all good vs" "length (join_text [44, 32] (map cql_encode_all_types vs)) + 1 < n"
  shows "read_list n c (join_text [44, 32] (map cql_encode_all_types vs) @ c # rest) = Some (map literal_of vs, rest)"
proof (cases vs)
  case Nil
  then show ?thesis using assms(3) by (cases n) simp_all
next
  case (Cons v vs')
  obtain m where n: "n = Suc m" using assms(3) by (cases n) auto
  have v: "reads v" "starts (cql_encode_all_types v)" using assms(2) by (auto simp: good_def Cons)
  have len: "length (cql_encode_all_types v) < m" "length (items_text vs') < m"
    using assms(3) starts_length [OF v(2)] unfolding Cons join_items n by auto
  have "expect c (cql_encode_all_types v @ items_text vs' @ c # rest) = None"
    using assms(1) by (intro expect_starts [OF v(2)]) (auto simp: closing_def)
  with assms(2) show ?thesis unfolding Cons join_items n
    by (simp add: readsD [OF v(1) len(1) items_follow [OF assms(1)]] items_read [OF assms(1) _ len(2)])
qed

lemma bracket_reads:
  assumes "list_all good vs" "closing c" "follows rest"
  shows "length (join_text [44, 32] (map cql_encode_all_types vs)) + 2 < n \<Longrightarrow> c = 41 \<Longrightarrow>
      read_literal n (40 # join_text [44, 32] (map cql_encode_all_types vs) @ c # rest) = Some (LTuple (map literal_of vs), rest)"
    "length (join_text [44, 32] (map cql_encode_all_types vs)) + 2 < n \<Longrightarrow> c = 93 \<Longrightarrow>
      read_literal n (91 # join_text [44, 32] (map cql_encode_all_types vs) @ c # rest) = Some (LList (map literal_of vs), rest)"
  using list_reads [OF assms(2,1)] by (cases n; simp add: quote_def)+

text \<open>In braces, the colon after the first literal tells a map from a set.\<close>

lemma no_colon: "expect 58 (items_text vs @ 125 # rest) = None"
  by (cases vs) (simp_all add: items_text_def)

lemma set_reads:
  assumes "list_all good vs" "length (join_text [44, 32] (map cql_encode_all_types vs)) + 2 < n"
  shows "read_literal n (123 # join_text [44, 32] (map cql_encode_all_types vs) @ 125 # rest) = Some (LSet (map literal_of vs), rest)"
proof -
  let ?t = "join_text [44, 32] (map cql_encode_all_types vs) @ 125 # rest"
  obtain m where n: "n = Suc m" using assms(2) by (cases n) auto
  have list: "read_list m 125 ?t = Some (map literal_of vs, rest)"
    using assms by (intro list_reads) (simp_all add: n closing_def)
  have "Option.bind (read_literal m ?t) (\<lambda>(x, r1). map_option (Pair x) (expect 58 r1)) = None"
  proof (cases vs)
    case Nil
    obtain k where "m = Suc k" using assms(2) by (cases m) (auto simp: n)
    then show ?thesis by (simp add: Nil quote_def read_word_def set_delimiters)
  next
    case (Cons v vs')
    have v: "reads v" using assms(1) by (simp add: good_def Cons)
    have "length (cql_encode_all_types v) < m" using assms(2) unfolding Cons join_items n by simp
    from readsD [OF v this items_follow [of 125]] show ?thesis
      unfolding Cons join_items by (simp add: closing_def no_colon)
  qed
  with list show ?thesis by (simp add: n quote_def)
qed

definition pair_text :: "cql_value \<times> cql_value \<Rightarrow> ptext" where
  "pair_text p = cql_encode_all_types (fst p) @ [58, 32] @ cql_encode_all_types (snd p)"

definition pairs_text :: "(cql_value \<times> cql_value) list \<Rightarrow> ptext" where
  "pairs_text ps = concat (map (\<lambda>p. [44, 32] @ pair_text p) ps)"

definition literal_pair :: "cql_value \<times> cql_value \<Rightarrow> cql_literal \<times> cql_literal" where
  "literal_pair p = (literal_of (fst p), literal_of (snd p))"

definition good_pair :: "cql_value \<times> cql_value \<Rightarrow> bool" where
  "good_pair p \<longleftrightarrow> good (fst p) \<and> good (snd p)"

lemma join_pairs: "join_text [44, 32] (map pair_text (p # ps)) = pair_text p @ pairs_text ps"
  by (induction ps arbitrary: p) (auto simp: pairs_text_def)

lemma pairs_follow: "follows (pairs_text ps @ 125 # rest)"
  by (cases ps) (auto simp: pairs_text_def intro: follows_Cons)

lemma pair_read:
  assumes "good_pair p" "length (pair_text p) \<le> n"
  shows "read_literal n (pair_text p @ t) = Some (literal_of (fst p), 58 # 32 # cql_encode_all_types (snd p) @ t)"
    "follows t \<Longrightarrow> read_literal n (skip (32 # cql_encode_all_types (snd p) @ t)) = Some (literal_of (snd p), t)"
proof -
  have p: "reads (fst p)" "starts (cql_encode_all_types (fst p))" "reads (snd p)" "starts (cql_encode_all_types (snd p))"
    using assms(1) by (auto simp: good_pair_def good_def)
  have len: "length (cql_encode_all_types (fst p)) < n" "length (cql_encode_all_types (snd p)) < n"
    using assms(2) by (auto simp: pair_text_def)
  show "read_literal n (pair_text p @ t) = Some (literal_of (fst p), 58 # 32 # cql_encode_all_types (snd p) @ t)"
    using readsD [OF p(1) len(1) follows_Cons [of 58]] by (simp add: pair_text_def)
  show "read_literal n (skip (32 # cql_encode_all_types (snd p) @ t)) = Some (literal_of (snd p), t)" if "follows t"
    using readsD [OF p(3) len(2) that] by (simp add: skip_starts [OF p(4)])
qed

lemma pair_starts: "good_pair p \<Longrightarrow> starts (pair_text p)"
  by (auto simp: good_pair_def good_def pair_text_def starts_def)

lemma pairs_read:
  assumes "list_all good_pair ps" "length (pairs_text ps) < n"
  shows "read_pairs n (pairs_text ps @ 125 # rest) = Some (map literal_pair ps, rest)"
  using assms
proof (induction ps arbitrary: n)
  case Nil
  then show ?case by (cases n) (simp_all add: pairs_text_def)
next
  case (Cons p ps)
  obtain m where n: "n = Suc m" using Cons.prems by (cases n) auto
  have p: "good_pair p" using Cons.prems by simp
  have len: "length (pair_text p) \<le> m" "length (pairs_text ps) < m"
    using Cons.prems(2) by (auto simp: n pairs_text_def)
  have eq: "pairs_text (p # ps) @ 125 # rest = 44 # 32 # pair_text p @ pairs_text ps @ 125 # rest"
    by (simp add: pairs_text_def)
  show ?case
    using Cons.IH [OF _ len(2)] Cons.prems(1)
    unfolding eq by (simp add: n skip_starts [OF pair_starts [OF p]] pair_read(1) [OF p len(1)]
        pair_read(2) [OF p len(1) pairs_follow, simplified] literal_pair_def)
qed

lemma map_reads:
  assumes "list_all good_pair (p # ps)" "length (join_text [44, 32] (map pair_text (p # ps))) + 2 < n"
  shows "read_literal n (123 # join_text [44, 32] (map pair_text (p # ps)) @ 125 # rest) = Some (LMap (map literal_pair (p # ps)), rest)"
proof -
  obtain m where n: "n = Suc m" using assms(2) by (cases n) auto
  have p: "good_pair p" "list_all good_pair ps" using assms(1) by simp_all
  have len: "length (pair_text p) \<le> m" "length (pairs_text ps) < m" using assms(2) unfolding join_pairs n by auto
  show ?thesis unfolding join_pairs n
    using pair_read(2) [OF p(1) len(1) pairs_follow, simplified] pairs_read [OF p(2) len(2)]
    by (simp add: pair_read(1) [OF p(1) len(1)] quote_def literal_pair_def)
qed

lemma collections_read:
  assumes "list_all good vs"
  shows "reads (PyValueSequence vs)" "reads (PyListOf vs)" "reads (PySetOf vs)"
  using assms bracket_reads(1) [of vs 41] bracket_reads(2) [of vs 93] set_reads [of vs]
  by (auto simp: reads_def symbols closing_def)

lemma maps_read:
  assumes "list_all good_pair kvs"
  shows "reads (PyMapOf kvs)"
proof (cases kvs)
  case Nil
  then show ?thesis using set_reads [of "[]"] by (auto simp: reads_def symbols)
next
  case (Cons p ps)
  have eq: "(\<lambda>(k, v). cql_encode_all_types k @ [58, 32] @ cql_encode_all_types v) = pair_text"
    "(\<lambda>(k, v). (literal_of k, literal_of v)) = literal_pair"
    by (auto simp: fun_eq_iff pair_text_def literal_pair_def)
  have "read_literal n (123 # join_text [44, 32] (map pair_text kvs) @ 125 # rest) = Some (LMap (map literal_pair kvs), rest)"
    if "length (join_text [44, 32] (map pair_text kvs)) + 2 < n" for n rest
    using map_reads that assms unfolding Cons by blast
  moreover have "kvs \<noteq> []" using Cons by simp
  ultimately show ?thesis unfolding reads_def cql_encode_all_types.simps literal_of.simps symbols eq by simp
qed

lemma goodI: "reads v \<Longrightarrow> plain_texts v \<Longrightarrow> good v"
  by (simp add: good_def value_starts)

lemma value_good: "plain_texts v \<Longrightarrow> good v"
proof (induction v)
  case (PyValueSequence vs)
  then have "list_all good vs" by (auto simp: list_all_iff)
  then show ?case using PyValueSequence.prems by (intro goodI collections_read(1))
next
  case (PyListOf vs)
  then have "list_all good vs" by (auto simp: list_all_iff)
  then show ?case using PyListOf.prems by (intro goodI collections_read(2))
next
  case (PySetOf vs)
  then have "list_all good vs" by (auto simp: list_all_iff)
  then show ?case using PySetOf.prems by (intro goodI collections_read(3))
next
  case (PyMapOf kvs)
  then have "list_all good_pair kvs" by (fastforce simp: list_all_iff good_pair_def)
  then show ?case using PyMapOf.prems by (intro goodI maps_read)
next
  case (PyStr s)
  show ?case by (intro goodI quoted_reads [of _ s]) (simp_all add: cql_quote_def)
next
  case (PyQuoted s)
  then show ?case by (intro goodI quoted_reads [of _ s]) simp_all
qed (intro goodI word_reads; simp add: null_word int_word blob_word [simplified])+


definition example_literal :: cql_value where
  "example_literal = PyMapOf [(PyStr (text_of ''x''), PyListOf [PyInteger (-1), PyNone, PyBlob [0xAB]]), (PyStr [quote], PyListOf [])]"


end
