(* ===== verification/Spec2Isabelle.thy ===== *)
theory Spec2Isabelle
  imports Prelude Marshal Murmur3 Timestamps Utf8 Sorted_Set Hosts Policies Replication
    Py_Strings Metadata CqlTypes Wire Requests Responses Framing Effects Connection Connection_Users Timers Pool Request_Failures Result_Set Concurrent Encoder
begin

text \<open>
  A verification library for the DataStax Python driver for Apache Cassandra.
\<close>

section \<open>From the bytes of the server to the user of the driver\<close>

text \<open>The frame in which a server sends a message under the stream id \<open>n\<close>.\<close>

definition response_frame :: "int \<Rightarrow> int \<Rightarrow> server_frame \<Rightarrow> bytes \<Rightarrow> wire_frame" where
  "response_frame v n m body = \<lparr>wf_response = True, wf_version = v, wf_flags = frame_flags m, wf_stream = n,
     wf_opcode = response_opcode (sf_response m), wf_body = body\<rparr>"

definition response_message :: "int \<Rightarrow> int \<Rightarrow> server_frame \<Rightarrow> message" where
  "response_message v n m = message.make n (sf_trace_id m) (sf_warnings m) (sf_payload m) (response_view v (sf_response m))"

lemma frame_arrives:
  assumes "put_wire_frame (response_frame v n m body) = Inr bs" "0 \<le> v" "v \<le> 5" "concat chunks = bs"
  shows "fst (feed chunks io_init) = [Frame (frame_of (response_frame v n m body)) body]"
  using stream_delivered [of "[response_frame v n m body]" "[bs]" "[]" chunks] assms
  by (simp add: version_ok_def incomplete_def response_frame_def)

text \<open>A response that is not an error of the protocol calls the client that waits under its stream id.\<close>

lemma client_called:
  assumes "frame_ok v cols m" "put_frame v m = Inr body" "0 \<le> n"
    "map_of (requests c) n = Some (Client tok, decode_message, cols)" "\<And>code msg info. sf_response m \<noteq> SError code msg info"
  shows "\<exists>reg'. process_msg (frame_of (response_frame v n m body)) body c
    = (Inr (), [Call tok (Message (response_message v n m))],
       c\<lparr>msg_received := True, requests := AList.delete n (requests c), request_ids := request_ids c @ [n], types := reg'\<rparr>)"
proof -
  obtain reg' where "decode_message v n (frame_flags m) (response_opcode (sf_response m)) body (decompressor c) cols (types c)
    = Inr (response_message v n m, reg')"
    using put_frame_decodes [OF assms(1, 2)] unfolding response_message_def by blast
  moreover have "check_protocol_error (msg_body (response_message v n m)) = op_return ()"
  proof (cases "sf_response m")
    case (SError code msg info)
    with assms(5) show ?thesis by blast
  qed (simp_all add: response_message_def message.make_def check_protocol_error_def)
  ultimately show ?thesis using assms(3, 4)
    by (intro exI [of _ reg'])
      (simp add: process_msg_def defunct_on_error_def answer_request_def decode_with_def deliver_response_def ignore_errors_def
        pop_request_def frame_of_def frame.make_def response_frame_def op_defs)
qed

lemma rows_finish_request:
  assumes "sf_response m = SResult (SRows meta rows)" "\<And>cb. callback_raises w cb = None" "row_factory_raises w (rows_view meta rows) = None"
  shows "\<exists>f'. set_result w pol h k (Message (response_message v n m)) f
      = (Inr (), Returned (Some h) h k # EventSet # map (\<lambda>cb. RunCallback cb (RowsOf (rows_view meta rows))) (f_callbacks f), f')
    \<and> f_event f' \<and> result_of f' = Inr (RowsOf (rows_view meta rows)) \<and> f_paging_state f' = sm_paging_state meta"
  using assms
  by (simp add: set_result_def on_response_def on_result_def response_message_def message.make_def set_final_result_run note_response_def
      op_defs result_of_def rows_view_def rows_result.make_def)


lemma example_frame_ok: "frame_ok 4 None example_frame"
  by (simp add: frame_ok_def example_frame_def example_columns_def rows_ok_def metadata_ok_def column_ok_def sendable.simps
      col_types_def row_ok_def typed.simps parameterized_def int_bits_def)


end
